(* ===== verification/Prelude.thy ===== *)
theory Prelude
  imports Main "HOL-Library.Word" "HOL-Library.AList" "HOL-Library.Monad_Syntax"
begin

text \<open>
  What the components share.

  \<^item> Machine integers. A \<open>u64\<close>, \<open>u32\<close> or \<open>usize\<close> of the source is a \<open>nat\<close>; the
    bound is written out where the source converts, saturates or could overflow.
    A \<open>std::time::Duration\<close> is the \<open>nat\<close> of its nanoseconds (its \<open>as_nanos\<close>, which
    loses nothing), at most \<open>dur_max\<close>.
  \<^item> Panics. An operation that panics on overflow returns \<open>None\<close>; so does a function
    of the model that would panic through it. Overflow of integer \<open>+\<close> is such a panic,
    as it is with overflow checks on.
  \<^item> Strings. A \<open>str\<close> is the list of its UTF-8 bytes.
  \<^item> Keyed containers. A \<open>HashMap\<close> or \<open>DashMap\<close> is an association list with distinct
    keys; its \<open>len\<close> is the length of the list.
\<close>

named_theorems rust_num \<open>unfolding of the machine arithmetic\<close>
named_theorems rust_str \<open>evaluation of the string functions\<close>

section \<open>Machine integers and durations\<close>

definition u32_max :: nat where
  "u32_max = 2 ^ 32 - 1"

definition u64_max :: nat where
  "u64_max = 2 ^ 64 - 1"

definition nanos_per_sec :: nat where
  "nanos_per_sec = 1000000000"

definition dur_max :: nat where
  "dur_max = u64_max * nanos_per_sec + (nanos_per_sec - 1)"

definition sat_u64 :: "nat \<Rightarrow> nat" where
  "sat_u64 n = min n u64_max"

definition u64_add :: "nat \<Rightarrow> nat \<Rightarrow> nat option" where
  "u64_add a b = (if a + b \<le> u64_max then Some (a + b) else None)"

definition dur_add :: "nat \<Rightarrow> nat \<Rightarrow> nat option" where
  "dur_add a b = (if a + b \<le> dur_max then Some (a + b) else None)"

definition dur_mul :: "nat \<Rightarrow> nat \<Rightarrow> nat option" where
  "dur_mul d n = (if d * n \<le> dur_max then Some (d * n) else None)"

abbreviation secs :: "nat \<Rightarrow> nat" where
  "secs n \<equiv> n * nanos_per_sec"

definition as_secs :: "nat \<Rightarrow> nat" where
  "as_secs d = d div nanos_per_sec"

definition as_millis :: "nat \<Rightarrow> nat" where
  "as_millis d = d div 1000000"

lemmas [rust_num] = u32_max_def u64_max_def nanos_per_sec_def dur_max_def sat_u64_def
  u64_add_def dur_add_def dur_mul_def as_secs_def as_millis_def

lemma nanos_per_sec_pos [simp]: "0 < nanos_per_sec"
  by (simp add: nanos_per_sec_def)

lemma u64_max_le_dur_max: "u64_max \<le> dur_max"
  by (simp add: dur_max_def nanos_per_sec_def)

lemma u64_add_Some: "a + b \<le> u64_max \<Longrightarrow> u64_add a b = Some (a + b)"
  by (simp add: u64_add_def)

lemma dur_add_Some: "a + b \<le> dur_max \<Longrightarrow> dur_add a b = Some (a + b)"
  by (simp add: dur_add_def)

lemma dur_mul_Some: "d * n \<le> dur_max \<Longrightarrow> dur_mul d n = Some (d * n)"
  by (simp add: dur_mul_def)

lemma sat_u64_le [simp]: "sat_u64 n \<le> u64_max"
  by (simp add: sat_u64_def)

lemma sat_u64_id: "n \<le> u64_max \<Longrightarrow> sat_u64 n = n"
  by (simp add: sat_u64_def)

lemma sat_u64_mono: "m \<le> n \<Longrightarrow> sat_u64 m \<le> sat_u64 n"
  by (simp add: sat_u64_def min_def)

section \<open>Strings\<close>

text \<open>\<open>str::split(c)\<close>: the pieces between the separators, never empty.\<close>

fun split_on :: "char \<Rightarrow> string \<Rightarrow> string list" where
  "split_on c [] = [[]]"
| "split_on c (x # xs) =
     (if x = c then [] # split_on c xs
      else case split_on c xs of [] \<Rightarrow> [[x]] | s # ss \<Rightarrow> (x # s) # ss)"

text \<open>\<open>str::split_once(c)\<close>: around the first separator.\<close>

fun split_once :: "char \<Rightarrow> string \<Rightarrow> (string \<times> string) option" where
  "split_once c [] = None"
| "split_once c (x # xs) =
     (if x = c then Some ([], xs) else map_option (\<lambda>(a, b). (x # a, b)) (split_once c xs))"

fun strip_prefix :: "string \<Rightarrow> string \<Rightarrow> string option" where
  "strip_prefix [] s = Some s"
| "strip_prefix (p # ps) [] = None"
| "strip_prefix (p # ps) (x # xs) = (if p = x then strip_prefix ps xs else None)"

definition strip_suffix :: "string \<Rightarrow> string \<Rightarrow> string option" where
  "strip_suffix suf s = map_option rev (strip_prefix (rev suf) (rev s))"

definition starts_with :: "string \<Rightarrow> string \<Rightarrow> bool" where
  "starts_with p s \<longleftrightarrow> take (length p) s = p"

definition ends_with :: "string \<Rightarrow> string \<Rightarrow> bool" where
  "ends_with p s \<longleftrightarrow> strip_suffix p s \<noteq> None"

fun join_with :: "string \<Rightarrow> string list \<Rightarrow> string" where
  "join_with sep [] = []"
| "join_with sep [s] = s"
| "join_with sep (s # t # ss) = s @ sep @ join_with sep (t # ss)"

text \<open>\<open>to_ascii_lowercase\<close> and \<open>to_ascii_uppercase\<close> of a byte and of a text.\<close>

definition lower_byte :: "char \<Rightarrow> char" where
  "lower_byte c = (let n = of_char c :: nat in if 65 \<le> n \<and> n \<le> 90 then char_of (n + 32) else c)"

definition upper_byte :: "char \<Rightarrow> char" where
  "upper_byte c = (let n = of_char c :: nat in if 97 \<le> n \<and> n \<le> 122 then char_of (n - 32) else c)"

definition to_ascii_lowercase :: "string \<Rightarrow> string" where
  "to_ascii_lowercase s = map lower_byte s"

definition to_ascii_uppercase :: "string \<Rightarrow> string" where
  "to_ascii_uppercase s = map upper_byte s"

definition byte :: "char \<Rightarrow> nat" where
  "byte c = of_char c"

lemma byte_less: "byte c < 256"
  unfolding byte_def by (rule nat_of_char_less_256)

definition is_ascii_hexdigit :: "char \<Rightarrow> bool" where
  "is_ascii_hexdigit b \<longleftrightarrow> 48 \<le> byte b \<and> byte b \<le> 57 \<or> 65 \<le> byte b \<and> byte b \<le> 70
     \<or> 97 \<le> byte b \<and> byte b \<le> 102"

definition eq_ignore_ascii_case :: "string \<Rightarrow> string \<Rightarrow> bool" where
  "eq_ignore_ascii_case a b \<longleftrightarrow> to_ascii_lowercase a = to_ascii_lowercase b"

lemma bit_Suc_0_0 [simp]: "bit (Suc 0) 0"
  by (simp add: bit_0)

lemmas [rust_str] = to_ascii_lowercase_def to_ascii_uppercase_def lower_byte_def upper_byte_def
  eq_ignore_ascii_case_def strip_suffix_def starts_with_def ends_with_def char_of_def

text \<open>
  \<open>str::trim\<close> removes the characters with the Unicode \<open>White_Space\<close> property, here as
  their UTF-8 encodings of one, two or three bytes.
\<close>

definition ws1 :: "char \<Rightarrow> bool" where
  "ws1 a \<longleftrightarrow> a \<in> {CHR 0x09, CHR 0x0A, CHR 0x0B, CHR 0x0C, CHR 0x0D, CHR 0x20}"

definition ws2 :: "char \<Rightarrow> char \<Rightarrow> bool" where
  "ws2 a b \<longleftrightarrow> a = CHR 0xC2 \<and> b \<in> {CHR 0x85, CHR 0xA0}"

definition ws3 :: "char \<Rightarrow> char \<Rightarrow> char \<Rightarrow> bool" where
  "ws3 a b c \<longleftrightarrow>
     a = CHR 0xE1 \<and> b = CHR 0x9A \<and> c = CHR 0x80 \<or>
     a = CHR 0xE2 \<and> b = CHR 0x80 \<and>
       (0x80 \<le> (of_char c :: nat) \<and> (of_char c :: nat) \<le> 0x8A \<or>
        c \<in> {CHR 0xA8, CHR 0xA9, CHR 0xAF}) \<or>
     a = CHR 0xE2 \<and> b = CHR 0x81 \<and> c = CHR 0x9F \<or>
     a = CHR 0xE3 \<and> b = CHR 0x80 \<and> c = CHR 0x80"

fun trim_start :: "string \<Rightarrow> string" where
  "trim_start (a # b # c # r) =
     (if ws1 a then trim_start (b # c # r)
      else if ws2 a b then trim_start (c # r)
      else if ws3 a b c then trim_start r
      else a # b # c # r)"
| "trim_start [a, b] = (if ws1 a then trim_start [b] else if ws2 a b then [] else [a, b])"
| "trim_start [a] = (if ws1 a then [] else [a])"
| "trim_start [] = []"

fun trim_start_rev :: "string \<Rightarrow> string" where
  "trim_start_rev (c # b # a # r) =
     (if ws1 c then trim_start_rev (b # a # r)
      else if ws2 b c then trim_start_rev (a # r)
      else if ws3 a b c then trim_start_rev r
      else c # b # a # r)"
| "trim_start_rev [c, b] = (if ws1 c then trim_start_rev [b] else if ws2 b c then [] else [c, b])"
| "trim_start_rev [c] = (if ws1 c then [] else [c])"
| "trim_start_rev [] = []"

definition trim :: "string \<Rightarrow> string" where
  "trim s = rev (trim_start_rev (rev (trim_start s)))"

section \<open>Decimal numbers\<close>

definition digit_val :: "char \<Rightarrow> nat option" where
  "digit_val c = (let n = of_char c :: nat in if 48 \<le> n \<and> n \<le> 57 then Some (n - 48) else None)"

fun digits_val :: "nat \<Rightarrow> string \<Rightarrow> nat option" where
  "digits_val acc [] = Some acc"
| "digits_val acc (c # cs) =
     (case digit_val c of None \<Rightarrow> None | Some d \<Rightarrow> digits_val (10 * acc + d) cs)"

text \<open>\<open>str::parse::<u64>()\<close>: an optional \<open>+\<close>, then digits, within \<open>u64\<close>.\<close>

definition parse_u64 :: "string \<Rightarrow> nat option" where
  "parse_u64 s =
     (let ds = (case s of CHR ''+'' # r \<Rightarrow> r | _ \<Rightarrow> s)
      in if ds = [] then None
         else case digits_val 0 ds of
                Some n \<Rightarrow> if n \<le> u64_max then Some n else None
              | None \<Rightarrow> None)"

definition digit_char :: "nat \<Rightarrow> char" where
  "digit_char d = char_of (48 + d)"

text \<open>The decimal text of a number, as \<open>to_string\<close> and \<open>HeaderValue::from\<close> write it.\<close>

fun show_nat :: "nat \<Rightarrow> string" where
  "show_nat n = (if n < 10 then [digit_char n] else show_nat (n div 10) @ [digit_char (n mod 10)])"

declare show_nat.simps [simp del]

lemma digit_val_digit_char [simp]: "d < 10 \<Longrightarrow> digit_val (digit_char d) = Some d"
  by (simp add: digit_val_def digit_char_def)

lemma digits_val_append:
  "digits_val acc (xs @ ys) = (case digits_val acc xs of None \<Rightarrow> None | Some a \<Rightarrow> digits_val a ys)"
  by (induction xs arbitrary: acc) (auto split: option.splits)

lemma show_nat_digits: "\<forall>c \<in> set (show_nat n). \<exists>d < 10. c = digit_char d"
proof (induction n rule: show_nat.induct)
  case (1 n)
  then show ?case by (subst show_nat.simps) (auto, metis mod_less_divisor zero_less_numeral)
qed

lemma show_nat_nonempty [simp]: "show_nat n \<noteq> []"
  by (subst show_nat.simps) simp

lemma digits_val_show_nat [simp]: "digits_val 0 (show_nat n) = Some n"
proof (induction n rule: show_nat.induct)
  case (1 n)
  then show ?case by (subst show_nat.simps) (auto simp: digits_val_append)
qed

lemma digit_char_neq:
  "d < 10 \<Longrightarrow> (of_char c :: nat) \<notin> {48..57} \<Longrightarrow> digit_char d \<noteq> c"
  by (auto simp: digit_char_def)

lemma parse_u64_digits:
  assumes "s \<noteq> []" "\<forall>c \<in> set s. \<exists>d < 10. c = digit_char d"
  shows "parse_u64 s = (case digits_val 0 s of
      Some n \<Rightarrow> if n \<le> u64_max then Some n else None | None \<Rightarrow> None)"
proof -
  obtain c r where s: "s = c # r" using assms(1) by (cases s) auto
  with assms(2) have "c \<noteq> CHR ''+''" using digit_char_neq [of _ "CHR ''+''"] by fastforce
  then show ?thesis using s by (simp add: parse_u64_def split: char.split bool.split)
qed

lemma parse_u64_show_nat: "parse_u64 (show_nat n) = (if n \<le> u64_max then Some n else None)"
  by (simp add: parse_u64_digits show_nat_digits)

text \<open>A text between two printable ASCII bytes has nothing to trim.\<close>

definition plain_byte :: "char \<Rightarrow> bool" where
  "plain_byte c \<longleftrightarrow> 32 < (of_char c :: nat) \<and> (of_char c :: nat) < 128"

lemma plain_byte_ws:
  assumes "plain_byte a"
  shows "\<not> ws1 a" "\<not> ws2 a b" "\<not> ws3 a b c" "\<not> ws2 b a" "\<not> ws3 b c a"
  using assms by (auto simp: plain_byte_def ws1_def ws2_def ws3_def)

lemma trim_start_plain: "plain_byte a \<Longrightarrow> trim_start (a # r) = a # r"
  by (cases "a # r" rule: trim_start.cases) (auto simp: plain_byte_ws)

lemma trim_start_rev_plain: "plain_byte a \<Longrightarrow> trim_start_rev (a # r) = a # r"
  by (cases "a # r" rule: trim_start_rev.cases) (auto simp: plain_byte_ws)

lemma trim_plain:
  assumes "s \<noteq> []" "plain_byte (hd s)" "plain_byte (last s)"
  shows "trim s = s"
proof -
  obtain a r where s: "s = a # r" using assms(1) by (cases s) auto
  have "rev s = last s # rev (butlast s)"
    using assms(1) by (metis append_butlast_last_id rev.simps(2) rev_rev_ident)
  then show ?thesis
    using s assms(2,3) trim_start_plain [of a r] trim_start_rev_plain [of "last s" "rev (butlast s)"]
    by (simp add: trim_def)
qed

lemma plain_digit_char: "d < 10 \<Longrightarrow> plain_byte (digit_char d)"
  by (simp add: plain_byte_def digit_char_def)

lemma plain_show_nat: "plain_byte (hd (show_nat n))" "plain_byte (last (show_nat n))"
proof -
  have all: "plain_byte c" if "c \<in> set (show_nat n)" for c
  proof -
    from bspec [OF show_nat_digits that] obtain d where "d < 10" "c = digit_char d" by auto
    then show ?thesis by (simp add: plain_digit_char)
  qed
  show "plain_byte (hd (show_nat n))" "plain_byte (last (show_nat n))"
    by (rule all, simp)+
qed

lemma trim_show_nat [simp]: "trim (show_nat n) = show_nat n"
  by (simp add: trim_plain plain_show_nat)

lemma split_once_None: "c \<notin> set s \<Longrightarrow> split_once c s = None"
  by (induction s) auto

lemma split_once_Some: "c \<notin> set a \<Longrightarrow> split_once c (a @ c # b) = Some (a, b)"
  by (induction a) auto

lemma split_onceD: "split_once c s = Some (a, b) \<Longrightarrow> s = a @ c # b \<and> c \<notin> set a"
  by (induction s arbitrary: a) (auto split: if_splits)

lemma split_on_nonempty [simp]: "split_on c s \<noteq> []"
  by (induction s) (auto split: list.splits)

lemma join_with_Cons: "xs \<noteq> [] \<Longrightarrow> join_with sep (x # xs) = x @ sep @ join_with sep xs"
  by (cases xs) simp_all

lemma join_with_snoc: "join_with sep (xs @ [x]) = (if xs = [] then x else join_with sep xs @ sep @ x)"
  by (induction sep xs rule: join_with.induct) auto

lemma join_with_last: "xs \<noteq> [] \<Longrightarrow> \<exists>pre. join_with sep xs = pre @ last xs"
  by (cases xs rule: rev_cases) (auto simp: join_with_snoc)

lemma strip_prefix_append [simp]: "strip_prefix p (p @ s) = Some s"
  by (induction p) auto

lemma strip_prefix_iff: "strip_prefix p s = Some r \<longleftrightarrow> s = p @ r"
  by (induction p s rule: strip_prefix.induct) auto

lemma strip_suffix_iff: "strip_suffix p s = Some r \<longleftrightarrow> s = r @ p"
proof -
  have "strip_suffix p s = Some r \<longleftrightarrow> strip_prefix (rev p) (rev s) = Some (rev r)"
    unfolding strip_suffix_def by (cases "strip_prefix (rev p) (rev s)") auto
  also have "\<dots> \<longleftrightarrow> rev s = rev (r @ p)" by (simp add: strip_prefix_iff)
  finally show ?thesis by (simp only: rev_is_rev_conv)
qed

lemma strip_suffix_append: "strip_suffix p (s @ p) = Some s"
  by (simp add: strip_suffix_def)

lemma split_on_single: "c \<notin> set e \<Longrightarrow> split_on c e = [e]"
  by (induction e) auto

lemma split_on_append: "split_on c (a @ c # b) = split_on c a @ split_on c b"
proof (induction a)
  case Nil
  then show ?case by simp
next
  case (Cons x a)
  then show ?case by (cases "split_on c a") (auto split: list.splits)
qed

lemma show_nat_no_char: "(of_char c :: nat) \<notin> {48..57} \<Longrightarrow> c \<notin> set (show_nat n)"
proof
  assume c: "(of_char c :: nat) \<notin> {48..57}" and "c \<in> set (show_nat n)"
  from bspec [OF show_nat_digits this(2)] obtain d where "d < 10" "c = digit_char d" by auto
  with digit_char_neq [OF \<open>d < 10\<close> c] show False by simp
qed

section \<open>Fallible maps\<close>

text \<open>\<open>iter().map(f).collect::<Result<Vec<_>, _>>()\<close>: all results in order, or the first error.\<close>

fun try_map :: "('a \<Rightarrow> 'e + 'b) \<Rightarrow> 'a list \<Rightarrow> 'e + 'b list" where
  "try_map f [] = Inr []"
| "try_map f (x # xs) =
     (case f x of
        Inl e \<Rightarrow> Inl e
      | Inr y \<Rightarrow> (case try_map f xs of Inl e \<Rightarrow> Inl e | Inr ys \<Rightarrow> Inr (y # ys)))"

lemma try_map_InrD:
  "try_map f xs = Inr ys \<Longrightarrow> y \<in> set ys \<Longrightarrow> \<exists>x \<in> set xs. f x = Inr y"
  by (induction xs arbitrary: ys) (auto split: sum.split_asm)

lemma try_map_all:
  "try_map f xs = Inr ys \<Longrightarrow> list_all2 (\<lambda>x y. f x = Inr y) xs ys"
  by (induction xs arbitrary: ys) (auto split: sum.split_asm)

lemma try_map_Inl:
  "try_map f xs = Inl e \<Longrightarrow> \<exists>x \<in> set xs. f x = Inl e"
  by (induction xs) (auto split: sum.split_asm)

section \<open>Association lists\<close>

lemma map_of_filter_value:
  "distinct (map fst al) \<Longrightarrow>
   map_of (filter (\<lambda>(k, v). P v) al) k =
     (case map_of al k of None \<Rightarrow> None | Some v \<Rightarrow> if P v then Some v else None)"
proof (induction al)
  case Nil
  then show ?case by simp
next
  case (Cons kv al)
  obtain k' v' where kv: "kv = (k', v')" by fastforce
  have "k' \<notin> set (map fst al) \<Longrightarrow> map_of (filter (\<lambda>(k, v). P v) al) k' = None"
    by (force simp: map_of_eq_None_iff)
  with Cons kv show ?case by (auto split: option.splits)
qed

lemma distinct_filter_keys: "distinct (map fst al) \<Longrightarrow> distinct (map fst (filter P al))"
  by (induction al) auto

lemma length_update_keys:
  "length (AList.update k v al) = (if k \<in> fst ` set al then length al else Suc (length al))"
  by (induction al) auto

end
