(* ===== verification/Gcra.thy ===== *)
theory Gcra
  imports Prelude
begin

text \<open>
  The GCRA rate limiter core, \<^verbatim>\<open>src/shield/gcra.rs\<close>: the limiter's parameters, the
  profile they come from, and the check of one request against the key's stored
  theoretical arrival time (TAT).
\<close>

section \<open>Profile, limiter and verdict\<close>

record profile =
  profile_rate :: nat
  profile_window :: nat
  profile_burst :: nat

record gcra =
  emission_interval :: nat
  tau :: nat
  gcra_burst :: nat

record verdict =
  allowed :: bool
  new_tat :: nat
  remaining :: nat
  retry_after :: nat
  reset_after :: nat

section \<open>Operations\<close>

text \<open>A \<open>Duration\<close> from a \<open>u128\<close> nanosecond count, saturating at \<open>Duration::MAX\<close>.\<close>

definition duration_from_nanos :: "nat \<Rightarrow> nat" where
  "duration_from_nanos nanos =
     (let seconds = nanos div nanos_per_sec; sub = nanos mod nanos_per_sec
      in if seconds \<le> u64_max then seconds * nanos_per_sec + sub else dur_max)"

text \<open>Floor division of two durations, saturating at \<open>u64::MAX\<close>.\<close>

definition div_floor :: "nat \<Rightarrow> nat \<Rightarrow> nat" where
  "div_floor a b = sat_u64 (a div max b 1)"

text \<open>The limiter of a profile; \<open>None\<close> is the overflow panic of \<open>Duration * u32\<close>.\<close>

definition from_profile :: "profile \<Rightarrow> gcra option" where
  "from_profile p =
     (let rate = max (profile_rate p) 1;
          burst = max (profile_burst p) 1;
          window_nanos = max (profile_window p) 1;
          emission_nanos = window_nanos div rate;
          interval = duration_from_nanos (max emission_nanos 1)
      in do {
        t \<leftarrow> dur_mul interval (if burst - 1 \<le> u32_max then burst - 1 else u32_max);
        Some \<lparr>emission_interval = interval, tau = t, gcra_burst = burst\<rparr>
      })"

text \<open>The check of a request arriving at \<open>now\<close>; \<open>None\<close> is an overflow panic.\<close>

definition gcra_check :: "gcra \<Rightarrow> nat option \<Rightarrow> nat \<Rightarrow> verdict option" where
  "gcra_check g stored_tat now =
     (let t = emission_interval g;
          tat = (case stored_tat of None \<Rightarrow> now | Some d \<Rightarrow> d)
      in do {
        latest \<leftarrow> dur_add now (tau g);
        admissible \<leftarrow>
          (if tat \<le> latest
           then do {
             n \<leftarrow> u64_add 1 (div_floor (latest - tat) t);
             Some (min n (gcra_burst g))
           }
           else Some 0);
        if admissible = 0
        then Some \<lparr>allowed = False, new_tat = tat, remaining = 0,
               retry_after = tat - tau g - now, reset_after = tat - now\<rparr>
        else do {
          tat' \<leftarrow> dur_add (max tat now) t;
          Some \<lparr>allowed = True, new_tat = tat', remaining = admissible - 1,
            retry_after = 0, reset_after = tat' - now\<rparr>
        }
      })"

section \<open>Well-formed limiters\<close>

text \<open>
  What \<open>from_profile\<close> guarantees, and the range in which nothing overflows: the arrival
  time plus the tolerance and one interval fit in \<open>u64\<close> nanoseconds.
\<close>

definition gcra_ok :: "gcra \<Rightarrow> bool" where
  "gcra_ok g \<longleftrightarrow> 0 < emission_interval g \<and> 0 < gcra_burst g \<and>
     tau g = min (gcra_burst g - 1) u32_max * emission_interval g"

definition gcra_fits :: "gcra \<Rightarrow> nat \<Rightarrow> bool" where
  "gcra_fits g now \<longleftrightarrow> now + tau g + emission_interval g \<le> u64_max"

lemma gcra_okD:
  assumes "gcra_ok g"
  shows "0 < emission_interval g" "0 < gcra_burst g"
    "tau g = min (gcra_burst g - 1) u32_max * emission_interval g"
  using assms by (simp_all add: gcra_ok_def)

lemma gcra_fits_mono: "gcra_fits g now' \<Longrightarrow> now \<le> now' \<Longrightarrow> gcra_fits g now"
  by (simp add: gcra_fits_def)

lemma duration_from_nanos_bounds:
  "duration_from_nanos n \<le> dur_max" "0 < n \<Longrightarrow> 0 < duration_from_nanos n"
  "duration_from_nanos n \<le> n"
proof -
  have *: "n div nanos_per_sec * nanos_per_sec + n mod nanos_per_sec = n"
    by simp
  have "n div nanos_per_sec \<le> u64_max \<Longrightarrow> n \<le> dur_max"
    using mult_right_mono [of "n div nanos_per_sec" u64_max nanos_per_sec]
      mod_less_divisor [of nanos_per_sec n] * unfolding dur_max_def nanos_per_sec_def by linarith
  moreover have "dur_max < n" if "\<not> n div nanos_per_sec \<le> u64_max"
  proof -
    have "Suc u64_max * nanos_per_sec \<le> n div nanos_per_sec * nanos_per_sec"
      using that by (intro mult_right_mono) auto
    then show ?thesis using * by (simp add: dur_max_def nanos_per_sec_def)
  qed
  ultimately show "duration_from_nanos n \<le> dur_max" "0 < n \<Longrightarrow> 0 < duration_from_nanos n"
    "duration_from_nanos n \<le> n"
    by (auto simp: duration_from_nanos_def Let_def dur_max_def nanos_per_sec_def)
qed

definition profile_interval :: "profile \<Rightarrow> nat" where
  "profile_interval p =
     duration_from_nanos (max (max (profile_window p) 1 div max (profile_rate p) 1) 1)"

lemma from_profile_eq:
  "from_profile p = do {
     t \<leftarrow> dur_mul (profile_interval p) (min (max (profile_burst p) 1 - 1) u32_max);
     Some \<lparr>emission_interval = profile_interval p, tau = t, gcra_burst = max (profile_burst p) 1\<rparr> }"
  unfolding from_profile_def profile_interval_def Let_def min_def by (rule refl)

lemma profile_interval_pos: "0 < profile_interval p"
  unfolding profile_interval_def by (rule duration_from_nanos_bounds) simp

lemma profile_interval_le: "profile_interval p \<le> max (profile_window p) 1"
proof -
  have "max (profile_window p) 1 div max (profile_rate p) 1 \<le> max (profile_window p) 1"
    by (rule div_le_dividend)
  then have "max (max (profile_window p) 1 div max (profile_rate p) 1) 1 \<le> max (profile_window p) 1"
    by simp
  then show ?thesis
    unfolding profile_interval_def using duration_from_nanos_bounds(3) le_trans by blast
qed

lemma from_profile_ok: "from_profile p = Some g \<Longrightarrow> gcra_ok g"
  using profile_interval_pos [of p]
  by (auto simp: from_profile_eq gcra_ok_def dur_mul_def bind_eq_Some_conv mult.commute
      split: if_split_asm)

lemma from_profile_total:
  assumes "profile_window p \<le> secs (2 ^ 32)"
  shows "\<exists>g. from_profile p = Some g"
proof -
  have "profile_interval p \<le> secs (2 ^ 32)"
    using profile_interval_le [of p] assms by (simp add: nanos_per_sec_def)
  then have "profile_interval p * min (max (profile_burst p) 1 - 1) u32_max \<le> secs (2 ^ 32) * u32_max"
    by (rule mult_le_mono) simp
  also have "\<dots> \<le> dur_max" by (simp add: rust_num)
  finally show ?thesis by (simp add: from_profile_eq dur_mul_Some)
qed

section \<open>The check as a closed formula\<close>

definition tat_of :: "nat option \<Rightarrow> nat \<Rightarrow> nat" where
  "tat_of st now = (case st of None \<Rightarrow> now | Some d \<Rightarrow> d)"

lemma tat_of_simps [simp]: "tat_of None now = now" "tat_of (Some d) now = d"
  by (simp_all add: tat_of_def)

lemma gcra_check_eq:
  assumes "gcra_ok g" "gcra_fits g now"
  shows "gcra_check g st now = Some
    (if tat_of st now \<le> now + tau g
     then \<lparr>allowed = True, new_tat = max (tat_of st now) now + emission_interval g,
            remaining =
              min (1 + (now + tau g - tat_of st now) div emission_interval g) (gcra_burst g) - 1,
            retry_after = 0, reset_after = max (tat_of st now) now + emission_interval g - now\<rparr>
     else \<lparr>allowed = False, new_tat = tat_of st now, remaining = 0,
            retry_after = tat_of st now - tau g - now, reset_after = tat_of st now - now\<rparr>)"
proof -
  let ?t = "emission_interval g" and ?tat = "tat_of st now"
  note ok = gcra_okD [OF assms(1)]
  have fit: "now + tau g + ?t \<le> u64_max" using assms(2) by (simp add: gcra_fits_def)
  have lim: "dur_add now (tau g) = Some (now + tau g)"
    using fit u64_max_le_dur_max by (intro dur_add_Some) linarith
  have slack: "1 + (now + tau g - ?tat) div ?t \<le> u64_max"
    using div_le_dividend [of "now + tau g - ?tat" ?t] fit ok(1) by linarith
  then have n: "u64_add 1 (div_floor (now + tau g - ?tat) ?t) = Some (1 + (now + tau g - ?tat) div ?t)"
    using max_absorb1 [of 1 ?t] ok(1) by (simp add: div_floor_def sat_u64_id u64_add_def)
  have "?tat \<le> now + tau g \<Longrightarrow> dur_add (max ?tat now) ?t = Some (max ?tat now + ?t)"
    using fit u64_max_le_dur_max by (intro dur_add_Some) linarith
  with lim n ok show ?thesis
    unfolding gcra_check_def Let_def tat_of_def [symmetric]
    by (simp add: min_def)
qed

lemma gcra_check_total:
  "gcra_ok g \<Longrightarrow> gcra_fits g now \<Longrightarrow> \<exists>v. gcra_check g st now = Some v"
  by (simp add: gcra_check_eq)

lemma gcra_check_allowed_iff:
  "gcra_ok g \<Longrightarrow> gcra_fits g now \<Longrightarrow> gcra_check g st now = Some v \<Longrightarrow>
   allowed v \<longleftrightarrow> tat_of st now \<le> now + tau g"
  by (auto simp: gcra_check_eq split: if_splits)

lemma gcra_check_new_tat:
  "gcra_ok g \<Longrightarrow> gcra_fits g now \<Longrightarrow> gcra_check g st now = Some v \<Longrightarrow>
   new_tat v = (if allowed v then max (tat_of st now) now + emission_interval g else tat_of st now)"
  by (auto simp: gcra_check_eq split: if_splits)

section \<open>Sequences of checks on one key\<close>

text \<open>
  Checks of one key at the given arrival times, the TAT persisted as the store does: it
  is written when the request is admitted. The result is the list of decisions.
\<close>

fun gcra_runs :: "gcra \<Rightarrow> nat option \<Rightarrow> nat list \<Rightarrow> bool list option" where
  "gcra_runs g st [] = Some []"
| "gcra_runs g st (now # nows) = do {
     v \<leftarrow> gcra_check g st now;
     bs \<leftarrow> gcra_runs g (if allowed v then Some (new_tat v) else st) nows;
     Some (allowed v # bs)
   }"

text \<open>How many requests a key with TAT \<open>tat\<close> has left at \<open>now\<close>.\<close>

definition left_at :: "gcra \<Rightarrow> nat \<Rightarrow> nat \<Rightarrow> nat" where
  "left_at g tat now =
     (if tat \<le> now + tau g then 1 + (now + tau g - tat) div emission_interval g else 0)"

lemma left_at_next:
  assumes "gcra_ok g" "tat \<le> now + tau g"
  shows "left_at g tat now = Suc (left_at g (tat + emission_interval g) now)"
proof (cases "tat + emission_interval g \<le> now + tau g")
  case True
  then have "(now + tau g - tat) div emission_interval g =
      Suc ((now + tau g - (tat + emission_interval g)) div emission_interval g)"
    using gcra_okD(1) [OF assms(1)] le_div_geq [of "emission_interval g" "now + tau g - tat"]
    by (simp add: diff_diff_left)
  with True assms show ?thesis by (simp add: left_at_def)
next
  case False
  with assms show ?thesis by (simp add: left_at_def)
qed

lemma gcra_runs_rejected:
  assumes "gcra_ok g" "gcra_fits g now" "now + tau g < tat"
  shows "gcra_runs g (Some tat) (replicate n now) = Some (replicate n False)"
  using assms by (induction n) (simp_all add: gcra_check_eq)

lemma gcra_runs_same_instant:
  assumes "gcra_ok g" "gcra_fits g now" "now \<le> tat"
  shows "gcra_runs g (Some tat) (replicate n now) =
    Some (replicate (min n (left_at g tat now)) True @ replicate (n - left_at g tat now) False)"
  using assms(3)
proof (induction n arbitrary: tat)
  case 0
  then show ?case by simp
next
  case (Suc n)
  show ?case
  proof (cases "tat \<le> now + tau g")
    case True
    from Suc.prems have m: "max tat now = tat" by simp
    from True m Suc.IH [of "tat + emission_interval g"] Suc.prems left_at_next [OF assms(1) True]
    show ?thesis by (simp add: gcra_check_eq [OF assms(1,2)])
  next
    case False
    then have "left_at g tat now = 0" by (simp add: left_at_def)
    with False gcra_runs_rejected [OF assms(1,2), of tat "Suc n"] show ?thesis by simp
  qed
qed

lemma gcra_tau_div:
  assumes "gcra_ok g" "gcra_burst g \<le> 2 ^ 32"
  shows "tau g div emission_interval g = gcra_burst g - 1"
    "tau g = (gcra_burst g - 1) * emission_interval g"
  using gcra_okD [OF assms(1)] assms(2) by (simp_all add: u32_max_def min_def)

lemma left_at_fresh:
  assumes "gcra_ok g" "gcra_burst g \<le> 2 ^ 32"
  shows "left_at g (now + emission_interval g) now = gcra_burst g - 1"
proof (cases "gcra_burst g = 1")
  case True
  then show ?thesis using gcra_okD [OF assms(1)] by (simp add: left_at_def)
next
  case False
  have "now \<le> now + tau g" by simp
  from left_at_next [OF assms(1) this] show ?thesis
    using gcra_tau_div(1) [OF assms] by (simp add: left_at_def)
qed

text \<open>A key that has drained behaves like one never seen, as the store's eviction needs.\<close>

lemma gcra_check_drained:
  assumes "gcra_ok g" "gcra_fits g now" "gcra_burst g \<le> 2 ^ 32" "tat \<le> now"
  shows "gcra_check g (Some tat) now = gcra_check g None now"
proof -
  let ?t = "emission_interval g"
  note ok = gcra_okD [OF assms(1)]
  have "tau g div ?t \<le> (now + tau g - tat) div ?t"
    using assms(4) by (intro div_le_mono) simp
  then have "gcra_burst g \<le> 1 + (now + tau g - tat) div ?t"
    using gcra_tau_div(1) [OF assms(1,3)] ok(2) by linarith
  moreover have "gcra_burst g \<le> 1 + tau g div ?t"
    using gcra_tau_div(1) [OF assms(1,3)] by simp
  ultimately show ?thesis
    using assms(4) by (simp add: gcra_check_eq [OF assms(1,2)] min_absorb2 max_absorb2)
qed

text \<open>Whatever the burst, it decides the same and stores the same.\<close>

lemma gcra_check_drained_decision:
  assumes "gcra_ok g" "gcra_fits g now" "tat \<le> now"
    and "gcra_check g (Some tat) now = Some v" "gcra_check g None now = Some w"
  shows "allowed v = allowed w" "new_tat v = new_tat w"
  using assms by (auto simp: gcra_check_eq max_absorb2)

section \<open>A concrete limiter\<close>

text \<open>Sixty requests a minute, two of them back to back: one a second, one second of tolerance.\<close>

definition sample_profile :: profile where
  "sample_profile = \<lparr>profile_rate = 60, profile_window = secs 60, profile_burst = 2\<rparr>"

definition sample_gcra :: gcra where
  "sample_gcra = \<lparr>emission_interval = 1000000000, tau = 1000000000, gcra_burst = 2\<rparr>"

lemma sample_gcra_simps [simp]:
  "emission_interval sample_gcra = 1000000000" "tau sample_gcra = 1000000000"
  "gcra_burst sample_gcra = 2"
  by (simp_all add: sample_gcra_def)

lemma sample_profile_gcra: "from_profile sample_profile = Some sample_gcra"
  by (simp add: from_profile_eq profile_interval_def duration_from_nanos_def rust_num
      sample_profile_def sample_gcra_def)

lemma sample_gcra_ok: "gcra_ok sample_gcra"
  by (rule from_profile_ok [OF sample_profile_gcra])

lemma sample_gcra_fits: "now \<le> 2 ^ 60 \<Longrightarrow> gcra_fits sample_gcra now"
  by (simp add: gcra_fits_def u64_max_def)

section \<open>Properties\<close>





text \<open>
  C5. The \<open>Retry-After\<close> of a rejecting verdict is exact: a request at any earlier moment
  is rejected too, and a request once it has passed is admitted.
\<close>

theorem retry_after_is_exact:
  assumes "from_profile p = Some g" "gcra_fits g now'" "now \<le> now'"
    and "gcra_check g (Some tat) now = Some v" "\<not> allowed v"
    and "gcra_check g (Some tat) now' = Some v'"
  shows "allowed v' \<longleftrightarrow> now + retry_after v \<le> now'"
proof -
  have ok: "gcra_ok g" using assms(1) by (rule from_profile_ok)
  have fit: "gcra_fits g now" using assms(2,3) by (rule gcra_fits_mono)
  have "retry_after v = tat - tau g - now" "now + tau g < tat"
    using assms(4,5) by (auto simp: gcra_check_eq [OF ok fit] split: if_splits)
  then show ?thesis
    using gcra_check_allowed_iff [OF ok assms(2,6)] by auto
qed

theorem retry_after_is_exact_witness:
  "\<exists>v w. gcra_check sample_gcra (Some 2000000005) 5 = Some v \<and> \<not> allowed v \<and>
     retry_after v = 1000000000 \<and>
     gcra_check sample_gcra (Some 2000000005) 1000000005 = Some w \<and> allowed w"
proof -
  obtain v where v: "gcra_check sample_gcra (Some 2000000005) 5 = Some v" "\<not> allowed v"
    "retry_after v = 1000000000"
    by (simp add: gcra_check_eq [OF sample_gcra_ok sample_gcra_fits])
  obtain w where w: "gcra_check sample_gcra (Some 2000000005) 1000000005 = Some w"
    by (simp add: gcra_check_eq [OF sample_gcra_ok sample_gcra_fits])
  have "allowed w"
    using retry_after_is_exact [OF sample_profile_gcra sample_gcra_fits _ v(1,2) w] v(3) by simp
  with v w show ?thesis by blast
qed

end
