(* ===== verification/Limiter_Spec.thy ===== *)
theory Limiter_Spec
  imports Prelude
begin

text \<open>
  The contract a rate limiter gives its callers, as an interface: a state with one due
  time, and steps that either admit a request, moving the due time one interval past
  the later of itself and the arrival, or leave it. A step may forget a due time that
  has passed, since only its maximum with the clock is observed. From the laws follows
  the bound on what a run admits.
\<close>

text \<open>A sequence of steps, with the decision of each; \<open>None\<close> when one of them panics.\<close>

fun run_steps :: "('s \<Rightarrow> 'e \<Rightarrow> (bool \<times> 's) option) \<Rightarrow> 's \<Rightarrow> 'e list \<Rightarrow> (bool list \<times> 's) option" where
  "run_steps step s [] = Some ([], s)"
| "run_steps step s (e # es) = do {
     (a, s') \<leftarrow> step s e;
     (bs, s'') \<leftarrow> run_steps step s' es;
     Some (a # bs, s'')
   }"

definition admissions :: "bool list \<Rightarrow> nat" where
  "admissions bs = length (filter id bs)"

lemma admissions_simps [simp]:
  "admissions [] = 0" "admissions (True # bs) = Suc (admissions bs)"
  "admissions (False # bs) = admissions bs"
  by (simp_all add: admissions_def)

locale limiter =
  fixes step :: "'s \<Rightarrow> 'e \<Rightarrow> (bool \<times> 's) option"
    and due :: "'s \<Rightarrow> nat"
    and arrival :: "'e \<Rightarrow> nat"
    and inv :: "'s \<Rightarrow> bool"
    and ok :: "'e \<Rightarrow> bool"
    and interval :: nat
    and tolerance :: nat
  assumes progress: "inv s \<Longrightarrow> ok e \<Longrightarrow> \<exists>a s'. step s e = Some (a, s')"
    and kept: "inv s \<Longrightarrow> ok e \<Longrightarrow> step s e = Some (a, s') \<Longrightarrow> inv s'"
    and admitted: "inv s \<Longrightarrow> ok e \<Longrightarrow> step s e = Some (True, s') \<Longrightarrow>
      due s \<le> arrival e + tolerance \<and>
      max (due s') (arrival e) = max (due s) (arrival e) + interval"
    and refused: "inv s \<Longrightarrow> ok e \<Longrightarrow> step s e = Some (False, s') \<Longrightarrow>
      max (due s') (arrival e) = max (due s) (arrival e)"
begin

lemma run_total: "inv s \<Longrightarrow> \<forall>e \<in> set es. ok e \<Longrightarrow> \<exists>bs s'. run_steps step s es = Some (bs, s')"
proof (induction es arbitrary: s)
  case Nil
  then show ?case by simp
next
  case (Cons e es)
  obtain a s' where st: "step s e = Some (a, s')" using progress Cons.prems by force
  moreover from st have "inv s'" using kept Cons.prems by force
  then obtain bs s'' where "run_steps step s' es = Some (bs, s'')" using Cons by force
  ultimately show ?case using st by simp
qed

text \<open>
  With \<open>k\<close> intervals of backlog behind it at \<open>t0\<close>, a run whose clock does not go back
  can admit only as many requests as fit before the last arrival plus the tolerance.
\<close>

lemma run_bound_from:
  assumes "inv s" "\<forall>e \<in> set es. ok e" "sorted (map arrival es)" "run_steps step s es = Some (bs, s')"
    and "\<forall>e \<in> set es. t0 + k * interval \<le> max (due s) (arrival e)" "0 < admissions bs"
  shows "t0 + (k + admissions bs - 1) * interval \<le> arrival (last es) + tolerance"
  using assms
proof (induction es arbitrary: s bs k)
  case Nil
  then show ?case by simp
next
  case (Cons e es)
  then obtain a s1 bs' where st: "step s e = Some (a, s1)" and r: "run_steps step s1 es = Some (bs', s')"
    and bs: "bs = a # bs'"
    by (auto simp: bind_eq_Some_conv)
  have okall: "\<forall>e \<in> set es. ok e" and srt: "sorted (map arrival es)"
    and later: "\<forall>e' \<in> set es. arrival e \<le> arrival e'" and base: "ok e"
    using Cons.prems(2,3) by auto
  have start: "t0 + k * interval \<le> max (due s) (arrival e)" using Cons.prems(5) by simp
  have i1: "inv s1" using kept [OF Cons.prems(1) base st] .
  show ?case
  proof (cases a)
    case True
    with st admitted [OF Cons.prems(1) base] have adm: "due s \<le> arrival e + tolerance"
      "max (due s1) (arrival e) = max (due s) (arrival e) + interval" by auto
    show ?thesis
    proof (cases "admissions bs' = 0")
      case True
      have "arrival e \<le> arrival (last (e # es))"
        using later by (cases es rule: rev_cases) auto
      then show ?thesis using True bs \<open>a\<close> adm(1) start by (simp split: if_splits)
    next
      case False
      then have "es \<noteq> []" using r by auto
      have "\<forall>e' \<in> set es. t0 + Suc k * interval \<le> max (due s1) (arrival e')"
        using adm(2) start later by (auto simp: max_def split: if_splits)
      from Cons.IH [OF i1 okall srt r this] False \<open>es \<noteq> []\<close> bs \<open>a\<close> show ?thesis by simp
    qed
  next
    case False
    with st refused [OF Cons.prems(1) base] have eq: "max (due s1) (arrival e) = max (due s) (arrival e)" by simp
    have "\<forall>e' \<in> set es. t0 + k * interval \<le> max (due s1) (arrival e')"
      using eq start later by (auto simp: max_def split: if_splits)
    moreover have "0 < admissions bs'" using Cons.prems(6) bs False by simp
    moreover have "es \<noteq> []" using \<open>0 < admissions bs'\<close> r by auto
    ultimately show ?thesis using Cons.IH [OF i1 okall srt r] bs False by simp
  qed
qed

lemma run_bound:
  assumes "inv s" "\<forall>e \<in> set es. ok e" "sorted (map arrival es)" "run_steps step s es = Some (bs, s')" "es \<noteq> []"
  shows "admissions bs * interval \<le>
    (arrival (last es) - arrival (hd es)) + tolerance + interval"
proof (cases "admissions bs = 0")
  case False
  have "\<forall>e \<in> set es. arrival (hd es) + 0 * interval \<le> max (due s) (arrival e)"
    using assms(3,5) by (cases es) (auto simp: le_max_iff_disj)
  from run_bound_from [OF assms(1-4) this] False
  have "arrival (hd es) + (admissions bs - 1) * interval \<le> arrival (last es) + tolerance" by simp
  moreover have "admissions bs * interval = (admissions bs - 1) * interval + interval"
    using False by (cases "admissions bs") simp_all
  moreover have "arrival (hd es) \<le> arrival (last es)"
    using assms(3,5) by (cases es) auto
  ultimately show ?thesis by linarith
qed simp

end

end
