(* ===== verification/Store.thy ===== *)
theory Store
  imports Gcra Limiter_Spec
begin

text \<open>
  The in-process GCRA store, \<^verbatim>\<open>src/shield/store.rs\<close>: one TAT per key, in nanoseconds
  since the store's base instant, with drained entries swept away. The clock
  (\<open>GcraStore::now\<close>, the time since the base) is an argument. A check is atomic: the
  source holds the key's shard while it reads and writes the TAT, and a thread that
  loses the race for a sweep skips it.
\<close>

section \<open>State and constants\<close>

record gcra_store =
  tats :: "(string \<times> nat) list"
  last_sweep_ms :: nat

definition SWEEP_INTERVAL_MS :: nat where
  "SWEEP_INTERVAL_MS = 60000"

definition SWEEP_HIGH_WATER :: nat where
  "SWEEP_HIGH_WATER = 200000"

definition HW_SWEEP_MIN_MS :: nat where
  "HW_SWEEP_MIN_MS = 1000"

definition store_new :: gcra_store where
  "store_new = \<lparr>tats = [], last_sweep_ms = 0\<rparr>"

section \<open>Operations\<close>

definition dur_nanos :: "nat \<Rightarrow> nat" where
  "dur_nanos d = sat_u64 d"

definition evict_drained :: "nat \<Rightarrow> gcra_store \<Rightarrow> gcra_store" where
  "evict_drained now s = s\<lparr>tats := filter (\<lambda>(_, tat). dur_nanos now < tat) (tats s)\<rparr>"

definition maybe_sweep :: "nat \<Rightarrow> gcra_store \<Rightarrow> gcra_store" where
  "maybe_sweep now s =
     (let now_ms = sat_u64 (as_millis now);
          elapsed = now_ms - last_sweep_ms s;
          due = SWEEP_INTERVAL_MS \<le> elapsed \<or>
            HW_SWEEP_MIN_MS \<le> elapsed \<and> SWEEP_HIGH_WATER < length (tats s)
      in if due then evict_drained now (s\<lparr>last_sweep_ms := now_ms\<rparr>) else s)"

definition store_check :: "string \<Rightarrow> gcra \<Rightarrow> nat \<Rightarrow> gcra_store \<Rightarrow> (verdict \<times> gcra_store) option" where
  "store_check key g now s0 =
     (let s = maybe_sweep now s0
      in case map_of (tats s) key of
           Some tat \<Rightarrow> do {
             v \<leftarrow> gcra_check g (Some tat) now;
             Some (v, if allowed v
                      then s\<lparr>tats := AList.update key (dur_nanos (new_tat v)) (tats s)\<rparr> else s)
           }
         | None \<Rightarrow> do {
             v \<leftarrow> gcra_check g None now;
             Some (v, if allowed v
                      then s\<lparr>tats := AList.update key (dur_nanos (new_tat v)) (tats s)\<rparr> else s)
           })"

text \<open>The requests a store serves in turn: key, limiter of its profile, arrival.\<close>

type_synonym request_event = "string \<times> gcra \<times> nat"

fun store_run :: "gcra_store \<Rightarrow> request_event list \<Rightarrow> (verdict list \<times> gcra_store) option" where
  "store_run s [] = Some ([], s)"
| "store_run s ((key, g, now) # es) = do {
     (v, s') \<leftarrow> store_check key g now s;
     (vs, s'') \<leftarrow> store_run s' es;
     Some (v # vs, s'')
   }"

abbreviation arrival_of :: "request_event \<Rightarrow> nat" where
  "arrival_of e \<equiv> snd (snd e)"

section \<open>What a sweep leaves\<close>

definition tat_at :: "gcra_store \<Rightarrow> string \<Rightarrow> nat" where
  "tat_at s key = (case map_of (tats s) key of None \<Rightarrow> 0 | Some tat \<Rightarrow> tat)"

lemma store_check_eq:
  "store_check key g now s = do {
     v \<leftarrow> gcra_check g (map_of (tats (maybe_sweep now s)) key) now;
     Some (v, if allowed v
       then (maybe_sweep now s)\<lparr>tats :=
         AList.update key (dur_nanos (new_tat v)) (tats (maybe_sweep now s))\<rparr>
       else maybe_sweep now s)
   }"
  by (simp add: store_check_def Let_def split: option.split)

definition store_wf :: "gcra_store \<Rightarrow> bool" where
  "store_wf s \<longleftrightarrow> distinct (map fst (tats s))"

lemma store_wf_new [simp]: "store_wf store_new"
  by (simp add: store_wf_def store_new_def)

lemma maybe_sweep_wf: "store_wf s \<Longrightarrow> store_wf (maybe_sweep now s)"
  by (simp add: store_wf_def maybe_sweep_def evict_drained_def Let_def distinct_filter_keys)

lemma store_check_wf:
  "store_wf s \<Longrightarrow> store_check key g now s = Some (v, s') \<Longrightarrow> store_wf s'"
  using maybe_sweep_wf [of s now]
  by (auto simp: store_check_eq bind_eq_Some_conv store_wf_def distinct_update)

lemma sweep_lookup:
  assumes "store_wf s"
  shows "map_of (tats (maybe_sweep now s)) key = map_of (tats s) key \<or>
    map_of (tats (maybe_sweep now s)) key = None \<and>
    (\<exists>tat. map_of (tats s) key = Some tat \<and> tat \<le> dur_nanos now)"
  using map_of_filter_value [of "tats s" "\<lambda>tat. dur_nanos now < tat" key] assms
  by (auto simp: maybe_sweep_def evict_drained_def Let_def store_wf_def not_less split: option.splits)

lemma sweep_tat_at:
  assumes "store_wf s"
  shows "max (tat_at (maybe_sweep now s) key) now = max (tat_at s key) now"
    "tat_at (maybe_sweep now s) key \<le> tat_at s key"
  using sweep_lookup [OF assms, of now key] by (auto simp: tat_at_def dur_nanos_def sat_u64_def)

section \<open>The store as a limiter of one key\<close>

text \<open>A request the store serves within range: a well-formed limiter and no overflow.\<close>

definition event_ok :: "request_event \<Rightarrow> bool" where
  "event_ok e \<longleftrightarrow> (case e of (key, g, now) \<Rightarrow> gcra_ok g \<and> gcra_fits g now)"

text \<open>One request, seen from \<open>key\<close>: whether it was an admission of that key.\<close>

definition key_step :: "string \<Rightarrow> gcra_store \<Rightarrow> request_event \<Rightarrow> (bool \<times> gcra_store) option" where
  "key_step key s e = (case e of (k, g, now) \<Rightarrow>
     do { (v, s') \<leftarrow> store_check k g now s; Some (k = key \<and> allowed v, s') })"

lemma key_step_eq [simp]:
  "key_step key s (k, g, now) =
     do { (v, s') \<leftarrow> store_check k g now s; Some (k = key \<and> allowed v, s') }"
  by (simp add: key_step_def)

text \<open>Requests of \<open>key\<close> all carry the limiter \<open>g\<close>.\<close>

definition key_event_ok :: "string \<Rightarrow> gcra \<Rightarrow> request_event \<Rightarrow> bool" where
  "key_event_ok key g e \<longleftrightarrow> event_ok e \<and> (fst e = key \<longrightarrow> fst (snd e) = g)"

lemma store_check_total:
  "gcra_ok g \<Longrightarrow> gcra_fits g now \<Longrightarrow> \<exists>v s'. store_check key g now s = Some (v, s')"
  by (simp add: store_check_eq gcra_check_eq)

lemma store_check_other_key:
  "store_check k g now s = Some (v, s') \<Longrightarrow> k \<noteq> key \<Longrightarrow> tat_at s' key = tat_at (maybe_sweep now s) key"
  by (auto simp: store_check_eq bind_eq_Some_conv tat_at_def update_conv')

lemma store_check_rejected_keeps:
  "store_check k g now s = Some (v, s') \<Longrightarrow> \<not> allowed v \<Longrightarrow> s' = maybe_sweep now s"
  by (auto simp: store_check_eq bind_eq_Some_conv)

lemma tat_of_tat_at: "max (tat_of (map_of (tats s) key) now) now = max (tat_at s key) now"
  by (simp add: tat_at_def split: option.split)

lemma store_check_admits:
  assumes "gcra_ok g" "gcra_fits g now" "store_wf s"
    and "store_check key g now s = Some (v, s')" "allowed v"
  shows "tat_at s key \<le> now + tau g"
    "tat_at s' key = max (tat_at s key) now + emission_interval g"
proof -
  let ?s = "maybe_sweep now s"
  let ?tat = "tat_of (map_of (tats ?s) key) now"
  have v: "gcra_check g (map_of (tats ?s) key) now = Some v"
    and s': "s' = ?s\<lparr>tats := AList.update key (dur_nanos (new_tat v)) (tats ?s)\<rparr>"
    using assms(4,5) by (auto simp: store_check_eq bind_eq_Some_conv)
  have conf: "?tat \<le> now + tau g"
    using gcra_check_allowed_iff [OF assms(1,2) v] assms(5) by simp
  have m: "max ?tat now = max (tat_at s key) now"
    using tat_of_tat_at [of ?s key now] sweep_tat_at(1) [OF assms(3)] by simp
  then show "tat_at s key \<le> now + tau g" using conf by linarith
  have "new_tat v = max ?tat now + emission_interval g"
    using gcra_check_new_tat [OF assms(1,2) v] assms(5) by simp
  moreover have "max ?tat now + emission_interval g \<le> u64_max"
    using conf assms(2) by (simp add: gcra_fits_def)
  ultimately show "tat_at s' key = max (tat_at s key) now + emission_interval g"
    using s' m by (simp add: tat_at_def update_conv' dur_nanos_def sat_u64_id)
qed

interpretation key_limiter: limiter "key_step key" "\<lambda>s. tat_at s key" arrival_of store_wf
  "key_event_ok key g" "emission_interval g" "tau g" for key g
proof unfold_locales
  fix s e
  assume "key_event_ok key g e"
  moreover obtain k g' now where "e = (k, g', now)" by (cases e) auto
  ultimately show "\<exists>a s'. key_step key s e = Some (a, s')"
    using store_check_total [of g' now k s] by (auto simp: key_event_ok_def event_ok_def)
next
  fix s e a s'
  assume "store_wf s" "key_step key s e = Some (a, s')"
  then show "store_wf s'"
    by (cases e) (auto simp: bind_eq_Some_conv dest: store_check_wf)
next
  fix s e s'
  assume wf: "store_wf s" and ok: "key_event_ok key g e" and st: "key_step key s e = Some (True, s')"
  then obtain now v where e: "e = (key, g, now)" and fit: "gcra_ok g" "gcra_fits g now"
    and c: "store_check key g now s = Some (v, s')" and al: "allowed v"
    by (auto simp: key_event_ok_def event_ok_def key_step_def bind_eq_Some_conv)
  from store_check_admits [OF fit wf c al] e
  show "tat_at s key \<le> arrival_of e + tau g \<and>
    max (tat_at s' key) (arrival_of e) = max (tat_at s key) (arrival_of e) + emission_interval g"
    by simp
next
  fix s e s'
  assume wf: "store_wf s" and st: "key_step key s e = Some (False, s')"
  obtain k g' now where e: "e = (k, g', now)" by (cases e) auto
  with st obtain v where c: "store_check k g' now s = Some (v, s')" and no: "\<not> (k = key \<and> allowed v)"
    by (auto simp: key_step_def bind_eq_Some_conv)
  have "tat_at s' key = tat_at (maybe_sweep now s) key"
    using no store_check_other_key [OF c] store_check_rejected_keeps [OF c] by blast
  then show "max (tat_at s' key) (arrival_of e) = max (tat_at s key) (arrival_of e)"
    using sweep_tat_at(1) [OF wf] e by simp
qed

text \<open>The admissions of \<open>key\<close> in a run of the store.\<close>

definition admitted_of :: "string \<Rightarrow> request_event list \<Rightarrow> verdict list \<Rightarrow> nat" where
  "admitted_of key es vs = length (filter (\<lambda>(e, v). fst e = key \<and> allowed v) (zip es vs))"

lemma store_run_steps:
  "store_run s es = Some (vs, s') \<Longrightarrow>
   \<exists>bs. run_steps (key_step key) s es = Some (bs, s') \<and> admissions bs = admitted_of key es vs"
proof (induction es arbitrary: s vs)
  case Nil
  then show ?case by (simp add: admitted_of_def)
next
  case (Cons e es)
  obtain k g now where e: "e = (k, g, now)" by (cases e) auto
  with Cons.prems obtain v s1 vs1 where c: "store_check k g now s = Some (v, s1)"
    and r: "store_run s1 es = Some (vs1, s')" and vs: "vs = v # vs1"
    by (auto simp: bind_eq_Some_conv)
  from Cons.IH [OF r] obtain bs where "run_steps (key_step key) s1 es = Some (bs, s')"
    "admissions bs = admitted_of key es vs1" by blast
  with c e vs show ?case by (auto simp: admitted_of_def admissions_def)
qed

lemma store_run_total:
  "\<forall>e \<in> set es. event_ok e \<Longrightarrow> \<exists>vs s'. store_run s es = Some (vs, s')"
proof (induction es arbitrary: s)
  case Nil
  then show ?case by simp
next
  case (Cons e es)
  obtain k g now where e: "e = (k, g, now)" by (cases e) auto
  with Cons.prems obtain v s1 where c: "store_check k g now s = Some (v, s1)"
    using store_check_total by (force simp: event_ok_def)
  moreover obtain vs s' where "store_run s1 es = Some (vs, s')"
    using Cons by force
  ultimately show ?case using e by simp
qed

section \<open>A store that never forgets\<close>

text \<open>The reference: the same check over a map from keys to TATs, with no sweep.\<close>

definition ideal_check :: "string \<Rightarrow> gcra \<Rightarrow> nat \<Rightarrow> (string \<rightharpoonup> nat) \<Rightarrow> (verdict \<times> (string \<rightharpoonup> nat)) option" where
  "ideal_check key g now m = do {
     v \<leftarrow> gcra_check g (m key) now;
     Some (v, if allowed v then m(key \<mapsto> dur_nanos (new_tat v)) else m)
   }"

fun ideal_run :: "(string \<rightharpoonup> nat) \<Rightarrow> request_event list \<Rightarrow> (verdict list \<times> (string \<rightharpoonup> nat)) option" where
  "ideal_run m [] = Some ([], m)"
| "ideal_run m ((key, g, now) # es) = do {
     (v, m') \<leftarrow> ideal_check key g now m;
     (vs, m'') \<leftarrow> ideal_run m' es;
     Some (v # vs, m'')
   }"

text \<open>The store holds what the reference holds, but for keys that have drained by \<open>now\<close>.\<close>

definition forgets_drained :: "nat \<Rightarrow> gcra_store \<Rightarrow> (string \<rightharpoonup> nat) \<Rightarrow> bool" where
  "forgets_drained now s m \<longleftrightarrow> (\<forall>key. map_of (tats s) key = m key \<or>
     map_of (tats s) key = None \<and> (\<exists>tat. m key = Some tat \<and> tat \<le> now))"

lemma forgets_drained_sweep:
  assumes "store_wf s" "forgets_drained now s m" "now \<le> now'"
  shows "forgets_drained now' (maybe_sweep now' s) m"
  unfolding forgets_drained_def
proof
  fix key
  have "dur_nanos now' \<le> now'" by (simp add: dur_nanos_def sat_u64_def)
  with sweep_lookup [OF assms(1), of now' key] assms(2,3)
  show "map_of (tats (maybe_sweep now' s)) key = m key \<or>
    map_of (tats (maybe_sweep now' s)) key = None \<and> (\<exists>tat. m key = Some tat \<and> tat \<le> now')"
    unfolding forgets_drained_def by (metis le_trans)
qed

lemma forgets_drained_lookup:
  assumes "gcra_ok g" "gcra_fits g now" "gcra_burst g \<le> 2 ^ 32" "forgets_drained now s m"
  shows "gcra_check g (map_of (tats s) key) now = gcra_check g (m key) now"
proof (cases "map_of (tats s) key = m key")
  case False
  then obtain tat where "map_of (tats s) key = None" "m key = Some tat" "tat \<le> now"
    using assms(4) unfolding forgets_drained_def by metis
  then show ?thesis using gcra_check_drained [OF assms(1-3)] by simp
qed simp

lemma store_check_simulates:
  assumes "gcra_ok g" "gcra_fits g now'" "gcra_burst g \<le> 2 ^ 32"
    and "store_wf s" "forgets_drained now s m" "now \<le> now'"
    and "store_check key g now' s = Some (v, s')"
  obtains m' where "ideal_check key g now' m = Some (v, m')" "forgets_drained now' s' m'"
proof -
  let ?s = "maybe_sweep now' s"
  have f: "forgets_drained now' ?s m" by (rule forgets_drained_sweep [OF assms(4-6)])
  have v: "gcra_check g (map_of (tats ?s) key) now' = Some v"
    and s': "s' = (if allowed v then ?s\<lparr>tats := AList.update key (dur_nanos (new_tat v)) (tats ?s)\<rparr> else ?s)"
    using assms(7) by (auto simp: store_check_eq bind_eq_Some_conv)
  have "ideal_check key g now' m =
      Some (v, if allowed v then m(key \<mapsto> dur_nanos (new_tat v)) else m)"
    using v forgets_drained_lookup [OF assms(1-3) f] by (simp add: ideal_check_def)
  moreover have "forgets_drained now' s' (if allowed v then m(key \<mapsto> dur_nanos (new_tat v)) else m)"
    using f s' by (auto simp: forgets_drained_def update_conv')
  ultimately show ?thesis by (rule that)
qed

lemma store_run_simulates:
  assumes "\<forall>e \<in> set es. event_ok e \<and> gcra_burst (fst (snd e)) \<le> 2 ^ 32"
    and "sorted (map arrival_of es)" "\<forall>e \<in> set es. now \<le> arrival_of e"
    and "store_wf s" "forgets_drained now s m" "store_run s es = Some (vs, s')"
  shows "\<exists>m'. ideal_run m es = Some (vs, m')"
  using assms
proof (induction es arbitrary: s m vs now)
  case Nil
  then show ?case by simp
next
  case (Cons e es)
  obtain k g t where e: "e = (k, g, t)" by (cases e) auto
  with Cons.prems obtain v s1 vs1 where c: "store_check k g t s = Some (v, s1)"
    and r: "store_run s1 es = Some (vs1, s')" and vs: "vs = v # vs1"
    by (auto simp: bind_eq_Some_conv)
  have g: "gcra_ok g" "gcra_fits g t" "gcra_burst g \<le> 2 ^ 32" "now \<le> t"
    using Cons.prems(1,3) e by (auto simp: event_ok_def)
  obtain m1 where i: "ideal_check k g t m = Some (v, m1)" "forgets_drained t s1 m1"
    using store_check_simulates [OF g(1-3) Cons.prems(4,5) g(4) c] .
  have "store_wf s1" using store_check_wf Cons.prems(4) c by blast
  moreover have "\<forall>e \<in> set es. t \<le> arrival_of e" using Cons.prems(2) e by auto
  ultimately obtain m2 where "ideal_run m1 es = Some (vs1, m2)"
    using Cons.IH [of t s1 m1 vs1] Cons.prems(1,2) i(2) r by auto
  then show ?case using e i(1) vs by simp
qed

text \<open>The bound on the admissions of one key in a run that was served.\<close>

lemma store_run_bound:
  assumes ok: "gcra_ok g" and "gcra_burst g \<le> 2 ^ 32"
    and "\<forall>e \<in> set es. key_event_ok key g e" "sorted (map arrival_of es)" "es \<noteq> []"
    and "store_wf s" "store_run s es = Some (vs, s')"
  shows "admitted_of key es vs \<le>
    gcra_burst g + (arrival_of (last es) - arrival_of (hd es)) div emission_interval g"
proof -
  let ?T = "emission_interval g" and ?d = "arrival_of (last es) - arrival_of (hd es)"
  from store_run_steps [OF assms(7)] obtain bs where steps: "run_steps (key_step key) s es = Some (bs, s')"
    and n: "admissions bs = admitted_of key es vs" by blast
  have "admitted_of key es vs * ?T \<le> ?d + tau g + ?T"
    using key_limiter.run_bound [OF assms(6,3,4) steps assms(5)] n by simp
  also have "\<dots> = ?d + gcra_burst g * ?T"
    using gcra_tau_div(2) [OF ok assms(2)] gcra_okD(2) [OF ok] by (cases "gcra_burst g") simp_all
  finally have "admitted_of key es vs * ?T div ?T \<le> (?d + gcra_burst g * ?T) div ?T"
    by (rule div_le_mono)
  then show ?thesis using gcra_okD(1) [OF ok] by simp
qed

section \<open>Properties\<close>





section \<open>Where the TAT saturates\<close>

text \<open>
  The stored TAT is a \<open>u64\<close> of nanoseconds and saturates. It is not bounded by the
  process uptime but by the uptime plus the tolerance: with one request an hour and a
  burst of \<open>2 ^ 23\<close> the tolerance alone exceeds \<open>u64::MAX\<close> nanoseconds.
\<close>

definition long_burst_gcra :: gcra where
  "long_burst_gcra = \<lparr>emission_interval = 3600000000000, tau = (2 ^ 23 - 1) * 3600000000000,
     gcra_burst = 2 ^ 23\<rparr>"

lemma long_burst_profile:
  "from_profile \<lparr>profile_rate = 1, profile_window = secs 3600, profile_burst = 2 ^ 23\<rparr> =
     Some long_burst_gcra"
  by (simp add: from_profile_eq profile_interval_def duration_from_nanos_def rust_num
      long_burst_gcra_def)

lemma long_burst_check:
  assumes "now < u64_max" "tat_of st now \<le> u64_max"
  shows "\<exists>v. gcra_check long_burst_gcra st now = Some v \<and> allowed v"
proof -
  let ?g = long_burst_gcra and ?t = "tat_of st now"
  have lim: "dur_add now (tau ?g) = Some (now + tau ?g)"
    using assms(1) by (simp add: long_burst_gcra_def rust_num)
  have conf: "?t \<le> now + tau ?g"
    using assms(2) by (simp add: long_burst_gcra_def u64_max_def)
  have "(now + tau ?g - ?t) div 3600000000000 \<le> 2 ^ 63"
    using assms(1) by (simp add: long_burst_gcra_def u64_max_def)
  then have n: "u64_add 1 (div_floor (now + tau ?g - ?t) (emission_interval ?g)) =
      Some (1 + (now + tau ?g - ?t) div 3600000000000)"
    by (simp add: long_burst_gcra_def div_floor_def sat_u64_def u64_add_def u64_max_def)
  have "dur_add (max ?t now) (emission_interval ?g) = Some (max ?t now + emission_interval ?g)"
    using assms by (simp add: long_burst_gcra_def rust_num)
  with lim conf n show ?thesis
    by (simp add: gcra_check_def Let_def tat_of_def [symmetric] long_burst_gcra_def)
qed

definition tats_u64 :: "gcra_store \<Rightarrow> bool" where
  "tats_u64 s \<longleftrightarrow> (\<forall>key tat. map_of (tats s) key = Some tat \<longrightarrow> tat \<le> u64_max)"

lemma tats_u64_sweep: "store_wf s \<Longrightarrow> tats_u64 s \<Longrightarrow> tats_u64 (maybe_sweep now s)"
  unfolding tats_u64_def using sweep_lookup by (metis option.distinct(1))

lemma long_burst_never_rejects:
  assumes "now < u64_max" "store_wf s" "tats_u64 s"
  shows "\<exists>vs s'. store_run s (replicate n (key, long_burst_gcra, now)) = Some (vs, s') \<and>
    length vs = n \<and> (\<forall>v \<in> set vs. allowed v)"
  using assms(2,3)
proof (induction n arbitrary: s)
  case 0
  then show ?case by simp
next
  case (Suc n)
  let ?s = "maybe_sweep now s"
  have "tats_u64 ?s" using Suc.prems by (rule tats_u64_sweep)
  then have "\<exists>v. gcra_check long_burst_gcra (map_of (tats ?s) key) now = Some v \<and> allowed v"
    using long_burst_check [OF assms(1)]
    by (cases "map_of (tats ?s) key") (use assms(1) in \<open>auto simp: tats_u64_def\<close>)
  then obtain v where v: "gcra_check long_burst_gcra (map_of (tats ?s) key) now = Some v" "allowed v"
    by blast
  let ?s1 = "?s\<lparr>tats := AList.update key (dur_nanos (new_tat v)) (tats ?s)\<rparr>"
  have c: "store_check key long_burst_gcra now s = Some (v, ?s1)"
    using v by (simp add: store_check_eq)
  have "store_wf ?s1" using store_check_wf Suc.prems(1) c by blast
  moreover have "tats_u64 ?s1"
    using \<open>tats_u64 ?s\<close> by (auto simp: tats_u64_def update_conv' dur_nanos_def)
  ultimately obtain vs s' where
    "store_run ?s1 (replicate n (key, long_burst_gcra, now)) = Some (vs, s')"
    "length vs = n" "\<forall>v \<in> set vs. allowed v" using Suc.IH by blast
  then show ?case using c v(2) by simp
qed

text \<open>
  C6. With such a profile the limiter never rejects: any number of requests of one key
  at the same instant are all admitted, also beyond the burst.
\<close>

theorem saturated_tat_admits_everything:
  assumes "from_profile \<lparr>profile_rate = 1, profile_window = secs 3600, profile_burst = 2 ^ 23\<rparr> = Some g"
    and "now < u64_max"
  shows "\<exists>vs s'. store_run store_new (replicate n (key, g, now)) = Some (vs, s') \<and>
    length vs = n \<and> (\<forall>v \<in> set vs. allowed v)"
proof -
  have g: "g = long_burst_gcra" using assms(1) long_burst_profile by simp
  have "tats_u64 store_new" by (simp add: tats_u64_def store_new_def)
  from long_burst_never_rejects [OF assms(2) store_wf_new this] g show ?thesis by blast
qed

theorem saturated_tat_admits_everything_witness:
  "\<exists>vs s'. store_run store_new (replicate (2 ^ 23 + 1) (''k'', long_burst_gcra, 0)) = Some (vs, s') \<and>
    length vs = 2 ^ 23 + 1 \<and> (\<forall>v \<in> set vs. allowed v)"
  using saturated_tat_admits_everything [OF long_burst_profile, of 0 "2 ^ 23 + 1" "''k''"]
  by (simp add: u64_max_def)

end
