(* ===== verification/Rate.thy ===== *)
theory Rate
  imports Prelude
begin

text \<open>Rate strings, \<^verbatim>\<open>src/shield/rate.rs\<close>: \<open>"<count>/<unit>"\<close> or a bare count.\<close>

section \<open>Rates and their text\<close>

record rate =
  rate_limit :: nat
  rate_window :: nat

datatype rate_error = InvalidCount string | InvalidUnit string

definition parse_unit :: "string \<Rightarrow> rate_error + nat" where
  "parse_unit unit =
     (let u = to_ascii_lowercase unit
      in if u \<in> {''s'', ''sec'', ''secs'', ''second'', ''seconds''} then Inr (secs 1)
         else if u \<in> {''m'', ''min'', ''mins'', ''minute'', ''minutes''} then Inr (secs 60)
         else if u \<in> {''h'', ''hr'', ''hour'', ''hours''} then Inr (secs 3600)
         else Inl (InvalidUnit u))"

definition rate_parse :: "string \<Rightarrow> nat \<Rightarrow> rate_error + rate" where
  "rate_parse raw0 default_window =
     (let raw = trim raw0
      in case split_once (CHR ''/'') raw of
           None \<Rightarrow>
             (case parse_u64 raw of
                None \<Rightarrow> Inl (InvalidCount raw)
              | Some limit \<Rightarrow> Inr \<lparr>rate_limit = limit, rate_window = default_window\<rparr>)
         | Some (count, unit) \<Rightarrow>
             (case parse_u64 (trim count) of
                None \<Rightarrow> Inl (InvalidCount count)
              | Some limit \<Rightarrow>
                  (case parse_unit (trim unit) of
                     Inl e \<Rightarrow> Inl e
                   | Inr window \<Rightarrow> Inr \<lparr>rate_limit = limit, rate_window = window\<rparr>)))"

section \<open>Lemmas\<close>

definition unit_names :: "string list" where
  "unit_names = [''s'', ''sec'', ''secs'', ''second'', ''seconds'', ''m'', ''min'', ''mins'',
     ''minute'', ''minutes'', ''h'', ''hr'', ''hour'', ''hours'']"

text \<open>The window of a written unit is a second, a minute or an hour.\<close>

lemma parse_unit_window:
  assumes "parse_unit u = Inr w"
  shows "w \<in> {secs 1, secs 60, secs 3600}"
  using assms unfolding parse_unit_def Let_def
  by (metis Inl_Inr_False insertCI sum.inject(2))

lemma parse_unit_names:
  assumes "parse_unit u = Inr w"
  shows "to_ascii_lowercase u \<in> set unit_names"
proof (rule ccontr)
  assume "to_ascii_lowercase u \<notin> set unit_names"
  then have "parse_unit u = Inl (InvalidUnit (to_ascii_lowercase u))"
    unfolding parse_unit_def Let_def unit_names_def by (simp only: list.set insert_iff de_Morgan_disj if_False simp_thms)
  with assms show False by simp
qed

lemma unit_names_plain: "\<forall>u \<in> set unit_names. u \<noteq> [] \<and> plain_byte (hd u) \<and> plain_byte (last u)"
  by (simp add: unit_names_def plain_byte_def)

lemma plain_lower_byte: "plain_byte (lower_byte c) \<longleftrightarrow> plain_byte c"
  by (simp add: plain_byte_def lower_byte_def Let_def)

lemma parse_unit_plain:
  assumes "parse_unit u = Inr w"
  shows "u \<noteq> []" "plain_byte (hd u)" "plain_byte (last u)"
proof -
  have l: "to_ascii_lowercase u \<noteq> []" "plain_byte (hd (to_ascii_lowercase u))"
    "plain_byte (last (to_ascii_lowercase u))"
    using unit_names_plain parse_unit_names [OF assms] by blast+
  from l(1) show n: "u \<noteq> []" by (auto simp: to_ascii_lowercase_def)
  from l(2,3) n show "plain_byte (hd u)" "plain_byte (last u)"
    by (simp_all add: to_ascii_lowercase_def hd_map last_map plain_lower_byte)
qed

lemma parse_u64_le: "parse_u64 s = Some n \<Longrightarrow> n \<le> u64_max"
  by (auto simp: parse_u64_def Let_def split: if_split_asm option.split_asm)

lemma rate_parse_bounds:
  assumes "rate_parse raw w = Inr r"
  shows "rate_limit r \<le> u64_max" "rate_window r \<in> {w, secs 1, secs 60, secs 3600}"
proof -
  have "rate_limit r \<le> u64_max \<and> rate_window r \<in> {w, secs 1, secs 60, secs 3600}"
  proof (cases "split_once (CHR ''/'') (trim raw)")
    case None
    with assms show ?thesis
      by (auto simp: rate_parse_def Let_def dest: parse_u64_le split: option.split_asm)
  next
    case (Some cu)
    with assms obtain limit window where "parse_u64 (trim (fst cu)) = Some limit"
      "parse_unit (trim (snd cu)) = Inr window" "r = \<lparr>rate_limit = limit, rate_window = window\<rparr>"
      by (auto simp: rate_parse_def Let_def split: option.split_asm sum.split_asm prod.split_asm)
    then show ?thesis using parse_u64_le parse_unit_window by fastforce
  qed
  then show "rate_limit r \<le> u64_max" "rate_window r \<in> {w, secs 1, secs 60, secs 3600}" by auto
qed

lemma trim_rate_text:
  "plain_byte (last u) \<Longrightarrow> u \<noteq> [] \<Longrightarrow> trim (show_nat n @ c # u) = show_nat n @ c # u"
  using plain_show_nat(1) [of n] by (intro trim_plain) (simp_all add: hd_append)

section \<open>Properties\<close>



end
