(* ===== verification/Headers.thy ===== *)
theory Headers
  imports Prelude
begin

text \<open>
  HTTP header fields: a map from lower-case field names to the values of their field
  lines in wire order. Names are compared in lower case, as \<open>HeaderName\<close> stores them.
\<close>

type_synonym header_map = "string \<Rightarrow> string list"

definition no_headers :: header_map where
  "no_headers = (\<lambda>_. [])"

definition header_get :: "header_map \<Rightarrow> string \<Rightarrow> string option" where
  "header_get h n = (case h n of [] \<Rightarrow> None | v # _ \<Rightarrow> Some v)"

definition header_contains :: "header_map \<Rightarrow> string \<Rightarrow> bool" where
  "header_contains h n \<longleftrightarrow> h n \<noteq> []"

definition header_remove :: "header_map \<Rightarrow> string \<Rightarrow> header_map" where
  "header_remove h n = h(n := [])"

definition header_insert :: "header_map \<Rightarrow> string \<Rightarrow> string \<Rightarrow> header_map" where
  "header_insert h n v = h(n := [v])"

definition header_append :: "header_map \<Rightarrow> string \<Rightarrow> string \<Rightarrow> header_map" where
  "header_append h n v = h(n := h n @ [v])"

text \<open>\<open>HeaderValue::to_str\<close>: visible ASCII, spaces and tabs only.\<close>

definition to_str :: "string \<Rightarrow> string option" where
  "to_str v = (if list_all (\<lambda>b. 32 \<le> byte b \<and> byte b < 127 \<or> byte b = 9) v then Some v else None)"

text \<open>\<open>trim_ascii\<close>: space, tab, newline, form feed and carriage return at both ends.\<close>

definition is_ascii_whitespace :: "char \<Rightarrow> bool" where
  "is_ascii_whitespace c \<longleftrightarrow> byte c \<in> {9, 10, 12, 13, 32}"

definition trim_ascii :: "string \<Rightarrow> string" where
  "trim_ascii s =
     rev (dropWhile is_ascii_whitespace (rev (dropWhile is_ascii_whitespace s)))"

named_theorems header_simps \<open>evaluation of the header operations\<close>

lemmas [header_simps] = no_headers_def header_get_def header_contains_def header_remove_def
  header_insert_def header_append_def

lemma fold_header_append:
  "fold (\<lambda>v h. header_append h n v) vs h = h(n := h n @ vs)"
  by (induction vs arbitrary: h) (simp_all add: header_append_def)

text \<open>Two header maps that agree on every field but those in \<open>N\<close>.\<close>

definition agree_off :: "string set \<Rightarrow> header_map \<Rightarrow> header_map \<Rightarrow> bool" where
  "agree_off N h h' \<longleftrightarrow> (\<forall>n. n \<notin> N \<longrightarrow> h n = h' n)"

text \<open>A gRPC metadata key (\<open>transcode/metadata.rs\<close>), compared without case.\<close>

definition is_ascii_digit :: "char \<Rightarrow> bool" where
  "is_ascii_digit c \<longleftrightarrow> 48 \<le> (of_char c :: nat) \<and> (of_char c :: nat) \<le> 57"

definition is_ascii_lowercase :: "char \<Rightarrow> bool" where
  "is_ascii_lowercase c \<longleftrightarrow> 97 \<le> (of_char c :: nat) \<and> (of_char c :: nat) \<le> 122"

definition is_grpc_key :: "string \<Rightarrow> bool" where
  "is_grpc_key name \<longleftrightarrow> name \<noteq> [] \<and>
     list_all (\<lambda>b. let b = lower_byte b in
       is_ascii_digit b \<or> is_ascii_lowercase b \<or> b = CHR ''_'' \<or> b = CHR ''-'' \<or> b = CHR ''.'') name"

end
