(* ===== verification/Ip_Addr.thy ===== *)
theory Ip_Addr
  imports Prelude
begin

text \<open>
  What the proxy uses of \<open>std::net\<close>: addresses, their canonical form, their text, and
  the parsers of \<open>IpAddr\<close>, \<open>Ipv6Addr\<close> and \<open>SocketAddr\<close>. An IPv4 address is its four
  octets, an IPv6 address its eight 16-bit segments.
\<close>

section \<open>Addresses\<close>

datatype ip_addr = V4 "nat list" | V6 "nat list"

fun ip_wf :: "ip_addr \<Rightarrow> bool" where
  "ip_wf (V4 os) \<longleftrightarrow> length os = 4 \<and> (\<forall>b \<in> set os. b < 256)"
| "ip_wf (V6 ss) \<longleftrightarrow> length ss = 8 \<and> (\<forall>b \<in> set ss. b < 65536)"

text \<open>A socket address: the address and the port; flow and scope ids are not used.\<close>

record socket_addr =
  sock_ip :: ip_addr
  sock_port :: nat

definition high_octet :: "nat \<Rightarrow> nat" where
  "high_octet s = s div 256"

definition low_octet :: "nat \<Rightarrow> nat" where
  "low_octet s = s mod 256"

text \<open>\<open>Ipv6Addr::to_ipv4_mapped\<close>: the IPv4 address of \<open>::ffff:a.b.c.d\<close>.\<close>

fun to_ipv4_mapped :: "nat list \<Rightarrow> nat list option" where
  "to_ipv4_mapped [0, 0, 0, 0, 0, m, s, t] =
     (if m = 65535 then Some [high_octet s, low_octet s, high_octet t, low_octet t] else None)"
| "to_ipv4_mapped _ = None"

fun to_canonical :: "ip_addr \<Rightarrow> ip_addr" where
  "to_canonical (V4 os) = V4 os"
| "to_canonical (V6 ss) = (case to_ipv4_mapped ss of Some os \<Rightarrow> V4 os | None \<Rightarrow> V6 ss)"

section \<open>Text\<close>

definition hex_char :: "nat \<Rightarrow> char" where
  "hex_char d = (if d < 10 then char_of (48 + d) else char_of (87 + d))"

fun show_hex :: "nat \<Rightarrow> string" where
  "show_hex n = (if n < 16 then [hex_char n] else show_hex (n div 16) @ [hex_char (n mod 16)])"

declare show_hex.simps [simp del]

definition show_ipv4 :: "nat list \<Rightarrow> string" where
  "show_ipv4 os = join_with ''.'' (map show_nat os)"

definition show_groups :: "nat list \<Rightarrow> string" where
  "show_groups ss = join_with '':'' (map show_hex ss)"

text \<open>The longest run of zero segments, the first of equals: its start and length.\<close>

fun zero_span :: "nat \<Rightarrow> nat list \<Rightarrow> nat \<times> nat \<Rightarrow> nat \<times> nat \<Rightarrow> nat \<times> nat" where
  "zero_span i [] cur longest = longest"
| "zero_span i (s # ss) cur longest =
     (if s = 0 then
        (let cur' = (if snd cur = 0 then i else fst cur, Suc (snd cur))
         in zero_span (Suc i) ss cur' (if snd longest < snd cur' then cur' else longest))
      else zero_span (Suc i) ss (0, 0) longest)"

definition show_ipv6 :: "nat list \<Rightarrow> string" where
  "show_ipv6 ss =
     (case to_ipv4_mapped ss of
        Some os \<Rightarrow> ''::ffff:'' @ show_ipv4 os
      | None \<Rightarrow>
          (let (start, len) = zero_span 0 ss (0, 0) (0, 0)
           in if 1 < len
              then show_groups (take start ss) @ ''::'' @ show_groups (drop (start + len) ss)
              else show_groups ss))"

fun show_ip :: "ip_addr \<Rightarrow> string" where
  "show_ip (V4 os) = show_ipv4 os"
| "show_ip (V6 ss) = show_ipv6 ss"

section \<open>Parsers\<close>

text \<open>A parser reads a prefix of its input and returns the value and the rest.\<close>

type_synonym 'a reader = "string \<Rightarrow> ('a \<times> string) option"

definition hex_val :: "char \<Rightarrow> nat option" where
  "hex_val c = (let n = of_char c :: nat in
     if 48 \<le> n \<and> n \<le> 57 then Some (n - 48)
     else if 97 \<le> n \<and> n \<le> 102 then Some (n - 87)
     else if 65 \<le> n \<and> n \<le> 70 then Some (n - 55) else None)"

definition to_digit :: "nat \<Rightarrow> char \<Rightarrow> nat option" where
  "to_digit radix c = (if radix = 10 then digit_val c else hex_val c)"

fun radix_val :: "nat \<Rightarrow> nat \<Rightarrow> string \<Rightarrow> nat" where
  "radix_val radix acc [] = acc"
| "radix_val radix acc (c # cs) =
     (case to_digit radix c of None \<Rightarrow> acc | Some d \<Rightarrow> radix_val radix (radix * acc + d) cs)"

text \<open>\<open>max_digits\<close> is \<open>None\<close> for ports and scope ids, which only must not overflow.\<close>

definition read_number :: "nat \<Rightarrow> nat option \<Rightarrow> bool \<Rightarrow> nat \<Rightarrow> nat reader" where
  "read_number radix max_digits allow_zero_prefix bound s =
     (let ds = takeWhile (\<lambda>c. to_digit radix c \<noteq> None) s; n = length ds
      in if (case max_digits of Some m \<Rightarrow> m < n | None \<Rightarrow> False) then None
         else if n = 0 then None
         else if \<not> allow_zero_prefix \<and> hd ds = CHR ''0'' \<and> 1 < n then None
         else if bound < radix_val radix 0 ds then None
         else Some (radix_val radix 0 ds, drop n s))"

fun read_char :: "char \<Rightarrow> unit reader" where
  "read_char c [] = None"
| "read_char c (x # xs) = (if x = c then Some ((), xs) else None)"

definition read_separator :: "char \<Rightarrow> nat \<Rightarrow> 'a reader \<Rightarrow> 'a reader" where
  "read_separator sep i inner s =
     (if 0 < i then (case read_char sep s of None \<Rightarrow> None | Some (_, r) \<Rightarrow> inner r) else inner s)"

abbreviation read_octet :: "nat reader" where
  "read_octet \<equiv> read_number 10 (Some 3) False 255"

abbreviation read_group :: "nat reader" where
  "read_group \<equiv> read_number 16 (Some 4) True 65535"

definition read_ipv4_addr :: "nat list reader" where
  "read_ipv4_addr s = do {
     (a, s) \<leftarrow> read_separator (CHR ''.'') 0 read_octet s;
     (b, s) \<leftarrow> read_separator (CHR ''.'') 1 read_octet s;
     (c, s) \<leftarrow> read_separator (CHR ''.'') 2 read_octet s;
     (d, s) \<leftarrow> read_separator (CHR ''.'') 3 read_octet s;
     Some ([a, b, c, d], s)
   }"

text \<open>
  At most \<open>n\<close> more groups, the first of them the \<open>i\<close>-th read, with an embedded IPv4
  address where two groups are left; the flag says one was read.
\<close>

fun read_groups :: "nat \<Rightarrow> nat \<Rightarrow> string \<Rightarrow> nat list \<times> bool \<times> string" where
  "read_groups 0 i s = ([], False, s)"
| "read_groups (Suc n) i s =
     (case (if 0 < n then read_separator (CHR '':'') i read_ipv4_addr s else None) of
        Some (os, r) \<Rightarrow>
          ([256 * os ! 0 + os ! 1, 256 * os ! 2 + os ! 3], True, r)
      | None \<Rightarrow>
          (case read_separator (CHR '':'') i read_group s of
             Some (g, r) \<Rightarrow> (case read_groups n (Suc i) r of (gs, v4, r') \<Rightarrow> (g # gs, v4, r'))
           | None \<Rightarrow> ([], False, s)))"

definition read_ipv6_addr :: "nat list reader" where
  "read_ipv6_addr s =
     (case read_groups 8 0 s of (head, head_ipv4, r) \<Rightarrow>
        if length head = 8 then Some (head, r)
        else if head_ipv4 then None
        else do {
          (_, r) \<leftarrow> read_char (CHR '':'') r;
          (_, r) \<leftarrow> read_char (CHR '':'') r;
          (let (tail, _, r) = read_groups (8 - (length head + 1)) 0 r
           in Some (head @ replicate (8 - length head - length tail) 0 @ tail, r))
        })"

definition read_ip_addr :: "ip_addr reader" where
  "read_ip_addr s =
     (case read_ipv4_addr s of
        Some (os, r) \<Rightarrow> Some (V4 os, r)
      | None \<Rightarrow> map_option (\<lambda>(ss, r). (V6 ss, r)) (read_ipv6_addr s))"

definition read_port :: "nat reader" where
  "read_port s = do { (_, r) \<leftarrow> read_char (CHR '':'') s; read_number 10 None True 65535 r }"

definition read_scope_id :: "nat reader" where
  "read_scope_id s = do { (_, r) \<leftarrow> read_char (CHR ''%'') s; read_number 10 None True u32_max r }"

definition read_socket_addr_v4 :: "socket_addr reader" where
  "read_socket_addr_v4 s = do {
     (os, r) \<leftarrow> read_ipv4_addr s;
     (port, r) \<leftarrow> read_port r;
     Some (\<lparr>sock_ip = V4 os, sock_port = port\<rparr>, r)
   }"

definition read_socket_addr_v6 :: "socket_addr reader" where
  "read_socket_addr_v6 s = do {
     (_, r) \<leftarrow> read_char (CHR ''['') s;
     (ss, r) \<leftarrow> read_ipv6_addr r;
     r \<leftarrow> Some (case read_scope_id r of Some (_, r') \<Rightarrow> r' | None \<Rightarrow> r);
     (_, r) \<leftarrow> read_char (CHR '']'') r;
     (port, r) \<leftarrow> read_port r;
     Some (\<lparr>sock_ip = V6 ss, sock_port = port\<rparr>, r)
   }"

text \<open>\<open>FromStr\<close>: the reader must take the whole text.\<close>

definition parse_with :: "'a reader \<Rightarrow> string \<Rightarrow> 'a option" where
  "parse_with reader s = (case reader s of Some (v, []) \<Rightarrow> Some v | _ \<Rightarrow> None)"

definition parse_ip :: "string \<Rightarrow> ip_addr option" where
  "parse_ip s = parse_with read_ip_addr s"

definition parse_ipv6 :: "string \<Rightarrow> nat list option" where
  "parse_ipv6 s = parse_with read_ipv6_addr s"

definition parse_socket :: "string \<Rightarrow> socket_addr option" where
  "parse_socket s = parse_with (\<lambda>s. case read_socket_addr_v4 s of
     Some v \<Rightarrow> Some v | None \<Rightarrow> read_socket_addr_v6 s) s"

section \<open>Reading back what was written\<close>

text \<open>The text \<open>r\<close> does not continue a number.\<close>

definition stops :: "nat \<Rightarrow> string \<Rightarrow> bool" where
  "stops radix r \<longleftrightarrow> r = [] \<or> to_digit radix (hd r) = None"

lemma stops_Nil [simp]: "stops radix []"
  by (simp add: stops_def)

lemma stops_Cons [simp]: "stops radix (c # r) \<longleftrightarrow> to_digit radix c = None"
  by (simp add: stops_def)

lemma to_digit_punct [simp]:
  "to_digit radix (CHR ''.'') = None" "to_digit radix (CHR '':'') = None"
  "to_digit radix (CHR '']'') = None"
  by (simp_all add: to_digit_def digit_val_def hex_val_def)

lemma radix_val_append:
  "\<forall>c \<in> set xs. to_digit radix c \<noteq> None \<Longrightarrow>
   radix_val radix acc (xs @ ys) = radix_val radix (radix_val radix acc xs) ys"
  by (induction xs arbitrary: acc) (auto split: option.splits)

lemma read_number_append:
  assumes "ds \<noteq> []" "\<forall>c \<in> set ds. to_digit radix c \<noteq> None" "stops radix r"
    and "case md of Some m \<Rightarrow> length ds \<le> m | None \<Rightarrow> True"
    and "z \<or> hd ds \<noteq> CHR ''0'' \<or> length ds = 1" "radix_val radix 0 ds \<le> bound"
  shows "read_number radix md z bound (ds @ r) = Some (radix_val radix 0 ds, r)"
proof -
  have "takeWhile (\<lambda>c. to_digit radix c \<noteq> None) (ds @ r) = ds"
    using assms(2,3) by (cases r) (auto simp: takeWhile_append)
  with assms show ?thesis
    by (auto simp: read_number_def split: option.splits)
qed

lemma read_number_rest:
  "read_number radix md z bound s = Some (v, r) \<Longrightarrow> r = dropWhile (\<lambda>c. to_digit radix c \<noteq> None) s"
  by (auto simp: read_number_def Let_def dropWhile_eq_drop split: if_splits option.splits)

subsection \<open>Decimal and hexadecimal numbers\<close>

lemma to_digit_digit_char [simp]: "d < 10 \<Longrightarrow> to_digit 10 (digit_char d) = Some d"
  by (simp add: to_digit_def)

lemma show_nat_all_digits: "\<forall>c \<in> set (show_nat n). to_digit 10 c \<noteq> None"
proof
  fix c assume "c \<in> set (show_nat n)"
  from bspec [OF show_nat_digits this] obtain d where "d < 10" "c = digit_char d" by auto
  then show "to_digit 10 c \<noteq> None" by simp
qed

lemma radix_val_show_nat [simp]: "radix_val 10 0 (show_nat n) = n"
proof (induction n rule: show_nat.induct)
  case (1 n)
  then show ?case
    by (subst show_nat.simps) (auto simp: radix_val_append show_nat_all_digits)
qed

lemma length_show_nat: "n < 10 ^ Suc k \<Longrightarrow> length (show_nat n) \<le> Suc k"
proof (induction k arbitrary: n)
  case 0
  then show ?case by (subst show_nat.simps) simp
next
  case (Suc k)
  have "n div 10 < 10 ^ Suc k" using Suc.prems by (simp add: less_mult_imp_div_less)
  from Suc.IH [OF this] show ?case by (subst show_nat.simps) simp
qed

lemma hd_show_nat: "0 < n \<Longrightarrow> hd (show_nat n) \<noteq> CHR ''0''"
proof (induction n rule: show_nat.induct)
  case (1 n)
  then show ?case
    by (subst show_nat.simps) (auto simp: digit_char_def dest: arg_cong [of _ _ "of_char :: char \<Rightarrow> nat"])
qed

lemma read_octet_show:
  assumes "b < 256" "stops 10 r"
  shows "read_octet (show_nat b @ r) = Some (b, r)"
proof -
  have "hd (show_nat b) \<noteq> CHR ''0'' \<or> length (show_nat b) = 1"
    using hd_show_nat [of b] by (cases "b = 0") (simp_all add: show_nat.simps [of 0])
  moreover have "length (show_nat b) \<le> 3"
    using length_show_nat [of b 2] assms(1) by simp
  ultimately show ?thesis
    using assms read_number_append [of "show_nat b" 10 r "Some 3" False 255]
    by (simp add: show_nat_all_digits)
qed

lemma to_digit_hex_char [simp]: "d < 16 \<Longrightarrow> to_digit 16 (hex_char d) = Some d"
  by (auto simp: to_digit_def hex_val_def hex_char_def)

lemma show_hex_digits: "\<forall>c \<in> set (show_hex n). to_digit 16 c \<noteq> None"
proof (induction n rule: show_hex.induct)
  case (1 n)
  then show ?case by (subst show_hex.simps) auto
qed

lemma show_hex_nonempty [simp]: "show_hex n \<noteq> []"
  by (subst show_hex.simps) simp

lemma radix_val_show_hex [simp]: "radix_val 16 0 (show_hex n) = n"
proof (induction n rule: show_hex.induct)
  case (1 n)
  then show ?case by (subst show_hex.simps) (auto simp: radix_val_append show_hex_digits)
qed

lemma length_show_hex: "n < 16 ^ Suc k \<Longrightarrow> length (show_hex n) \<le> Suc k"
proof (induction k arbitrary: n)
  case 0
  then show ?case by (subst show_hex.simps) simp
next
  case (Suc k)
  have "n div 16 < 16 ^ Suc k" using Suc.prems by (simp add: less_mult_imp_div_less)
  from Suc.IH [OF this] show ?case by (subst show_hex.simps) simp
qed

lemma read_group_show:
  assumes "g < 65536" "stops 16 r"
  shows "read_group (show_hex g @ r) = Some (g, r)"
  using assms length_show_hex [of g 3] read_number_append [of "show_hex g" 16 r "Some 4" True 65535]
  by (simp add: show_hex_digits)

subsection \<open>Addresses\<close>

lemma read_ipv4_show:
  assumes "length os = 4" "\<forall>b \<in> set os. b < 256" "stops 10 r"
  shows "read_ipv4_addr (show_ipv4 os @ r) = Some (os, r)"
proof -
  from assms(1) obtain a b c d where os: "os = [a, b, c, d]"
    by (auto simp: numeral_eq_Suc length_Suc_conv)
  with assms(2,3) show ?thesis
    by (simp add: show_ipv4_def read_ipv4_addr_def read_separator_def read_octet_show)
qed

lemma read_ipv4_None:
  assumes "\<And>r. dropWhile (\<lambda>c. to_digit 10 c \<noteq> None) s \<noteq> CHR ''.'' # r"
  shows "read_ipv4_addr s = None"
proof (cases "read_octet s")
  case None
  then show ?thesis by (simp add: read_ipv4_addr_def read_separator_def)
next
  case (Some vr)
  then obtain v r where vr: "read_octet s = Some (v, r)" by (cases vr) auto
  have "r \<noteq> CHR ''.'' # x" for x using assms [of x] read_number_rest [OF vr] by simp
  then have "read_char (CHR ''.'') r = None" by (cases r) auto
  then show ?thesis by (simp add: read_ipv4_addr_def read_separator_def vr)
qed

lemma to_digit_mono: "to_digit 16 c = None \<Longrightarrow> to_digit 10 c = None"
  by (auto simp: to_digit_def hex_val_def digit_val_def Let_def split: if_splits)

text \<open>What may follow an address, and what may follow a run of groups.\<close>

definition address_end :: "string \<Rightarrow> bool" where
  "address_end r \<longleftrightarrow> r = [] \<or> (\<exists>x. r = CHR '']'' # x)"

definition groups_end :: "string \<Rightarrow> bool" where
  "groups_end r \<longleftrightarrow> address_end r \<or> (\<exists>x. r = CHR '':'' # CHR '':'' # x)"

definition tail_text :: "nat list \<Rightarrow> string" where
  "tail_text gs = concat (map (\<lambda>g. CHR '':'' # show_hex g) gs)"

lemma show_groups_Cons: "show_groups (g # gs) = show_hex g @ tail_text gs"
  by (induction gs arbitrary: g) (simp_all add: show_groups_def tail_text_def)

lemma tail_text_Nil [simp]: "tail_text [] = []"
  by (simp add: tail_text_def)

lemma tail_text_Cons: "tail_text (g # gs) = CHR '':'' # show_hex g @ tail_text gs"
  by (simp add: tail_text_def)

lemma show_groups_Nil [simp]: "show_groups [] = []"
  by (simp add: show_groups_def)

lemma tail_text_stops: "groups_end r \<Longrightarrow> stops 16 (tail_text gs @ r)"
  by (cases gs) (auto simp: tail_text_def groups_end_def address_end_def)

lemma tail_text_no_dot: "groups_end r \<Longrightarrow> tail_text gs @ r \<noteq> CHR ''.'' # x"
  by (cases gs) (auto simp: tail_text_def groups_end_def address_end_def)

lemma read_ipv4_of_hex:
  assumes "stops 16 r" "\<And>x. r \<noteq> CHR ''.'' # x" "\<forall>c \<in> set h. to_digit 16 c \<noteq> None"
  shows "read_ipv4_addr (h @ r) = None"
proof (rule read_ipv4_None)
  fix x
  let ?D = "\<lambda>c. to_digit 10 c \<noteq> None"
  have r: "dropWhile ?D r = r" using assms(1) by (cases r) (auto dest: to_digit_mono)
  show "dropWhile ?D (h @ r) \<noteq> CHR ''.'' # x"
  proof (cases "\<forall>c \<in> set h. ?D c")
    case True
    then have "dropWhile ?D (h @ r) = r" using r by (simp add: dropWhile_append2)
    with assms(2) show ?thesis by simp
  next
    case False
    then have ne: "dropWhile ?D h \<noteq> []" by auto
    then have "hd (dropWhile ?D h) \<in> set h" by (metis hd_in_set set_dropWhileD)
    with assms(3) have "hd (dropWhile ?D h) \<noteq> CHR ''.''" by auto
    moreover have "dropWhile ?D (h @ r) = dropWhile ?D h @ r"
      using False by (auto simp: dropWhile_append1)
    ultimately show ?thesis using ne by (cases "dropWhile ?D h") auto
  qed
qed

lemma read_group_groups_end: "groups_end r \<Longrightarrow> read_group r = None"
  by (auto simp: groups_end_def address_end_def read_number_def)

lemma read_ipv4_groups_end: "groups_end r \<Longrightarrow> read_ipv4_addr r = None"
  by (rule read_ipv4_None) (auto simp: groups_end_def address_end_def)

lemma read_sep_groups_end:
  assumes "groups_end r"
  shows "read_separator (CHR '':'') i read_ipv4_addr r = None"
    "read_separator (CHR '':'') i read_group r = None"
proof -
  have colon: "read_ipv4_addr (CHR '':'' # x) = None" "read_group (CHR '':'' # x) = None" for x
    by (rule read_ipv4_None) (simp_all add: read_number_def)
  show "read_separator (CHR '':'') i read_ipv4_addr r = None"
    "read_separator (CHR '':'') i read_group r = None"
    using assms read_group_groups_end [OF assms] read_ipv4_groups_end [OF assms]
    by (auto simp: read_separator_def groups_end_def address_end_def colon)
qed

lemma read_groups_end: "groups_end r \<Longrightarrow> read_groups n i r = ([], False, r)"
  by (cases n) (simp_all add: read_sep_groups_end)

lemma read_groups_tail:
  assumes "groups_end r"
  shows "length gs \<le> n \<Longrightarrow> \<forall>g \<in> set gs. g < 65536 \<Longrightarrow>
    read_groups n (Suc i) (tail_text gs @ r) = (gs, False, r)"
proof (induction gs arbitrary: n i)
  case Nil
  then show ?case using assms by (simp add: read_groups_end tail_text_def)
next
  case (Cons g gs)
  then obtain m where n: "n = Suc m" "length gs \<le> m" by (cases n) auto
  let ?t = "tail_text gs @ r"
  have "read_ipv4_addr (show_hex g @ ?t) = None"
    using assms by (intro read_ipv4_of_hex tail_text_stops tail_text_no_dot show_hex_digits)
  moreover have "read_group (show_hex g @ ?t) = Some (g, ?t)"
    using Cons.prems assms by (intro read_group_show tail_text_stops) auto
  ultimately show ?case
    using Cons.IH [OF n(2)] Cons.prems n(2) by (cases m) (simp_all add: n(1) tail_text_Cons read_separator_def)
qed

lemma read_groups_show:
  assumes "groups_end r" "length gs \<le> n" "\<forall>g \<in> set gs. g < 65536"
  shows "read_groups n 0 (show_groups gs @ r) = (gs, False, r)"
proof (cases gs)
  case Nil
  then show ?thesis using assms by (simp add: read_groups_end)
next
  case (Cons g hs)
  then obtain m where n: "n = Suc m" "length hs \<le> m" using assms(2) by (cases n) auto
  let ?t = "tail_text hs @ r"
  have "read_ipv4_addr (show_hex g @ ?t) = None"
    using assms by (intro read_ipv4_of_hex tail_text_stops tail_text_no_dot show_hex_digits)
  moreover have "read_group (show_hex g @ ?t) = Some (g, ?t)"
    using Cons assms by (intro read_group_show tail_text_stops) auto
  ultimately show ?thesis
    using read_groups_tail [OF assms(1) n(2), of 0] assms(3) Cons n(2)
    by (cases m) (simp_all add: n(1) show_groups_Cons read_separator_def)
qed

text \<open>The span of zeros that the text leaves out.\<close>

definition zero_run :: "nat list \<Rightarrow> nat \<times> nat \<Rightarrow> bool" where
  "zero_run full sp \<longleftrightarrow> fst sp + snd sp \<le> length full \<and>
     (\<forall>k. fst sp \<le> k \<and> k < fst sp + snd sp \<longrightarrow> full ! k = 0)"

lemma zero_span_run:
  "ss = drop i full \<Longrightarrow> i \<le> length full \<Longrightarrow> zero_run full longest \<Longrightarrow>
   snd cur = 0 \<or> (fst cur + snd cur = i \<and> zero_run full cur) \<Longrightarrow>
   zero_run full (zero_span i ss cur longest)"
proof (induction i ss cur longest rule: zero_span.induct)
  case (1 i cur longest)
  then show ?case by simp
next
  case (2 i s ss cur longest)
  have i: "i < length full" using 2(3) by (cases "i < length full") simp_all
  have "s # ss = full ! i # drop (Suc i) full" using 2(3) Cons_nth_drop_Suc [OF i] by (simp only:)
  then have nth: "full ! i = s" and ss: "ss = drop (Suc i) full" by (simp_all only: list.inject)
  show ?case
  proof (cases "s = 0")
    case True
    define c where "c = (if snd cur = 0 then i else fst cur, Suc (snd cur))"
    define lg where "lg = (if snd longest < snd c then c else longest)"
    have c: "zero_run full c \<and> fst c + snd c = Suc i"
    proof (cases "snd cur = 0")
      case True
      have "full ! k = 0" if "i \<le> k" "k < Suc i" for k
        using that nth \<open>s = 0\<close> by (cases "k = i") simp_all
      then show ?thesis using True i by (simp add: zero_run_def c_def)
    next
      case False
      then have cur: "fst cur + snd cur = i" "\<And>k. fst cur \<le> k \<Longrightarrow> k < i \<Longrightarrow> full ! k = 0"
        using 2(6) by (auto simp: zero_run_def)
      have "full ! k = 0" if "fst cur \<le> k" "k < Suc i" for k
        using that nth \<open>s = 0\<close> cur(2) [of k] by (cases "k = i") simp_all
      then show ?thesis using False i cur(1) by (simp add: zero_run_def c_def)
    qed
    then have "zero_run full lg" using 2(5) by (simp add: lg_def)
    then have "zero_run full (zero_span (Suc i) ss c lg)"
      using 2(1) [OF True refl ss] c i by (simp only: c_def lg_def) simp
    then show ?thesis by (simp only: zero_span.simps True if_True Let_def c_def lg_def simp_thms)
  next
    case False
    with 2(2) [OF False ss] 2(5) i show ?thesis by simp
  qed
qed

lemma zero_run_split:
  assumes "zero_run full (a, l)"
  shows "take a full @ replicate l 0 @ drop (a + l) full = full"
proof -
  have "take l (drop a full) = replicate l 0"
    using assms by (intro nth_equalityI) (auto simp: zero_run_def)
  then show ?thesis by (metis append_take_drop_id drop_drop add.commute)
qed

lemma to_ipv4_mapped_Some:
  "to_ipv4_mapped ss = Some os \<Longrightarrow> \<exists>s t. ss = [0, 0, 0, 0, 0, 65535, s, t] \<and>
     os = [high_octet s, low_octet s, high_octet t, low_octet t]"
  by (cases ss rule: to_ipv4_mapped.cases) (auto split: if_splits)

lemma to_ipv4_mapped_wf:
  "ip_wf (V6 ss) \<Longrightarrow> to_ipv4_mapped ss = Some os \<Longrightarrow> ip_wf (V4 os)"
  by (auto dest!: to_ipv4_mapped_Some simp: high_octet_def low_octet_def)

lemma to_canonical_wf: "ip_wf ip \<Longrightarrow> ip_wf (to_canonical ip)"
  using to_ipv4_mapped_wf by (cases ip) (fastforce split: option.split)+

lemma octets_join [simp]: "256 * high_octet s + low_octet s = s"
  by (simp add: high_octet_def low_octet_def)

lemma show_hex_65535: "show_hex 65535 = ''ffff''"
  by (simp add: show_hex.simps hex_char_def char_of_def)

lemma read_ipv6_mapped:
  assumes "s < 65536" "t < 65536" and os: "os = [high_octet s, low_octet s, high_octet t, low_octet t]"
    and r: "address_end r"
  shows "read_ipv6_addr (''::ffff:'' @ show_ipv4 os @ r) = Some ([0, 0, 0, 0, 0, 65535, s, t], r)"
proof -
  let ?v = "CHR '':'' # show_ipv4 os @ r"
  have octets: "length os = 4" "\<forall>b \<in> set os. b < 256"
    using to_ipv4_mapped_wf [of "[0, 0, 0, 0, 0, 65535, s, t]" os] assms by simp_all
  have e: "''::ffff:'' @ show_ipv4 os @ r = ''::'' @ show_hex 65535 @ ?v"
    by (simp add: show_hex_65535)
  have end0: "groups_end (''::'' @ show_hex 65535 @ ?v)" by (simp add: groups_end_def address_end_def)
  have "read_ipv4_addr (show_hex 65535 @ ?v) = None"
    by (rule read_ipv4_of_hex) (simp_all add: show_hex_digits)
  moreover have "read_group (show_hex 65535 @ ?v) = Some (65535, ?v)"
    by (rule read_group_show) simp_all
  moreover have "read_ipv4_addr (show_ipv4 os @ r) = Some (os, r)"
    using octets r by (intro read_ipv4_show) (auto simp: address_end_def)
  moreover have "read_groups (Suc (Suc 4)) 1 ?v = ([s, t], True, r)"
    using os calculation(3) by (subst read_groups.simps) (simp add: read_separator_def)
  ultimately have "read_groups (Suc (Suc (Suc 4))) 0 (show_hex 65535 @ ?v) = ([65535, s, t], True, r)"
    by (subst read_groups.simps) (simp add: read_separator_def)
  then have "read_groups 7 0 (show_hex 65535 @ ?v) = ([65535, s, t], True, r)" by simp
  moreover have "replicate 5 (0 :: nat) = [0, 0, 0, 0, 0]" by (simp add: numeral_eq_Suc)
  ultimately show ?thesis
    unfolding e read_ipv6_addr_def using read_groups_end [OF end0, of 8 0] by simp
qed

lemma read_ipv6_show:
  assumes "length ss = 8" "\<forall>g \<in> set ss. g < 65536"
    and r: "address_end r"
  shows "read_ipv6_addr (show_ipv6 ss @ r) = Some (ss, r)"
proof (cases "to_ipv4_mapped ss")
  case (Some os)
  from to_ipv4_mapped_Some [OF this] obtain s t where
    ss: "ss = [0, 0, 0, 0, 0, 65535, s, t]" "os = [high_octet s, low_octet s, high_octet t, low_octet t]"
    by blast
  with assms read_ipv6_mapped [of s t os r] Some show ?thesis by (simp add: show_ipv6_def)
next
  case None
  obtain a l where sp: "zero_span 0 ss (0, 0) (0, 0) = (a, l)" by (cases "zero_span 0 ss (0, 0) (0, 0)")
  have run: "zero_run ss (a, l)"
    using zero_span_run [of ss 0 ss "(0, 0)" "(0, 0)"] by (simp add: sp zero_run_def)
  show ?thesis
  proof (cases "1 < l")
    case True
    have len: "length (take a ss) = a" "length (drop (a + l) ss) = 8 - (a + l)" "a + l \<le> 8"
      using run assms(1) by (auto simp: zero_run_def)
    have "read_groups 8 0 (show_groups (take a ss) @ ''::'' @ show_groups (drop (a + l) ss) @ r)
        = (take a ss, False, ''::'' @ show_groups (drop (a + l) ss) @ r)"
      using assms by (intro read_groups_show) (auto simp: groups_end_def address_end_def dest: in_set_takeD)
    moreover have "read_groups (8 - (a + 1)) 0 (show_groups (drop (a + l) ss) @ r)
        = (drop (a + l) ss, False, r)"
      using assms len True r by (intro read_groups_show) (auto simp: groups_end_def dest: in_set_dropD)
    ultimately show ?thesis
      using True len zero_run_split [OF run]
      by (simp add: show_ipv6_def None sp read_ipv6_addr_def)
  next
    case False
    have "read_groups 8 0 (show_groups ss @ r) = (ss, False, r)"
      using assms r by (intro read_groups_show) (auto simp: groups_end_def)
    with False assms show ?thesis by (simp add: show_ipv6_def None sp read_ipv6_addr_def)
  qed
qed

lemma show_ipv6_not_ipv4:
  assumes "length ss = 8"
  shows "read_ipv4_addr (show_ipv6 ss) = None"
proof -
  have groups: "read_ipv4_addr (show_groups gs @ r) = None"
    if "groups_end r" for gs r
    using that by (cases gs)
      (auto simp: show_groups_Cons read_ipv4_groups_end
        intro!: read_ipv4_of_hex tail_text_stops tail_text_no_dot show_hex_digits)
  have "groups_end (''::'' @ x)" for x by (simp add: groups_end_def address_end_def)
  from groups [OF this] groups [of "[]"] read_ipv4_groups_end [of "''::ffff:'' @ x" for x]
  show ?thesis
    by (auto simp: show_ipv6_def groups_end_def address_end_def split: option.split prod.split)
qed

lemma parse_ip_show: "ip_wf ip \<Longrightarrow> parse_ip (show_ip ip) = Some ip"
  using read_ipv4_show [of _ "[]"] read_ipv6_show [of _ "[]"]
  by (cases ip) (simp_all add: parse_ip_def parse_with_def read_ip_addr_def show_ipv6_not_ipv4 address_end_def)

subsection \<open>What the readers return is well formed\<close>

lemma read_number_bound: "read_number radix md z bound s = Some (v, r) \<Longrightarrow> v \<le> bound"
  by (auto simp: read_number_def Let_def split: if_splits option.splits)

lemma read_separator_bound:
  "read_separator c i (read_number radix md z bound) s = Some (v, r) \<Longrightarrow> v \<le> bound"
  by (auto simp: read_separator_def dest: read_number_bound split: if_splits option.splits)

lemma read_ipv4_wf:
  "read_ipv4_addr s = Some (os, r) \<Longrightarrow> length os = 4 \<and> (\<forall>b \<in> set os. b < 256)"
  by (auto simp: read_ipv4_addr_def split: Option.bind_splits
      dest!: read_separator_bound)

lemma read_separator_ipv4_wf:
  "read_separator c i read_ipv4_addr s = Some (os, r) \<Longrightarrow> length os = 4 \<and> (\<forall>b \<in> set os. b < 256)"
  by (auto simp: read_separator_def dest: read_ipv4_wf split: if_splits option.splits)

lemma read_groups_wf:
  "read_groups n i s = (gs, v4, r) \<Longrightarrow> length gs \<le> n \<and> (\<forall>g \<in> set gs. g < 65536)"
proof (induction n i s arbitrary: gs v4 r rule: read_groups.induct)
  case (1 i s)
  then show ?case by simp
next
  case (2 n i s)
  show ?case
  proof (cases "if 0 < n then read_separator (CHR '':'') i read_ipv4_addr s else None")
    case None
    show ?thesis
    proof (cases "read_separator (CHR '':'') i read_group s")
      case group: (Some gr)
      obtain g x where gr: "gr = (g, x)" by (cases gr)
      obtain hs b y where hs: "read_groups n (Suc i) x = (hs, b, y)" by (cases "read_groups n (Suc i) x")
      have "g \<le> 65535" using group gr read_separator_bound by blast
      with 2(1) [OF None group gr [symmetric] hs] 2(2) None group gr hs show ?thesis by auto
    qed (use 2(2) None in simp)
  next
    case (Some osr)
    then obtain os x where os: "osr = (os, x)" "0 < n"
      "read_separator (CHR '':'') i read_ipv4_addr s = Some (os, x)"
      by (cases osr) (auto split: if_splits)
    from read_separator_ipv4_wf [OF os(3)] obtain a b c d where "os = [a, b, c, d]"
      "a < 256" "b < 256" "c < 256" "d < 256"
      by (auto simp: numeral_eq_Suc length_Suc_conv)
    with 2(2) os Some show ?thesis by auto
  qed
qed

lemma read_ipv6_wf:
  assumes "read_ipv6_addr s = Some (ss, r)"
  shows "length ss = 8 \<and> (\<forall>g \<in> set ss. g < 65536)"
proof -
  obtain hs b x where h: "read_groups 8 0 s = (hs, b, x)" by (cases "read_groups 8 0 s")
  have t: "length gs \<le> 7 - length hs \<and> (\<forall>g \<in> set gs. g < 65536)"
    if "read_groups (7 - length hs) 0 y = (gs, v, z)" for y gs v z
    using read_groups_wf [OF that] .
  show ?thesis
    using assms read_groups_wf [OF h] t
    by (fastforce simp: read_ipv6_addr_def h split: if_splits Option.bind_splits prod.splits)
qed

lemma parse_ip_wf: "parse_ip s = Some ip \<Longrightarrow> ip_wf ip"
  by (auto simp: parse_ip_def parse_with_def read_ip_addr_def dest: read_ipv4_wf read_ipv6_wf
      split: option.splits list.splits prod.splits)

lemma parse_ipv6_wf: "parse_ipv6 s = Some ss \<Longrightarrow> ip_wf (V6 ss)"
  by (auto simp: parse_ipv6_def parse_with_def dest: read_ipv6_wf split: option.splits list.splits)

lemma parse_socket_wf: "parse_socket s = Some a \<Longrightarrow> ip_wf (sock_ip a)"
  by (auto simp: parse_socket_def parse_with_def read_socket_addr_v4_def read_socket_addr_v6_def
      dest: read_ipv4_wf read_ipv6_wf split: option.splits list.splits Option.bind_splits prod.splits)

subsection \<open>The shape of an address's text\<close>

lemma set_join_with: "set (join_with sep xs) \<subseteq> set sep \<union> (\<Union>x \<in> set xs. set x)"
  by (induction sep xs rule: join_with.induct) auto

lemma length_join_with:
  "\<forall>x \<in> set xs. length x \<le> k \<Longrightarrow> length (join_with [c] xs) \<le> Suc k * length xs"
  by (induction "[c]" xs rule: join_with.induct) auto

lemma length_show_ipv4:
  assumes "length os = 4" "\<forall>b \<in> set os. b < 256"
  shows "length (show_ipv4 os) \<le> 16"
proof -
  have "\<forall>x \<in> set (map show_nat os). length x \<le> 3"
    using assms(2) length_show_nat [of _ 2] by fastforce
  from length_join_with [OF this, of "CHR ''.''"] show ?thesis using assms(1) by (simp add: show_ipv4_def)
qed

lemma length_show_groups:
  assumes "\<forall>g \<in> set gs. g < 65536"
  shows "length (show_groups gs) \<le> 5 * length gs"
proof -
  have "\<forall>x \<in> set (map show_hex gs). length x \<le> 4"
    using assms length_show_hex [of _ 3] by fastforce
  from length_join_with [OF this, of "CHR '':''"] show ?thesis by (simp add: show_groups_def)
qed

lemma length_show_ip: "ip_wf ip \<Longrightarrow> length (show_ip ip) \<le> 45"
proof (cases ip)
  case (V4 os)
  moreover assume "ip_wf ip"
  ultimately show ?thesis using length_show_ipv4 [of os] by simp
next
  case (V6 ss)
  moreover assume wf: "ip_wf ip"
  ultimately have ss: "length ss = 8" "\<forall>g \<in> set ss. g < 65536" by simp_all
  have take: "length (show_groups (take a ss)) \<le> 5 * a" if "a \<le> 8" for a
    using length_show_groups [of "take a ss"] ss that in_set_takeD [of _ a ss] by fastforce
  have drop: "length (show_groups (drop a ss)) \<le> 5 * (8 - a)" for a
    using length_show_groups [of "drop a ss"] ss in_set_dropD [of _ a ss] by fastforce
  have "length (show_groups (take a ss)) + length (show_groups (drop (a + l) ss)) \<le> 40"
    if "zero_span 0 ss (0, 0) (0, 0) = (a, l)" for a l
  proof -
    have "a + l \<le> 8"
      using zero_span_run [of ss 0 ss "(0, 0)" "(0, 0)"] that ss(1) by (simp add: zero_run_def)
    then show ?thesis using take [of a] drop [of "a + l"] by linarith
  qed
  moreover have "length (show_ipv4 os) \<le> 16" if "to_ipv4_mapped ss = Some os" for os
    using to_ipv4_mapped_wf [OF _ that] wf V6 length_show_ipv4 [of os] by simp
  ultimately show ?thesis
    using V6 ss length_show_groups [of ss]
    by (fastforce simp: show_ipv6_def split: option.splits prod.splits)
qed

definition address_chars :: "char set" where
  "address_chars = {c. c = CHR ''.'' \<or> c = CHR '':'' \<or> to_digit 16 c \<noteq> None}"

lemma show_ipv4_chars: "set (show_ipv4 os) \<subseteq> address_chars"
proof
  fix c assume "c \<in> set (show_ipv4 os)"
  then consider "c = CHR ''.''" | b where "c \<in> set (show_nat b)"
    using set_join_with [of "''.''" "map show_nat os"] by (auto simp: show_ipv4_def)
  then show "c \<in> address_chars"
  proof cases
    case 2
    then have "to_digit 16 c \<noteq> None" using show_nat_all_digits [of b] to_digit_mono [of c] by blast
    then show ?thesis by (simp add: address_chars_def)
  qed (simp add: address_chars_def)
qed

lemma show_groups_chars: "set (show_groups ss) \<subseteq> address_chars"
proof
  fix c assume "c \<in> set (show_groups ss)"
  then consider "c = CHR '':''" | g where "c \<in> set (show_hex g)"
    using set_join_with [of "'':''" "map show_hex ss"] by (auto simp: show_groups_def)
  then show "c \<in> address_chars"
    using show_hex_digits by cases (auto simp: address_chars_def)
qed

lemma address_chars_mem:
  "CHR '':'' \<in> address_chars" "CHR ''f'' \<in> address_chars"
  by (simp_all add: address_chars_def to_digit_def hex_val_def)

lemma show_ip_chars: "set (show_ip ip) \<subseteq> address_chars"
  using show_ipv4_chars show_groups_chars address_chars_mem
  by (cases ip) (auto simp: show_ipv6_def split: option.split prod.split)

lemma parse_ip_Nil: "parse_ip [] = None"
proof -
  have "groups_end []" by (simp add: groups_end_def address_end_def)
  from read_groups_end [OF this] read_ipv4_groups_end [OF this] show ?thesis
    by (simp add: parse_ip_def parse_with_def read_ip_addr_def read_ipv6_addr_def)
qed

lemma show_ip_nonempty: "ip_wf ip \<Longrightarrow> show_ip ip \<noteq> []"
  using parse_ip_show [of ip] parse_ip_Nil by auto

end
