(* ===== verification/Client_Address.thy ===== *)
theory Client_Address
  imports Headers Ip_Addr
begin

text \<open>
  \<open>client_address.rs\<close>: which address a request comes from, given the proxies trusted to
  report one, and what the upstream receives of it. The network type of the \<open>ipnet\<close>
  crate, its operations and the check of a header name are parameters.
\<close>

section \<open>Networks and names from other crates\<close>

text \<open>A CIDR range: an address and the length of its prefix.\<close>

datatype ip_net = Net4 "nat list" nat | Net6 "nat list" nat

record ipnet_crate =
  net_parse :: "string \<Rightarrow> ip_net option"
  net_of_ip :: "ip_addr \<Rightarrow> ip_net"
  net_new4 :: "nat list \<Rightarrow> nat \<Rightarrow> ip_net option"
  net_network6 :: "nat list \<Rightarrow> nat \<Rightarrow> nat list"
  net_contains :: "ip_net \<Rightarrow> ip_addr \<Rightarrow> bool"

text \<open>The bits of an address, most significant first.\<close>

fun be_bits :: "nat \<Rightarrow> nat \<Rightarrow> bool list" where
  "be_bits 0 n = []"
| "be_bits (Suc w) n = be_bits w (n div 2) @ [odd n]"

definition octet_bits :: "nat list \<Rightarrow> bool list" where
  "octet_bits os = concat (map (be_bits 8) os)"

definition segment_bits :: "nat list \<Rightarrow> bool list" where
  "segment_bits ss = concat (map (be_bits 16) ss)"

text \<open>
  What the documentation of \<open>ipnet\<close> promises: a range holds the addresses of its own
  family that share its prefix, \<open>network\<close> clears the host bits, and \<open>Ipv4Net::new\<close>
  takes a prefix of at most 32 bits.
\<close>

definition ipnet_laws :: "ipnet_crate \<Rightarrow> bool" where
  "ipnet_laws N \<longleftrightarrow>
     (\<forall>a p b. net_contains N (Net4 a p) (V4 b) \<longleftrightarrow> take p (octet_bits b) = take p (octet_bits a)) \<and>
     (\<forall>a p b. net_contains N (Net6 a p) (V6 b) \<longleftrightarrow> take p (segment_bits b) = take p (segment_bits a)) \<and>
     (\<forall>a p b. \<not> net_contains N (Net4 a p) (V6 b)) \<and>
     (\<forall>a p b. \<not> net_contains N (Net6 a p) (V4 b)) \<and>
     (\<forall>a p. ip_wf (V6 a) \<longrightarrow> p \<le> 128 \<longrightarrow> ip_wf (V6 (net_network6 N a p)) \<and>
        segment_bits (net_network6 N a p) = take p (segment_bits a) @ replicate (128 - p) False) \<and>
     (\<forall>a p. net_new4 N a p = (if p \<le> 32 then Some (Net4 a p) else None))"

section \<open>Configuration and results\<close>

datatype forwarding_header = XForwardedFor | XRealIp | CleanedReport

datatype x_forwarded_for = Verified | Resolved | Append | Preserve | Remove

record forward_config =
  cfg_x_forwarded_for :: x_forwarded_for
  cfg_client_header :: "string option"
  cfg_audit_header :: "string option"

record client_address_config =
  cfg_trusted_proxies :: "string list"
  cfg_header :: forwarding_header
  cfg_required :: bool
  cfg_forward :: forward_config

datatype invalid_forwarding = Malformed | TooManyHops | Repeated | Conflicting

datatype resolution =
    Peer ip_addr
  | Forwarded ip_addr
  | Invalid invalid_forwarding
  | Unavailable

record client_address =
  peer :: "socket_addr option"
  resolution :: resolution
  ca_value :: "string option"

definition X_FORWARDED_FOR :: string where
  "X_FORWARDED_FOR = ''x-forwarded-for''"

definition X_REAL_IP :: string where
  "X_REAL_IP = ''x-real-ip''"

definition FORWARDED :: string where
  "FORWARDED = ''forwarded''"

definition MAX_HOPS :: nat where
  "MAX_HOPS = 32"

definition MAX_ELEMENT :: nat where
  "MAX_ELEMENT = 128"

definition owns :: "string \<Rightarrow> bool" where
  "owns name \<longleftrightarrow> eq_ignore_ascii_case name ''x-forwarded-for''
     \<or> eq_ignore_ascii_case name ''x-real-ip'' \<or> eq_ignore_ascii_case name ''forwarded''"

fun ip_of_resolution :: "resolution \<Rightarrow> ip_addr option" where
  "ip_of_resolution (Peer a) = Some a"
| "ip_of_resolution (Forwarded a) = Some a"
| "ip_of_resolution (Invalid _) = None"
| "ip_of_resolution Unavailable = None"

definition header_value :: "ip_addr \<Rightarrow> string" where
  "header_value a = show_ip a"

definition client_address_new :: "socket_addr option \<Rightarrow> resolution \<Rightarrow> client_address" where
  "client_address_new p res =
     \<lparr>peer = p, resolution = res, ca_value = map_option header_value (ip_of_resolution res)\<rparr>"

definition from_peer :: "socket_addr option \<Rightarrow> client_address" where
  "from_peer p = client_address_new p
     (case p of Some a \<Rightarrow> Peer (to_canonical (sock_ip a)) | None \<Rightarrow> Unavailable)"

definition client_ip :: "client_address \<Rightarrow> ip_addr option" where
  "client_ip c = ip_of_resolution (resolution c)"

section \<open>Reading an address\<close>

text \<open>
  The parsers take ASCII text only, so bytes that are not UTF-8 are refused by them as
  well as by the conversion to text before.
\<close>

definition parse_address :: "string \<Rightarrow> ip_addr option" where
  "parse_address bytes =
     (case parse_ip bytes of
        Some ip \<Rightarrow> Some ip
      | None \<Rightarrow>
          (case parse_socket bytes of
             Some socket \<Rightarrow> Some (sock_ip socket)
           | None \<Rightarrow> do {
               v6 \<leftarrow> strip_prefix ''['' bytes;
               v6 \<leftarrow> strip_suffix '']'' v6;
               map_option V6 (parse_ipv6 v6)
             }))"

definition is_ows :: "char \<Rightarrow> bool" where
  "is_ows b \<longleftrightarrow> b = CHR '' '' \<or> b = CHR 0x09"

fun position :: "('a \<Rightarrow> bool) \<Rightarrow> 'a list \<Rightarrow> nat option" where
  "position P [] = None"
| "position P (x # xs) = (if P x then Some 0 else map_option Suc (position P xs))"

definition rposition :: "('a \<Rightarrow> bool) \<Rightarrow> 'a list \<Rightarrow> nat option" where
  "rposition P xs = map_option (\<lambda>i. length xs - 1 - i) (position P (rev xs))"

definition trim_whitespace :: "string \<Rightarrow> string" where
  "trim_whitespace bytes =
     (let start = (case position (\<lambda>b. \<not> is_ows b) bytes of Some i \<Rightarrow> i | None \<Rightarrow> length bytes);
          stop = (case rposition (\<lambda>b. \<not> is_ows b) bytes of Some i \<Rightarrow> i + 1 | None \<Rightarrow> start)
      in take (stop - start) (drop start bytes))"

definition last_element :: "string \<Rightarrow> invalid_forwarding + string \<times> string option" where
  "last_element bytes =
     (let window = length bytes - (MAX_ELEMENT + 1)
      in case rposition (\<lambda>b. b = CHR '','') (drop window bytes) of
           Some comma \<Rightarrow> Inr (trim_whitespace (drop (window + comma + 1) bytes),
                               Some (take (window + comma) bytes))
         | None \<Rightarrow> if window = 0 then Inr (trim_whitespace bytes, None) else Inl Malformed)"

definition real_ip :: "string list \<Rightarrow> invalid_forwarding + ip_addr option" where
  "real_ip lines =
     (case lines of
        [] \<Rightarrow> Inr None
      | [raw] \<Rightarrow>
          if MAX_ELEMENT < length raw then Inl Malformed
          else (case parse_address (trim_whitespace raw) of
                  Some ip \<Rightarrow> Inr (Some (to_canonical ip))
                | None \<Rightarrow> Inl Malformed)
      | _ \<Rightarrow> Inl Repeated)"

definition cleaned_report :: "header_map \<Rightarrow> invalid_forwarding + ip_addr option" where
  "cleaned_report headers =
     (case real_ip (headers X_REAL_IP) of
        Inl e \<Rightarrow> Inl e
      | Inr reported \<Rightarrow>
          (let agrees = \<not> header_contains headers FORWARDED \<and>
             (case headers X_FORWARDED_FOR of
                _ # _ # _ \<Rightarrow> False
              | [] \<Rightarrow> True
              | [line] \<Rightarrow>
                  (case reported of
                     None \<Rightarrow> False
                   | Some ip \<Rightarrow> real_ip [line] = Inr (Some ip)))
           in if agrees then Inr reported else Inl Conflicting))"

lemma position_Some:
  "position P xs = Some i \<Longrightarrow> i < length xs \<and> P (xs ! i) \<and> (\<forall>x \<in> set (take i xs). \<not> P x)"
  by (induction xs arbitrary: i) (auto split: if_splits)

lemma position_None: "position P xs = None \<longleftrightarrow> (\<forall>x \<in> set xs. \<not> P x)"
  by (induction xs) auto

lemma position_Some_append: "P x \<Longrightarrow> \<forall>y \<in> set ys. \<not> P y \<Longrightarrow> position P (ys @ x # zs) = Some (length ys)"
  by (induction ys) auto

lemma rposition_Some:
  assumes "rposition P xs = Some i"
  shows "i < length xs"
  using assms by (auto simp: rposition_def dest: position_Some)

lemma rposition_None: "rposition P xs = None \<longleftrightarrow> (\<forall>x \<in> set xs. \<not> P x)"
  by (simp add: rposition_def position_None)

lemma rposition_append:
  "P x \<Longrightarrow> \<forall>z \<in> set zs. \<not> P z \<Longrightarrow> rposition P (ys @ x # zs) = Some (length ys)"
  using position_Some_append [of P x "rev zs" "rev ys"] by (simp add: rposition_def)

lemma last_element_before:
  "last_element s = Inr (e, Some b) \<Longrightarrow> length b < length s"
  by (auto simp: last_element_def Let_def dest!: rposition_Some split: option.splits if_splits)

section \<open>The walk\<close>

text \<open>Elements read, the leftmost trusted hop so far, and the hops noted.\<close>

type_synonym walk_state = "nat \<times> ip_addr option \<times> ip_addr list"

type_synonym walk_result = "(invalid_forwarding + ip_addr option) \<times> ip_addr list"

text \<open>
  The inner loop over one field line: \<open>Inl\<close> is a return from \<open>walk\<close> with the hops
  noted by then, \<open>Inr\<close> the state at the end of the line.
\<close>

function walk_line ::
  "(ip_addr \<Rightarrow> bool) \<Rightarrow> bool \<Rightarrow> string \<Rightarrow> walk_state \<Rightarrow> walk_result + walk_state" where
  "walk_line trusts noting rest (read, leftmost, hops) =
     (let read = read + 1
      in if MAX_HOPS < read then Inl (Inl TooManyHops, hops)
         else case last_element rest of
                Inl e \<Rightarrow> Inl (Inl e, hops)
              | Inr (element, before) \<Rightarrow>
                  if element = [] then
                    (case before of
                       Some b \<Rightarrow> walk_line trusts noting b (read, leftmost, hops)
                     | None \<Rightarrow> Inr (read, leftmost, hops))
                  else
                    (case parse_address element of
                       None \<Rightarrow> Inl (Inl Malformed, hops)
                     | Some a \<Rightarrow>
                         (let ip = to_canonical a;
                              hops' = (if noting then hops @ [ip] else hops)
                          in if \<not> trusts ip then Inl (Inr (Some ip), hops)
                             else (case before of
                                     Some b \<Rightarrow> walk_line trusts noting b (read, Some ip, hops')
                                   | None \<Rightarrow> Inr (read, Some ip, hops')))))"
  by pat_completeness auto
termination
  by (relation "measure (\<lambda>(_, _, rest, _). length rest)") (auto dest: last_element_before)

declare walk_line.simps [simp del]

text \<open>The outer loop, over the field lines from the last one.\<close>

fun walk_lines ::
  "(ip_addr \<Rightarrow> bool) \<Rightarrow> bool \<Rightarrow> string list \<Rightarrow> walk_state \<Rightarrow> walk_result + walk_state" where
  "walk_lines trusts noting [] st = Inr st"
| "walk_lines trusts noting (line # lines) st =
     (case walk_line trusts noting line st of
        Inl res \<Rightarrow> Inl res
      | Inr st' \<Rightarrow> walk_lines trusts noting lines st')"

definition walk :: "(ip_addr \<Rightarrow> bool) \<Rightarrow> bool \<Rightarrow> string list \<Rightarrow> walk_result" where
  "walk trusts noting lines =
     (case walk_lines trusts noting (rev lines) (0, None, []) of
        Inl res \<Rightarrow> res
      | Inr (read, leftmost, hops) \<Rightarrow>
          (Inr leftmost, if leftmost \<noteq> None then butlast hops else hops))"

section \<open>The resolver\<close>

record resolver =
  trusted :: "ip_net list"
  fwd_header :: forwarding_header
  required :: bool
  forward :: x_forwarded_for
  client_header :: "string option"
  audit_header :: "string option"

definition trusts :: "ipnet_crate \<Rightarrow> resolver \<Rightarrow> ip_addr \<Rightarrow> bool" where
  "trusts N r ip \<longleftrightarrow> list_ex (\<lambda>net. net_contains N net ip) (trusted r)"

definition resolve_noting ::
  "ipnet_crate \<Rightarrow> resolver \<Rightarrow> socket_addr option \<Rightarrow> header_map \<Rightarrow> bool \<Rightarrow> client_address \<times> ip_addr list" where
  "resolve_noting N r p headers noting =
     (case p of
        None \<Rightarrow> (client_address_new None Unavailable, [])
      | Some pr \<Rightarrow>
          (let peer_ip = to_canonical (sock_ip pr)
           in if \<not> trusts N r peer_ip then (client_address_new (Some pr) (Peer peer_ip), [])
              else
                (let (forwarded, hops) =
                   (case fwd_header r of
                      XForwardedFor \<Rightarrow> walk (trusts N r) noting (headers X_FORWARDED_FOR)
                    | XRealIp \<Rightarrow> (real_ip (headers X_REAL_IP), [])
                    | CleanedReport \<Rightarrow> (cleaned_report headers, []));
                   res =
                   (case forwarded of
                      Inr (Some ip) \<Rightarrow> Forwarded ip
                    | Inr None \<Rightarrow> if required r then Unavailable else Peer peer_ip
                    | Inl e \<Rightarrow> Invalid e)
                 in (client_address_new (Some pr) res, hops))))"

definition verified_chain :: "client_address \<Rightarrow> ip_addr list \<Rightarrow> string option" where
  "verified_chain client hops =
     (case ca_value client of
        None \<Rightarrow> None
      | Some value \<Rightarrow>
          (case resolution client of
             Forwarded ip \<Rightarrow>
               (case peer client of
                  None \<Rightarrow> None
                | Some pr \<Rightarrow>
                    Some (fold (\<lambda>hop chain. chain @ '', '' @ show_ip hop)
                       (rev hops @ [to_canonical (sock_ip pr)]) (show_ip ip)))
           | _ \<Rightarrow> Some value))"

definition appended_chain :: "header_map \<Rightarrow> socket_addr option \<Rightarrow> string option" where
  "appended_chain headers p =
     (case p of
        None \<Rightarrow>
          (case headers X_FORWARDED_FOR of
             [] \<Rightarrow> None
           | first # lines \<Rightarrow> Some (fold (\<lambda>line joined. joined @ '', '' @ line) lines first))
      | Some pr \<Rightarrow>
          Some (fold (\<lambda>line chain. chain @ line @ '', '') (headers X_FORWARDED_FOR) []
                @ show_ip (to_canonical (sock_ip pr))))"

text \<open>The request's headers after \<open>apply\<close>, and the address put on the request.\<close>

definition audited :: "resolver \<Rightarrow> header_map \<Rightarrow> header_map" where
  "audited r headers =
     (case audit_header r of
        None \<Rightarrow> headers
      | Some audit \<Rightarrow>
          fold (\<lambda>line h. header_append h audit line) (headers X_FORWARDED_FOR)
            (header_remove headers audit))"

definition apply_forwarding ::
  "ipnet_crate \<Rightarrow> resolver \<Rightarrow> socket_addr option \<Rightarrow> header_map \<Rightarrow> client_address \<times> header_map" where
  "apply_forwarding N r p arrived =
     (let (client, hops) = resolve_noting N r p arrived (forward r = Verified);
          headers = audited r arrived;
          xff = (case forward r of
                   Verified \<Rightarrow> verified_chain client hops
                 | Resolved \<Rightarrow> ca_value client
                 | Append \<Rightarrow> appended_chain headers (peer client)
                 | Preserve \<Rightarrow> None
                 | Remove \<Rightarrow> None);
          headers =
            (if forward r \<noteq> Preserve then
               (let h = header_remove (header_remove (header_remove headers X_FORWARDED_FOR) X_REAL_IP)
                          FORWARDED
                in case xff of Some v \<Rightarrow> header_insert h X_FORWARDED_FOR v | None \<Rightarrow> h)
             else headers);
          headers =
            (case client_header r of
               None \<Rightarrow> headers
             | Some name \<Rightarrow>
                 (let h = header_remove headers name
                  in case ca_value client of Some v \<Rightarrow> header_insert h name v | None \<Rightarrow> h))
      in (client, headers))"

section \<open>Building the resolver\<close>

datatype config_error =
    NeitherRangeNorAddress string
  | NotAMetadataKey string string
  | BinaryMetadataKey string string
  | HeaderTaken string string

text \<open>The \<open>expect\<close> of \<open>canonical_net\<close> is \<open>None\<close>.\<close>

fun canonical_net :: "ipnet_crate \<Rightarrow> ip_net \<Rightarrow> ip_net option" where
  "canonical_net N (Net4 a p) = Some (Net4 a p)"
| "canonical_net N (Net6 a p) =
     (case (to_ipv4_mapped (net_network6 N a p), if 96 \<le> p then Some (p - 96) else None) of
        (Some v4, Some prefix) \<Rightarrow> net_new4 N v4 prefix
      | _ \<Rightarrow> Some (Net6 a p))"

definition parse_trusted :: "ipnet_crate \<Rightarrow> string \<Rightarrow> (config_error + ip_net) option" where
  "parse_trusted N entry =
     (case net_parse N entry of
        Some net \<Rightarrow> map_option Inr (canonical_net N net)
      | None \<Rightarrow>
          (case parse_ip entry of
             Some ip \<Rightarrow> map_option Inr (canonical_net N (net_of_ip N ip))
           | None \<Rightarrow> Some (Inl (NeitherRangeNorAddress entry))))"

text \<open>\<open>header_name\<close> is \<open>HeaderName::from_bytes\<close>: the name in lower case, if it is one.\<close>

definition forward_header ::
  "(string \<Rightarrow> string option) \<Rightarrow> string \<Rightarrow> string \<Rightarrow> string list \<Rightarrow> config_error + string" where
  "forward_header header_name setting name taken =
     (case Option.bind (header_name name) (\<lambda>h. if is_grpc_key h then Some h else None) of
        None \<Rightarrow> Inl (NotAMetadataKey setting name)
      | Some header \<Rightarrow>
          if ends_with ''-bin'' header then Inl (BinaryMetadataKey setting name)
          else if header \<in> set taken then Inl (HeaderTaken setting name)
          else Inr header)"

fun parse_all_trusted :: "ipnet_crate \<Rightarrow> string list \<Rightarrow> (config_error + ip_net list) option" where
  "parse_all_trusted N [] = Some (Inr [])"
| "parse_all_trusted N (e # es) =
     (case parse_trusted N e of
        None \<Rightarrow> None
      | Some (Inl err) \<Rightarrow> Some (Inl err)
      | Some (Inr net) \<Rightarrow>
          (case parse_all_trusted N es of
             None \<Rightarrow> None
           | Some (Inl err) \<Rightarrow> Some (Inl err)
           | Some (Inr nets) \<Rightarrow> Some (Inr (net # nets))))"

text \<open>An optional header: \<open>map(..).transpose()?\<close>.\<close>

definition optional_header ::
  "(string \<Rightarrow> config_error + string) \<Rightarrow> string option \<Rightarrow> config_error + string option" where
  "optional_header check name =
     (case name of
        None \<Rightarrow> Inr None
      | Some n \<Rightarrow> (case check n of Inl e \<Rightarrow> Inl e | Inr h \<Rightarrow> Inr (Some h)))"

definition resolver_build ::
  "ipnet_crate \<Rightarrow> (string \<Rightarrow> string option) \<Rightarrow> client_address_config \<Rightarrow>
   (config_error + resolver) option" where
  "resolver_build N header_name config =
     (case parse_all_trusted N (cfg_trusted_proxies config) of
        None \<Rightarrow> None
      | Some (Inl e) \<Rightarrow> Some (Inl e)
      | Some (Inr nets) \<Rightarrow>
          (case optional_header
                  (\<lambda>n. forward_header header_name ''client_header'' n [''x-forwarded-for'', ''forwarded''])
                  (cfg_client_header (cfg_forward config)) of
             Inl e \<Rightarrow> Some (Inl e)
           | Inr client \<Rightarrow>
               (case optional_header
                       (\<lambda>n. forward_header header_name ''audit_header'' n
                          ([''x-forwarded-for'', ''x-real-ip'', ''forwarded''] @
                           (case client of Some c \<Rightarrow> [c] | None \<Rightarrow> [])))
                       (cfg_audit_header (cfg_forward config)) of
                  Inl e \<Rightarrow> Some (Inl e)
                | Inr audit \<Rightarrow>
                    Some (Inr \<lparr>trusted = nets, fwd_header = cfg_header config,
                      required = cfg_required config,
                      forward = cfg_x_forwarded_for (cfg_forward config),
                      client_header = client, audit_header = audit\<rparr>))))"

definition configured_headers :: "resolver \<Rightarrow> string list" where
  "configured_headers r =
     (case client_header r of Some n \<Rightarrow> [n] | None \<Rightarrow> []) @
     (case audit_header r of Some n \<Rightarrow> [n] | None \<Rightarrow> [])"

definition forwarded_headers :: "resolver \<Rightarrow> string list" where
  "forwarded_headers r = [''x-forwarded-for'', ''x-real-ip'', ''forwarded''] @ configured_headers r"

definition reserves :: "resolver \<Rightarrow> string \<Rightarrow> bool" where
  "reserves r name \<longleftrightarrow> owns name \<or> list_ex (\<lambda>own. eq_ignore_ascii_case name own) (configured_headers r)"

text \<open>
  The peer of a request, as \<open>ClientAddressService::call\<close> finds it: the one axum
  recorded, or the one a tonic server recorded.
\<close>

definition service_call ::
  "ipnet_crate \<Rightarrow> resolver \<Rightarrow> socket_addr option \<Rightarrow> socket_addr option option \<Rightarrow>
   socket_addr option option \<Rightarrow> header_map \<Rightarrow> client_address \<times> header_map" where
  "service_call N r connect_info tcp_info tls_info headers =
     (let p = (case connect_info of
                 Some a \<Rightarrow> Some a
               | None \<Rightarrow> Option.bind (case tcp_info of Some i \<Rightarrow> Some i | None \<Rightarrow> tls_info) id)
      in apply_forwarding N r p headers)"

section \<open>The walk as a list of elements\<close>

lemma take_drop_middle: "take (length m) (drop (length a) (a @ m @ b)) = m"
  by simp

lemma trim_whitespace_blank: "\<forall>c \<in> set s. is_ows c \<Longrightarrow> trim_whitespace s = []"
proof -
  assume "\<forall>c \<in> set s. is_ows c"
  then have "position (\<lambda>b. \<not> is_ows b) s = None" "rposition (\<lambda>b. \<not> is_ows b) s = None"
    by (auto simp: position_None rposition_None)
  then show ?thesis by (simp add: trim_whitespace_def)
qed

lemma trim_whitespace_pad:
  assumes "\<forall>c \<in> set a. is_ows c" "\<forall>c \<in> set b. is_ows c" "m \<noteq> []"
    and "\<not> is_ows (hd m)" "\<not> is_ows (last m)"
  shows "trim_whitespace (a @ m @ b) = m"
proof -
  have "position (\<lambda>b. \<not> is_ows b) (a @ m @ b) = Some (length a)"
    using position_Some_append [of "\<lambda>b. \<not> is_ows b" "hd m" a "tl m @ b"] assms(1,3,4)
    by (cases m) auto
  moreover have "rposition (\<lambda>b. \<not> is_ows b) (a @ m @ b) = Some (length (a @ butlast m))"
    using rposition_append [of "\<lambda>b. \<not> is_ows b" "last m" b "a @ butlast m"] assms(2,3,5)
    by (cases m rule: rev_cases) auto
  ultimately show ?thesis using assms(3) by (simp add: trim_whitespace_def Let_def)
qed

lemma last_comma:
  assumes "CHR '','' \<in> set s"
  obtains pre e where "s = pre @ CHR '','' # e" "CHR '','' \<notin> set e"
  using split_list_last [OF assms] by blast

lemma last_element_comma:
  assumes "CHR '','' \<notin> set e"
  shows "last_element (pre @ CHR '','' # e) =
    (if length e \<le> MAX_ELEMENT then Inr (trim_whitespace e, Some pre) else Inl Malformed)"
proof -
  let ?s = "pre @ CHR '','' # e" and ?P = "\<lambda>b. b = CHR '',''"
  define w where "w = length ?s - (MAX_ELEMENT + 1)"
  have unfold: "last_element ?s = (case rposition ?P (drop w ?s) of
      Some comma \<Rightarrow> Inr (trim_whitespace (drop (w + comma + 1) ?s), Some (take (w + comma) ?s))
    | None \<Rightarrow> if w = 0 then Inr (trim_whitespace ?s, None) else Inl Malformed)"
    by (simp only: last_element_def Let_def w_def)
  show ?thesis
  proof (cases "length e \<le> MAX_ELEMENT")
    case True
    then have w: "w \<le> length pre" by (simp add: w_def)
    then have "drop w ?s = drop w pre @ CHR '','' # e" by simp
    then have "rposition ?P (drop w ?s) = Some (length (drop w pre))"
      using rposition_append [of ?P "CHR '',''" e "drop w pre"] assms by auto
    with True w show ?thesis unfolding unfold by simp
  next
    case False
    then have w: "length pre < w" by (simp add: w_def)
    then have "set (drop w ?s) \<subseteq> set e" by (auto simp: drop_Cons' dest: in_set_dropD)
    then have "rposition ?P (drop w ?s) = None" using assms by (auto simp: rposition_None)
    with False w show ?thesis unfolding unfold by simp
  qed
qed

lemma last_element_single:
  assumes "CHR '','' \<notin> set s"
  shows "last_element s =
    (if length s \<le> MAX_ELEMENT + 1 then Inr (trim_whitespace s, None) else Inl Malformed)"
proof -
  have "rposition (\<lambda>b. b = CHR '','') (drop w s) = None" for w
    using assms by (auto simp: rposition_None dest: in_set_dropD)
  then show ?thesis by (auto simp: last_element_def Let_def)
qed

text \<open>
  The window is one byte longer than an element, for the comma before it. Where there is
  no comma, that byte is read as part of the element too.
\<close>

lemma single_element_limit:
  "CHR '','' \<notin> set s \<Longrightarrow> length s = MAX_ELEMENT + 1 \<Longrightarrow> last_element s = Inr (trim_whitespace s, None)"
  by (simp add: last_element_single)

text \<open>
  One element of the list: \<open>Inl\<close> returns from the walk. \<open>left\<close> says that the line goes on
  to the left of it; its first element alone may have one byte more.
\<close>

definition walk_element ::
  "(ip_addr \<Rightarrow> bool) \<Rightarrow> bool \<Rightarrow> bool \<Rightarrow> string \<Rightarrow> walk_state \<Rightarrow> walk_result + walk_state" where
  "walk_element t noting left raw st =
     (case st of (read, leftmost, hops) \<Rightarrow>
        if MAX_HOPS < read + 1 then Inl (Inl TooManyHops, hops)
        else if (if left then MAX_ELEMENT else MAX_ELEMENT + 1) < length raw then Inl (Inl Malformed, hops)
        else if trim_whitespace raw = [] then Inr (read + 1, leftmost, hops)
        else case parse_address (trim_whitespace raw) of
               None \<Rightarrow> Inl (Inl Malformed, hops)
             | Some a \<Rightarrow>
                 if t (to_canonical a)
                 then Inr (read + 1, Some (to_canonical a),
                           if noting then hops @ [to_canonical a] else hops)
                 else Inl (Inr (Some (to_canonical a)), hops))"

fun walk_parts ::
  "(ip_addr \<Rightarrow> bool) \<Rightarrow> bool \<Rightarrow> string list \<Rightarrow> walk_state \<Rightarrow> walk_result + walk_state" where
  "walk_parts t noting [] st = Inr st"
| "walk_parts t noting (raw # left) st =
     (case walk_element t noting (left \<noteq> []) raw st of
        Inl res \<Rightarrow> Inl res
      | Inr st' \<Rightarrow> walk_parts t noting left st')"

lemma walk_line_parts:
  "walk_line t noting s st = walk_parts t noting (rev (split_on (CHR '','') s)) st"
proof (induction "length s" arbitrary: s st rule: less_induct)
  case less
  obtain read lm hops where st: "st = (read, lm, hops)" by (cases st)
  show ?case
  proof (cases "CHR '','' \<in> set s")
    case True
    then obtain pre e where s: "s = pre @ CHR '','' # e" "CHR '','' \<notin> set e" by (rule last_comma)
    have IH: "walk_line t noting pre st' = walk_parts t noting (rev (split_on (CHR '','') pre)) st'" for st'
      using less [of pre] s by simp
    show ?thesis
      unfolding st s(1)
      by (subst walk_line.simps)
        (simp add: last_element_comma [OF s(2)] split_on_append split_on_single [OF s(2)] walk_element_def IH Let_def
          split: option.split)
  next
    case False
    show ?thesis
      unfolding st
      by (subst walk_line.simps)
        (simp add: last_element_single [OF False] split_on_single [OF False] walk_element_def Let_def
          split: option.split)
  qed
qed

text \<open>What the state of the walk keeps.\<close>

definition canonical_ip :: "ip_addr \<Rightarrow> bool" where
  "canonical_ip ip \<longleftrightarrow> ip_wf ip \<and> to_canonical ip = ip"

definition walk_inv :: "(ip_addr \<Rightarrow> bool) \<Rightarrow> walk_state \<Rightarrow> bool" where
  "walk_inv t st \<longleftrightarrow> (case st of (read, leftmost, hops) \<Rightarrow>
     (\<forall>ip. leftmost = Some ip \<longrightarrow> t ip \<and> canonical_ip ip) \<and> (\<forall>ip \<in> set hops. t ip \<and> canonical_ip ip))"

lemma parse_address_wf: "parse_address s = Some ip \<Longrightarrow> ip_wf ip"
  by (auto simp: parse_address_def dest: parse_ip_wf parse_socket_wf parse_ipv6_wf
      split: option.splits Option.bind_splits)

lemma to_canonical_idem [simp]: "to_canonical (to_canonical ip) = to_canonical ip"
  by (cases ip) (simp_all split: option.split)

lemma canonical_to_canonical: "ip_wf ip \<Longrightarrow> canonical_ip (to_canonical ip)"
  by (simp add: canonical_ip_def to_canonical_wf)

lemma walk_element_inv:
  "walk_element t noting left raw st = Inr st' \<Longrightarrow> walk_inv t st \<Longrightarrow> walk_inv t st'"
  by (auto simp: walk_element_def walk_inv_def intro!: canonical_to_canonical dest: parse_address_wf
      split: prod.splits if_splits option.splits)

lemma walk_parts_inv:
  "walk_parts t noting parts st = Inr st' \<Longrightarrow> walk_inv t st \<Longrightarrow> walk_inv t st'"
  by (induction parts arbitrary: st) (auto dest: walk_element_inv split: sum.splits)

lemma walk_lines_inv:
  "walk_lines t noting lines st = Inr st' \<Longrightarrow> walk_inv t st \<Longrightarrow> walk_inv t st'"
  by (induction lines arbitrary: st) (auto simp: walk_line_parts dest: walk_parts_inv split: sum.splits)

lemma walk_inv_start [simp]: "walk_inv t (0, None, [])"
  by (simp add: walk_inv_def)

text \<open>The same of a walk that has ended.\<close>

definition walk_ok :: "(ip_addr \<Rightarrow> bool) \<Rightarrow> walk_result \<Rightarrow> bool" where
  "walk_ok t res \<longleftrightarrow> (\<forall>ip. fst res = Inr (Some ip) \<longrightarrow> canonical_ip ip) \<and>
     (\<forall>ip \<in> set (snd res). t ip \<and> canonical_ip ip)"

lemma walk_element_ok:
  "walk_element t noting left raw st = Inl res \<Longrightarrow> walk_inv t st \<Longrightarrow> walk_ok t res"
  by (auto simp: walk_element_def walk_inv_def walk_ok_def intro!: canonical_to_canonical
      dest: parse_address_wf split: prod.splits if_splits option.splits)

lemma walk_parts_ok:
  "walk_parts t noting parts st = Inl res \<Longrightarrow> walk_inv t st \<Longrightarrow> walk_ok t res"
  by (induction parts arbitrary: st) (auto dest: walk_element_inv walk_element_ok split: sum.splits)

lemma walk_lines_ok:
  "walk_lines t noting lines st = Inl res \<Longrightarrow> walk_inv t st \<Longrightarrow> walk_ok t res"
  by (induction lines arbitrary: st)
    (auto simp: walk_line_parts dest: walk_parts_inv walk_parts_ok split: sum.splits)

lemma walk_walk_ok: "walk_ok t (walk t noting lines)"
proof (cases "walk_lines t noting (rev lines) (0, None, [])")
  case (Inl res)
  then show ?thesis using walk_lines_ok [OF Inl] by (simp add: walk_def)
next
  case (Inr st)
  with walk_lines_inv [OF Inr] show ?thesis
    by (auto simp: walk_def walk_inv_def walk_ok_def split: prod.splits dest: in_set_butlastD)
qed

subsection \<open>Nothing left of the client is read\<close>

lemma walk_element_short:
  "length raw \<le> MAX_ELEMENT \<Longrightarrow> walk_element t noting left raw st = walk_element t noting left' raw st"
  by (auto simp: walk_element_def split: prod.splits)

lemma walk_parts_append:
  assumes "walk_parts t noting ps st = Inl (Inr x, hops)" "length (last ps) \<le> MAX_ELEMENT"
  shows "walk_parts t noting (ps @ qs) st = Inl (Inr x, hops)"
  using assms
proof (induction ps arbitrary: st)
  case (Cons p ps)
  show ?case
  proof (cases "ps = []")
    case True
    then show ?thesis
      using Cons.prems walk_element_short [of p t noting False st "qs \<noteq> []"] by (auto split: sum.splits)
  next
    case False
    then show ?thesis using Cons by (auto split: sum.splits)
  qed
qed simp

lemma walk_lines_append:
  "walk_lines t noting (ls @ ms) st =
     (case walk_lines t noting ls st of Inl res \<Rightarrow> Inl res | Inr st' \<Rightarrow> walk_lines t noting ms st')"
  by (induction ls arbitrary: st) (auto split: sum.splits)

lemma walk_untrusted:
  "walk t noting lines = (Inr (Some ip), hops) \<Longrightarrow> \<not> t ip \<Longrightarrow>
   walk_lines t noting (rev lines) (0, None, []) = Inl (Inr (Some ip), hops)"
  by (auto simp: walk_def walk_inv_def dest: walk_lines_inv split: sum.splits prod.splits)

lemma walk_lines_left:
  assumes "walk_lines t noting (rev (line # lines)) st = Inl (Inr x, hops)"
    and "length (hd (split_on (CHR '','') line)) \<le> MAX_ELEMENT"
  shows "walk_lines t noting (rev (extra @ (junk @ CHR '','' # line) # lines)) st = Inl (Inr x, hops)"
proof -
  let ?ps = "rev (split_on (CHR '','') line)"
  have "last ?ps = hd (split_on (CHR '','') line)" by (simp add: last_rev)
  then have "walk_parts t noting (?ps @ rev (split_on (CHR '','') junk)) st' = Inl (Inr x, hops)"
    if "walk_parts t noting ?ps st' = Inl (Inr x, hops)" for st'
    using walk_parts_append [OF that] assms(2) by simp
  then show ?thesis
    using assms(1) by (auto simp: walk_lines_append walk_line_parts split_on_append split: sum.splits)
qed

lemma resolve_forwarded:
  assumes "resolve_noting N r p h noting = (c, hops)" "resolution c = Forwarded ip"
    and "fwd_header r = XForwardedFor"
  obtains pr where "p = Some pr" "trusts N r (to_canonical (sock_ip pr))"
    "walk (trusts N r) noting (h X_FORWARDED_FOR) = (Inr (Some ip), hops)"
    "c = client_address_new (Some pr) (Forwarded ip)"
  using assms
  by (auto simp: resolve_noting_def client_address_new_def Let_def
      split: prod.splits sum.splits option.splits if_splits)


subsection \<open>The list as a whole\<close>

text \<open>
  The walk without its bounds: the elements of all lines, trimmed, from the right; empty
  ones do not count, the first address outside the trusted proxies is the client, and the
  leftmost one where all are trusted.
\<close>

fun walk_spec ::
  "(ip_addr \<Rightarrow> bool) \<Rightarrow> string list \<Rightarrow> ip_addr option \<Rightarrow> invalid_forwarding + ip_addr option" where
  "walk_spec t [] leftmost = Inr leftmost"
| "walk_spec t (e # es) leftmost =
     (if e = [] then walk_spec t es leftmost
      else case map_option to_canonical (parse_address e) of
             None \<Rightarrow> Inl Malformed
           | Some ip \<Rightarrow> if t ip then walk_spec t es (Some ip) else Inr (Some ip))"

definition list_elements :: "string list \<Rightarrow> string list" where
  "list_elements lines = concat (map (split_on (CHR '','')) lines)"

definition walk_outcome :: "walk_result + walk_state \<Rightarrow> invalid_forwarding + ip_addr option" where
  "walk_outcome res = (case res of Inl (out, hops) \<Rightarrow> out | Inr (read, leftmost, hops) \<Rightarrow> Inr leftmost)"

lemma walk_parts_spec:
  assumes "\<forall>raw \<in> set parts. length raw \<le> MAX_ELEMENT" "read + length parts \<le> MAX_HOPS"
  shows "(\<exists>out hops'. walk_parts t noting parts (read, leftmost, hops) = Inl (out, hops') \<and>
            (\<forall>es. walk_spec t (map trim_whitespace parts @ es) leftmost = out)) \<or>
         (\<exists>lm hops'. walk_parts t noting parts (read, leftmost, hops) = Inr (read + length parts, lm, hops') \<and>
            (\<forall>es. walk_spec t (map trim_whitespace parts @ es) leftmost = walk_spec t es lm))"
  using assms
proof (induction parts arbitrary: read leftmost hops)
  case (Cons raw parts)
  have step: "walk_element t noting (parts \<noteq> []) raw (read, leftmost, hops) =
     (if trim_whitespace raw = [] then Inr (read + 1, leftmost, hops)
      else case parse_address (trim_whitespace raw) of
             None \<Rightarrow> Inl (Inl Malformed, hops)
           | Some a \<Rightarrow>
               if t (to_canonical a)
               then Inr (read + 1, Some (to_canonical a), if noting then hops @ [to_canonical a] else hops)
               else Inl (Inr (Some (to_canonical a)), hops))"
    using Cons.prems by (auto simp: walk_element_def)
  have IH: "(\<exists>out hops'. walk_parts t noting parts (Suc read, lm, hs) = Inl (out, hops') \<and>
            (\<forall>es. walk_spec t (map trim_whitespace parts @ es) lm = out)) \<or>
         (\<exists>lm' hops'. walk_parts t noting parts (Suc read, lm, hs) = Inr (Suc (read + length parts), lm', hops') \<and>
            (\<forall>es. walk_spec t (map trim_whitespace parts @ es) lm = walk_spec t es lm'))" for lm hs
    using Cons.IH [of "Suc read" lm hs] Cons.prems by simp
  show ?case
    using IH by (auto simp: step split: option.split)
qed simp

lemma walk_lines_spec:
  assumes "\<forall>raw \<in> set (list_elements lines). length raw \<le> MAX_ELEMENT"
    and "read + length (list_elements lines) \<le> MAX_HOPS"
  shows "walk_outcome (walk_lines t noting (rev lines) (read, leftmost, hops)) =
    walk_spec t (rev (map trim_whitespace (list_elements lines))) leftmost"
  using assms
proof (induction lines arbitrary: read leftmost hops rule: rev_induct)
  case Nil
  then show ?case by (simp add: list_elements_def walk_outcome_def)
next
  case (snoc line lines)
  let ?ps = "rev (split_on (CHR '','') line)"
  have split: "list_elements (lines @ [line]) = list_elements lines @ rev ?ps"
    by (simp add: list_elements_def)
  have "\<forall>raw \<in> set ?ps. length raw \<le> MAX_ELEMENT" "read + length ?ps \<le> MAX_HOPS"
    using snoc.prems by (auto simp: split)
  from walk_parts_spec [OF this, of t noting leftmost hops]
  show ?case
  proof (elim disjE exE conjE)
    fix out hops'
    assume w: "walk_parts t noting ?ps (read, leftmost, hops) = Inl (out, hops')"
      and s: "\<forall>es. walk_spec t (map trim_whitespace ?ps @ es) leftmost = out"
    show ?thesis
      using w spec [OF s] by (simp add: walk_line_parts walk_outcome_def split rev_map)
  next
    fix lm hops'
    assume w: "walk_parts t noting ?ps (read, leftmost, hops) = Inr (read + length ?ps, lm, hops')"
      and s: "\<forall>es. walk_spec t (map trim_whitespace ?ps @ es) leftmost = walk_spec t es lm"
    show ?thesis
      using w spec [OF s] snoc by (simp add: walk_line_parts split rev_map)
  qed
qed

text \<open>
  C9. Within its bounds (at most \<open>MAX_HOPS\<close> elements of at most \<open>MAX_ELEMENT\<close> bytes) the
  windowed right-to-left walk over raw header bytes computes what the list of all
  elements says, however the list is divided into field lines.
\<close>

theorem walk_is_the_list_walk:
  assumes "\<forall>raw \<in> set (list_elements lines). length raw \<le> MAX_ELEMENT"
    and "length (list_elements lines) \<le> MAX_HOPS"
  shows "fst (walk t noting lines) =
    walk_spec t (rev (map trim_whitespace (list_elements lines))) None"
  using walk_lines_spec [OF assms(1), of 0 t noting None "[]"] assms(2)
  by (auto simp: walk_def walk_outcome_def split: sum.splits prod.splits)

section \<open>The forms of an address\<close>

fun address_texts :: "ip_addr \<Rightarrow> nat \<Rightarrow> string list" where
  "address_texts (V4 os) port = [show_ipv4 os, show_ipv4 os @ '':'' @ show_nat port]"
| "address_texts (V6 ss) port =
     [show_ipv6 ss, ''['' @ show_ipv6 ss @ '']'', ''['' @ show_ipv6 ss @ '']:'' @ show_nat port]"

lemma read_number_show_nat:
  "n \<le> bound \<Longrightarrow> read_number 10 None True bound (show_nat n) = Some (n, [])"
  using read_number_append [of "show_nat n" 10 "[]" None True bound] by (simp add: show_nat_all_digits)

lemma parse_ip_bracket: "parse_ip (CHR ''['' # x) = None"
proof -
  have b: "to_digit radix (CHR ''['') = None" for radix
    by (simp add: to_digit_def digit_val_def hex_val_def)
  then have n: "read_number radix md z bound (CHR ''['' # x) = None" for radix md z bound
    by (simp add: read_number_def split: option.split)
  then have v4: "read_ipv4_addr (CHR ''['' # x) = None"
    by (simp add: read_ipv4_addr_def read_separator_def)
  have "read_groups (Suc 7) 0 (CHR ''['' # x) = ([], False, CHR ''['' # x)"
    by (subst read_groups.simps) (simp add: read_separator_def n v4)
  then show ?thesis
    using v4 by (simp add: parse_ip_def parse_with_def read_ip_addr_def read_ipv6_addr_def)
qed

lemma parse_address_v4_port:
  assumes "ip_wf (V4 os)" "port \<le> 65535"
  shows "parse_address (show_ipv4 os @ CHR '':'' # show_nat port) = Some (V4 os)"
proof -
  have "read_ipv4_addr (show_ipv4 os @ CHR '':'' # show_nat port) = Some (os, CHR '':'' # show_nat port)"
    using assms by (intro read_ipv4_show) simp_all
  then show ?thesis
    using read_number_show_nat [OF assms(2)]
    by (simp add: parse_address_def parse_ip_def parse_socket_def parse_with_def read_ip_addr_def
        read_socket_addr_v4_def read_port_def)
qed

lemma parse_socket_bracket:
  assumes "ip_wf (V6 ss)"
  shows "parse_socket (CHR ''['' # show_ipv6 ss @ CHR '']'' # r) =
    (case read_port r of Some (port, []) \<Rightarrow> Some \<lparr>sock_ip = V6 ss, sock_port = port\<rparr> | _ \<Rightarrow> None)"
proof -
  have "read_ipv6_addr (show_ipv6 ss @ CHR '']'' # r) = Some (ss, CHR '']'' # r)"
    using assms by (intro read_ipv6_show) (auto simp: address_end_def)
  moreover have "read_ipv4_addr (CHR ''['' # x) = None" for x
    by (rule read_ipv4_None) (simp add: to_digit_def digit_val_def)
  ultimately show ?thesis
    by (auto simp: parse_socket_def parse_with_def read_socket_addr_v4_def read_socket_addr_v6_def
        read_scope_id_def split: option.splits list.splits prod.splits)
qed

lemma parse_address_brackets:
  assumes "ip_wf (V6 ss)" "port \<le> 65535"
  shows "parse_address (CHR ''['' # show_ipv6 ss @ '']:'' @ show_nat port) = Some (V6 ss)"
    and "parse_address (CHR ''['' # show_ipv6 ss @ '']'') = Some (V6 ss)"
proof -
  have port: "read_port (CHR '':'' # show_nat port) = Some (port, [])"
    using read_number_show_nat [OF assms(2)] by (simp add: read_port_def)
  have none: "read_port [] = None" by (simp add: read_port_def)
  have "parse_ipv6 (show_ipv6 ss) = Some ss"
    using read_ipv6_show [of ss "[]"] assms(1) by (simp add: parse_ipv6_def parse_with_def address_end_def)
  then show "parse_address (CHR ''['' # show_ipv6 ss @ '']:'' @ show_nat port) = Some (V6 ss)"
    "parse_address (CHR ''['' # show_ipv6 ss @ '']'') = Some (V6 ss)"
    using parse_socket_bracket [OF assms(1), of "CHR '':'' # show_nat port"]
      parse_socket_bracket [OF assms(1), of "[]"]
    by (simp_all add: parse_address_def parse_ip_bracket port none strip_suffix_append)
qed

text \<open>
  C14. Every form in which forwarding headers carry an address reads back as that address:
  bare, an IPv6 address in brackets, and either with a port. The bare text is the one
  the proxy writes itself.
\<close>

theorem parse_address_roundtrip:
  assumes "ip_wf ip" "port \<le> 65535" "s \<in> set (address_texts ip port)"
  shows "parse_address s = Some ip"
proof (cases ip)
  case (V4 os)
  then show ?thesis
    using assms parse_address_v4_port [of os port] parse_ip_show [of ip]
    by (auto simp: parse_address_def)
next
  case (V6 ss)
  then show ?thesis
    using assms parse_address_brackets [of ss port] parse_ip_show [of ip]
    by (auto simp: parse_address_def)
qed

section \<open>The chain handed upstream\<close>

lemma show_ip_plain:
  "CHR '','' \<notin> set (show_ip ip)" "c \<in> set (show_ip ip) \<Longrightarrow> \<not> is_ows c"
  using show_ip_chars [of ip]
  by (auto simp: address_chars_def to_digit_def hex_val_def is_ows_def)

lemma trim_show_ip:
  assumes "ip_wf ip" "\<forall>c \<in> set pad. is_ows c"
  shows "trim_whitespace (pad @ show_ip ip) = show_ip ip"
  using trim_whitespace_pad [of pad "[]" "show_ip ip"] assms show_ip_nonempty [OF assms(1)]
    show_ip_plain(2) [of _ ip]
  by simp

lemma fold_chain:
  "fold (\<lambda>hop chain. chain @ CHR '','' # CHR '' '' # show_ip hop) hs acc = acc @ concat (map (\<lambda>h. CHR '','' # CHR '' '' # show_ip h) hs)"
  by (induction hs arbitrary: acc) simp_all

lemma split_chain:
  "CHR '','' \<notin> set a \<Longrightarrow>
   split_on (CHR '','') (a @ concat (map (\<lambda>h. CHR '','' # CHR '' '' # show_ip h) hs)) = a # map (\<lambda>h. CHR '' '' # show_ip h) hs"
proof (induction hs arbitrary: a)
  case Nil
  then show ?case by (simp add: split_on_single)
next
  case (Cons h hs)
  have "CHR '','' \<notin> set (CHR '' '' # show_ip h)" using show_ip_plain(1) by simp
  from Cons.IH [OF this] show ?case
    using split_on_append [of "CHR '',''" a "CHR '' '' # show_ip h @ concat (map (\<lambda>h. CHR '','' # CHR '' '' # show_ip h) hs)"]
      Cons.prems by (simp add: split_on_single)
qed

lemma walk_spec_trusted:
  "\<forall>h \<in> set hs. t h \<and> canonical_ip h \<Longrightarrow>
   walk_spec t (map show_ip hs @ es) lm = walk_spec t es (if hs = [] then lm else Some (last hs))"
  by (induction hs arbitrary: lm)
    (auto simp: canonical_ip_def parse_address_def parse_ip_show show_ip_nonempty)

lemma walk_of_chain:
  assumes "canonical_ip ip" "\<forall>h \<in> set hs. t h \<and> canonical_ip h" "length hs < MAX_HOPS"
  shows "fst (walk t noting [show_ip ip @ concat (map (\<lambda>h. CHR '','' # CHR '' '' # show_ip h) hs)]) = Inr (Some ip)"
proof -
  let ?chain = "show_ip ip @ concat (map (\<lambda>h. CHR '','' # CHR '' '' # show_ip h) hs)"
  have parts: "list_elements [?chain] = show_ip ip # map (\<lambda>h. CHR '' '' # show_ip h) hs"
    using split_chain [OF show_ip_plain(1)] by (simp add: list_elements_def)
  have blank: "\<forall>c \<in> set [CHR '' '']. is_ows c" by (simp add: is_ows_def)
  have trims: "map trim_whitespace (list_elements [?chain]) = map show_ip (ip # hs)"
    unfolding parts using assms(1,2) trim_show_ip [of _ "[]"] trim_show_ip [OF _ blank]
    by (auto simp: canonical_ip_def)
  have len: "length (show_ip i) \<le> 48" if "canonical_ip i" for i
    using that length_show_ip [of i] by (simp add: canonical_ip_def)
  have "\<forall>raw \<in> set (list_elements [?chain]). length raw \<le> MAX_ELEMENT"
    using assms(1,2) len by (fastforce simp: parts MAX_ELEMENT_def)
  moreover have "0 + length (list_elements [?chain]) \<le> MAX_HOPS" using assms(3) by (simp add: parts)
  ultimately have "walk_outcome (walk_lines t noting (rev [?chain]) (0, None, [])) =
      walk_spec t (rev (map trim_whitespace (list_elements [?chain]))) None"
    by (rule walk_lines_spec)
  also have "\<dots> = walk_spec t (map show_ip (rev hs) @ [show_ip ip]) None"
    by (simp add: trims rev_map)
  also have "\<dots> = Inr (Some ip)"
    using assms walk_spec_trusted [of "rev hs" t "[show_ip ip]" None]
    by (auto simp: canonical_ip_def parse_address_def parse_ip_show show_ip_nonempty)
  finally show ?thesis
    by (auto simp: walk_def walk_outcome_def split: sum.splits prod.splits)
qed


section \<open>What the upstream receives\<close>

lemma header_names_distinct:
  "X_FORWARDED_FOR \<noteq> X_REAL_IP" "X_FORWARDED_FOR \<noteq> FORWARDED" "X_REAL_IP \<noteq> FORWARDED"
  by (simp_all add: X_FORWARDED_FOR_def X_REAL_IP_def FORWARDED_def)

lemma forwarded_headers_set:
  "set (forwarded_headers r) = {X_FORWARDED_FOR, X_REAL_IP, FORWARDED} \<union> set_option (client_header r)
     \<union> set_option (audit_header r)"
  unfolding forwarded_headers_def configured_headers_def X_FORWARDED_FOR_def X_REAL_IP_def FORWARDED_def
  by (auto split: option.splits)

lemma audited_other: "audit_header r \<noteq> Some n \<Longrightarrow> audited r h n = h n"
  by (auto simp: audited_def fold_header_append header_remove_def split: option.splits)

text \<open>The headers of a request from an untrusted peer, field by field.\<close>

lemma apply_untrusted:
  assumes "\<not> trusts N r (to_canonical (sock_ip pr))" "forward r \<in> {Verified, Resolved, Remove}"
  defines "me \<equiv> show_ip (to_canonical (sock_ip pr))"
  shows "apply_forwarding N r (Some pr) h =
    (client_address_new (Some pr) (Peer (to_canonical (sock_ip pr))),
     \<lambda>n. if client_header r = Some n then [me]
         else if n = X_FORWARDED_FOR then (if forward r = Remove then [] else [me])
         else if n = X_REAL_IP \<or> n = FORWARDED then []
         else audited r h n)"
proof -
  have res: "resolve_noting N r (Some pr) h b =
      (client_address_new (Some pr) (Peer (to_canonical (sock_ip pr))), [])" for b
    using assms(1) by (simp add: resolve_noting_def)
  show ?thesis
    using assms(2) header_names_distinct
    unfolding apply_forwarding_def res me_def
    by (auto simp: verified_chain_def client_address_new_def header_value_def Let_def
        header_remove_def header_insert_def fun_eq_iff split: option.split)
qed

text \<open>
  C11. An untrusted peer decides nothing but its own address: with a mode that rewrites
  \<open>X-Forwarded-For\<close>, two requests from the same peer that differ only in the headers the
  policy owns resolve alike and leave with the same headers, the audit copy apart.
\<close>

theorem untrusted_peer_cannot_forge:
  assumes "\<not> trusts N r (to_canonical (sock_ip pr))" "forward r \<in> {Verified, Resolved, Remove}"
    and "agree_off (set (forwarded_headers r)) h h'"
  shows "fst (apply_forwarding N r (Some pr) h) = client_address_new (Some pr) (Peer (to_canonical (sock_ip pr)))
    \<and> fst (apply_forwarding N r (Some pr) h') = fst (apply_forwarding N r (Some pr) h)
    \<and> agree_off (set_option (audit_header r))
        (snd (apply_forwarding N r (Some pr) h)) (snd (apply_forwarding N r (Some pr) h'))"
proof -
  have "audited r h n = audited r h' n" if "n \<notin> set (forwarded_headers r)" for n
    using that assms(3) by (simp add: agree_off_def forwarded_headers_set audited_other)
  then show ?thesis
    by (auto simp: apply_untrusted [OF assms(1,2)] agree_off_def forwarded_headers_set)
qed

lemma forward_header_Inr:
  "forward_header hn setting name taken = Inr h \<Longrightarrow>
     h \<notin> set taken \<and> \<not> ends_with ''-bin'' h \<and> is_grpc_key h \<and> hn name = Some h"
  by (auto simp: forward_header_def split: option.splits if_splits Option.bind_splits)

lemma resolver_build_headers:
  assumes "resolver_build N hn cfg = Some (Inr r)"
  shows "client_header r \<notin> {Some X_FORWARDED_FOR, Some FORWARDED}"
    and "audit_header r \<notin> {Some X_FORWARDED_FOR, Some X_REAL_IP, Some FORWARDED}"
    and "audit_header r = Some a \<Longrightarrow> client_header r \<noteq> Some a"
  using assms
  by (auto simp: resolver_build_def optional_header_def X_FORWARDED_FOR_def X_REAL_IP_def FORWARDED_def
      dest!: forward_header_Inr split: option.splits sum.splits)

text \<open>
  C12. The headers named in the configuration carry what the policy says, whatever the
  request had under their names: the audit header the \<open>X-Forwarded-For\<close> lines exactly as
  they arrived, the client header the resolved address alone, or nothing where none
  resolved. The checks at startup are what keeps the two, and the headers the proxy
  rewrites, from overwriting each other.
\<close>

theorem configured_headers_are_exact:
  assumes "resolver_build N hn cfg = Some (Inr r)"
    and "apply_forwarding N r p h = (c, out)"
  shows "(audit_header r = Some audit \<longrightarrow> out audit = h X_FORWARDED_FOR)
    \<and> (client_header r = Some name \<longrightarrow>
         out name = (case client_ip c of Some ip \<Rightarrow> [show_ip ip] | None \<Rightarrow> []))"
proof -
  obtain c' hops where res: "resolve_noting N r p h (forward r = Verified) = (c', hops)"
    by (cases "resolve_noting N r p h (forward r = Verified)")
  have "header_value = show_ip" by (rule ext) (simp add: header_value_def)
  with res have "ca_value c' = map_option show_ip (client_ip c')"
    by (auto simp: resolve_noting_def client_address_new_def client_ip_def Let_def
        split: option.splits if_splits prod.splits)
  then show ?thesis
    using assms(2) resolver_build_headers [OF assms(1)]
    by (auto simp: apply_forwarding_def res audited_def fold_header_append header_remove_def
        header_insert_def Let_def split: option.splits if_splits)
qed

section \<open>Trusted networks in canonical form\<close>

lemma length_be_bits [simp]: "length (be_bits w n) = w"
  by (induction w arbitrary: n) simp_all

lemma be_bits_add: "be_bits (v + w) n = be_bits v (n div 2 ^ w) @ be_bits w n"
  by (induction w arbitrary: n) (simp_all add: div_mult2_eq)

lemma be_bits_mod: "be_bits w (n mod 2 ^ w) = be_bits w n"
proof (induction w arbitrary: n)
  case (Suc w)
  have "n mod (2 * 2 ^ w) = 2 * (n div 2 mod 2 ^ w) + n mod 2" by (rule mod_mult2_eq)
  then have "n mod 2 ^ Suc w div 2 = n div 2 mod 2 ^ w" by simp
  with Suc show ?case by (simp add: dvd_mod_iff)
qed simp

lemma be_bits_inj: "n < 2 ^ w \<Longrightarrow> m < 2 ^ w \<Longrightarrow> be_bits w n = be_bits w m \<Longrightarrow> n = m"
proof (induction w arbitrary: n m)
  case (Suc w)
  then have "n div 2 = m div 2" by (simp add: less_mult_imp_div_less)
  with Suc.prems show ?case by (metis append_eq_append_conv length_be_bits list.inject
        be_bits.simps(2) even_two_times_div_two odd_two_times_div_two_succ)
qed simp

lemma be_bits_octets: "be_bits 16 s = be_bits 8 (high_octet s) @ be_bits 8 (low_octet s)"
  using be_bits_add [of 8 8 s] be_bits_mod [of 8 s] by (simp add: high_octet_def low_octet_def)

definition mapped_bits :: "bool list" where
  "mapped_bits = segment_bits [0, 0, 0, 0, 0, 65535]"

lemma length_mapped_bits [simp]: "length mapped_bits = 96"
  by (simp add: mapped_bits_def segment_bits_def)

lemma segment_bits_mapped:
  "to_ipv4_mapped ss = Some os \<Longrightarrow> segment_bits ss = mapped_bits @ octet_bits os"
  by (auto dest!: to_ipv4_mapped_Some simp: segment_bits_def mapped_bits_def octet_bits_def be_bits_octets)

lemma length_segment_bits: "length (segment_bits ss) = 16 * length ss"
  by (induction ss) (simp_all add: segment_bits_def)

lemma mapped_bits_only:
  assumes "ip_wf (V6 ss)" "take 96 (segment_bits ss) = mapped_bits"
  shows "\<exists>os. to_ipv4_mapped ss = Some os"
proof -
  have "length ss = 8" using assms(1) by simp
  then obtain a b c d e f g h where ss: "ss = [a, b, c, d, e, f, g, h]"
    by (auto simp: numeral_eq_Suc length_Suc_conv)
  then have "segment_bits [a, b, c, d, e, f] = mapped_bits"
    using assms(2) by (simp add: segment_bits_def)
  then have "be_bits 16 a = be_bits 16 0" "be_bits 16 b = be_bits 16 0" "be_bits 16 c = be_bits 16 0"
    "be_bits 16 d = be_bits 16 0" "be_bits 16 e = be_bits 16 0" "be_bits 16 f = be_bits 16 65535"
    by (simp_all add: segment_bits_def mapped_bits_def)
  then have "a = 0" "b = 0" "c = 0" "d = 0" "e = 0" "f = 65535"
    using assms(1) ss be_bits_inj [of _ 16 0] be_bits_inj [of f 16 65535] by simp_all
  then show ?thesis using ss by simp
qed

lemma take_append_ge: "length a \<le> p \<Longrightarrow> take p (a @ b) = a @ take (p - length a) b"
  by simp

text \<open>
  C13. Comparing canonical addresses with the canonical form of a trusted range decides
  as comparing the addresses themselves would. A range inside the IPv4-mapped block
  becomes the IPv4 range with exactly the same members; any other IPv6 range is kept
  and never matches a canonical IPv4 peer, so trusting \<open>::/0\<close> trusts no IPv4 peer.
  Nothing panics on the way.
\<close>

theorem canonical_net_keeps_members:
  assumes "ipnet_laws N" "ip_wf (V6 a)" "p \<le> 128"
  shows "\<exists>net. canonical_net N (Net6 a p) = Some net \<and>
    (if 96 \<le> p \<and> to_ipv4_mapped (net_network6 N a p) \<noteq> None
     then \<forall>b. ip_wf (V6 b) \<longrightarrow>
            net_contains N net (to_canonical (V6 b)) = net_contains N (Net6 a p) (V6 b)
     else net = Net6 a p \<and> (\<forall>b. \<not> net_contains N net (V4 b)))"
proof (cases "96 \<le> p \<and> to_ipv4_mapped (net_network6 N a p) \<noteq> None")
  case True
  then obtain os where p: "96 \<le> p" and os: "to_ipv4_mapped (net_network6 N a p) = Some os" by auto
  have net: "canonical_net N (Net6 a p) = Some (Net4 os (p - 96))"
    using assms(1,3) p os by (simp add: ipnet_laws_def)
  have bits: "mapped_bits @ octet_bits os = take p (segment_bits a) @ replicate (128 - p) False"
    using assms segment_bits_mapped [OF os] by (simp add: ipnet_laws_def)
  have len: "length (take p (segment_bits a)) = p"
    using assms(2,3) by (simp add: length_segment_bits)
  have a: "take p (segment_bits a) = mapped_bits @ take (p - 96) (octet_bits os)"
    using arg_cong [OF bits, of "take p"] len p by simp
  have "net_contains N (Net4 os (p - 96)) (to_canonical (V6 b)) = net_contains N (Net6 a p) (V6 b)"
    if b: "ip_wf (V6 b)" for b
  proof (cases "to_ipv4_mapped b")
    case None
    then have "take 96 (segment_bits b) \<noteq> mapped_bits" using mapped_bits_only [OF b] by auto
    moreover have "take 96 (take p (segment_bits b)) = take 96 (segment_bits b)" using p by simp
    ultimately have "take p (segment_bits b) \<noteq> take p (segment_bits a)"
      unfolding a by (metis append_eq_conv_conj length_mapped_bits)
    with None assms(1) show ?thesis by (simp add: ipnet_laws_def)
  next
    case (Some bs)
    then have "take p (segment_bits b) = mapped_bits @ take (p - 96) (octet_bits bs)"
      using p by (simp add: segment_bits_mapped)
    with Some assms(1) a show ?thesis by (simp add: ipnet_laws_def)
  qed
  with True net show ?thesis by simp
next
  case False
  then have "canonical_net N (Net6 a p) = Some (Net6 a p)" by (auto split: option.split)
  with False assms(1) show ?thesis by (auto simp: ipnet_laws_def)
qed

section \<open>Examples\<close>

text \<open>A crate with the documented behaviour, computed on the bits.\<close>

definition bits_val :: "bool list \<Rightarrow> nat" where
  "bits_val bs = foldl (\<lambda>n b. 2 * n + of_bool b) 0 bs"

definition clear_host6 :: "nat list \<Rightarrow> nat \<Rightarrow> nat list" where
  "clear_host6 a p =
     (let bs = take p (segment_bits a) @ replicate (128 - p) False
      in map (\<lambda>i. bits_val (take 16 (drop (16 * i) bs))) [0..<8])"

fun prefix_contains :: "ip_net \<Rightarrow> ip_addr \<Rightarrow> bool" where
  "prefix_contains (Net4 a p) (V4 b) \<longleftrightarrow> take p (octet_bits b) = take p (octet_bits a)"
| "prefix_contains (Net6 a p) (V6 b) \<longleftrightarrow> take p (segment_bits b) = take p (segment_bits a)"
| "prefix_contains _ _ \<longleftrightarrow> False"

definition prefix_crate :: ipnet_crate where
  "prefix_crate = \<lparr>net_parse = (\<lambda>_. None),
     net_of_ip = (\<lambda>ip. case ip of V4 os \<Rightarrow> Net4 os 32 | V6 ss \<Rightarrow> Net6 ss 128),
     net_new4 = (\<lambda>a p. if p \<le> 32 then Some (Net4 a p) else None),
     net_network6 = clear_host6, net_contains = prefix_contains\<rparr>"

lemma be_bits_bits_val: "be_bits (length bs) (bits_val bs) = bs"
  by (induction bs rule: rev_induct) (simp_all add: bits_val_def)

lemma bits_val_less: "bits_val bs < 2 ^ length bs"
  by (induction bs rule: rev_induct) (auto simp: bits_val_def)

lemma concat_chunks:
  "concat (map (\<lambda>i. take k (drop (k * i) bs)) [0..<n]) = take (k * n) bs"
proof (induction n)
  case (Suc n)
  have "take (k * Suc n) bs = take (k * n) bs @ take k (drop (k * n) bs)"
    by (metis mult_Suc_right add.commute take_add)
  with Suc show ?case by simp
qed simp

lemma clear_host6_bits:
  assumes "ip_wf (V6 a)" "p \<le> 128"
  shows "ip_wf (V6 (clear_host6 a p))"
    and "segment_bits (clear_host6 a p) = take p (segment_bits a) @ replicate (128 - p) False"
proof -
  define bs where "bs = take p (segment_bits a) @ replicate (128 - p) False"
  have len: "length bs = 128" using assms by (simp add: bs_def length_segment_bits)
  then have chunk: "length (take 16 (drop (16 * i) bs)) = 16" if "i \<in> set [0..<8]" for i
    using that by auto
  have val: "bits_val (take 16 (drop (16 * i) bs)) < 65536" if "i \<in> set [0..<8]" for i
    using bits_val_less [of "take 16 (drop (16 * i) bs)"] chunk [OF that] by simp
  have host: "clear_host6 a p = map (\<lambda>i. bits_val (take 16 (drop (16 * i) bs))) [0..<8]"
    by (simp only: clear_host6_def Let_def bs_def)
  show "ip_wf (V6 (clear_host6 a p))" unfolding host using val by simp
  have "map (\<lambda>i. be_bits 16 (bits_val (take 16 (drop (16 * i) bs)))) [0..<8] =
      map (\<lambda>i. take 16 (drop (16 * i) bs)) [0..<8]"
    using be_bits_bits_val chunk by (intro map_cong refl) metis
  then have "segment_bits (clear_host6 a p) = concat (map (\<lambda>i. take 16 (drop (16 * i) bs)) [0..<8])"
    by (simp only: host segment_bits_def map_map o_def)
  then show "segment_bits (clear_host6 a p) = take p (segment_bits a) @ replicate (128 - p) False"
    unfolding bs_def [symmetric] using concat_chunks [of 16 bs 8] len by simp
qed

lemma prefix_crate_laws: "ipnet_laws prefix_crate"
  unfolding ipnet_laws_def using clear_host6_bits by (simp add: prefix_crate_def)

definition sample_resolver :: resolver where
  "sample_resolver = \<lparr>trusted = [Net4 [10, 0, 0, 0] 8], fwd_header = XForwardedFor, required = False,
     forward = Verified, client_header = Some X_REAL_IP, audit_header = None\<rparr>"

definition sample_peer :: socket_addr where
  "sample_peer = \<lparr>sock_ip = V4 [10, 0, 0, 1], sock_port = 443\<rparr>"

lemma be_bits_8:
  "be_bits 8 n = [odd (n div 128), odd (n div 64), odd (n div 32), odd (n div 16), odd (n div 8),
     odd (n div 4), odd (n div 2), odd n]"
proof -
  have eight: "8 = Suc (Suc (Suc (Suc (Suc (Suc (Suc (Suc 0)))))))" by simp
  show ?thesis by (subst eight) (simp flip: div_mult2_eq)
qed

lemmas address_eval =
  parse_address_def parse_ip_def parse_socket_def parse_with_def read_ip_addr_def read_ipv4_addr_def
  read_separator_def read_number_def to_digit_def digit_val_def

lemmas walk_eval =
  walk_def walk_line_parts walk_element_def MAX_HOPS_def MAX_ELEMENT_def trim_whitespace_def is_ows_def
  rposition_def address_eval

lemmas sample_eval =
  sample_resolver_def sample_peer_def trusts_def prefix_crate_def octet_bits_def be_bits_8

definition sample_headers :: header_map where
  "sample_headers = no_headers (X_FORWARDED_FOR := [''203.0.113.7, 10.0.0.2''])"

lemma sample_resolve:
  "resolve_noting prefix_crate sample_resolver (Some sample_peer) sample_headers True =
     (client_address_new (Some sample_peer) (Forwarded (V4 [203, 0, 113, 7])), [V4 [10, 0, 0, 2]])"
  by (simp add: resolve_noting_def sample_headers_def sample_eval walk_eval)


theorem walk_is_the_list_walk_witness:
  "fst (walk (\<lambda>ip. ip = V4 [10, 0, 0, 2]) False [''203.0.113.7'', '' , 10.0.0.2:443'']) =
     walk_spec (\<lambda>ip. ip = V4 [10, 0, 0, 2])
       (rev (map trim_whitespace (list_elements [''203.0.113.7'', '' , 10.0.0.2:443'']))) None"
  by (rule walk_is_the_list_walk) (simp_all add: list_elements_def MAX_ELEMENT_def MAX_HOPS_def)

theorem parse_address_roundtrip_witness:
  "parse_address (''['' @ show_ipv6 [8193, 3512, 0, 0, 0, 0, 0, 1] @ '']:'' @ show_nat 443) =
     Some (V6 [8193, 3512, 0, 0, 0, 0, 0, 1])"
  by (rule parse_address_roundtrip [where port = 443]) simp_all


theorem untrusted_peer_cannot_forge_witness:
  "agree_off {} (snd (apply_forwarding prefix_crate sample_resolver
       (Some \<lparr>sock_ip = V4 [203, 0, 113, 7], sock_port = 5000\<rparr>) sample_headers))
     (snd (apply_forwarding prefix_crate sample_resolver
       (Some \<lparr>sock_ip = V4 [203, 0, 113, 7], sock_port = 5000\<rparr>) no_headers))"
  using untrusted_peer_cannot_forge [of prefix_crate sample_resolver
      "\<lparr>sock_ip = V4 [203, 0, 113, 7], sock_port = 5000\<rparr>" sample_headers no_headers]
  by (simp add: sample_eval forwarded_headers_set agree_off_def sample_headers_def)

definition sample_config :: client_address_config where
  "sample_config = \<lparr>cfg_trusted_proxies = [''10.0.0.1''], cfg_header = XForwardedFor, cfg_required = False,
     cfg_forward = \<lparr>cfg_x_forwarded_for = Verified, cfg_client_header = Some ''x-real-ip'',
       cfg_audit_header = Some ''x-original-forwarded-for''\<rparr>\<rparr>"

definition sample_built :: resolver where
  "sample_built = \<lparr>trusted = [Net4 [10, 0, 0, 1] 32], fwd_header = XForwardedFor, required = False,
     forward = Verified, client_header = Some ''x-real-ip'', audit_header = Some ''x-original-forwarded-for''\<rparr>"

lemma sample_build: "resolver_build prefix_crate Some sample_config = Some (Inr sample_built)"
  by (simp add: resolver_build_def sample_config_def sample_built_def parse_trusted_def prefix_crate_def
      address_eval optional_header_def forward_header_def is_grpc_key_def lower_byte_def is_ascii_digit_def
      is_ascii_lowercase_def ends_with_def strip_suffix_def)

theorem configured_headers_are_exact_witness:
  "snd (apply_forwarding prefix_crate sample_built (Some sample_peer) sample_headers)
     ''x-original-forwarded-for'' = [''203.0.113.7, 10.0.0.2'']"
  using configured_headers_are_exact [OF sample_build, of "Some sample_peer" sample_headers
      "fst (apply_forwarding prefix_crate sample_built (Some sample_peer) sample_headers)"
      "snd (apply_forwarding prefix_crate sample_built (Some sample_peer) sample_headers)"]
  by (simp add: sample_built_def sample_headers_def)

theorem canonical_net_keeps_members_witness:
  "\<exists>net. canonical_net prefix_crate (Net6 [0, 0, 0, 0, 0, 65535, 2560, 0] 104) = Some net"
  using canonical_net_keeps_members [OF prefix_crate_laws, of "[0, 0, 0, 0, 0, 65535, 2560, 0]" 104]
  by simp blast

end
