(* ===== verification/Metadata.thy ===== *)
theory Metadata
  imports Client_Address
begin

unbundle bit_operations_syntax

text \<open>
  \<open>transcode/metadata.rs\<close>: which request headers become gRPC metadata, the trace context
  that goes with them, and the client's deadline. \<open>header_name\<close> is the check of a field
  name by the \<open>http\<close> crate, the system's random seed is an argument.
\<close>

section \<open>Values gRPC metadata can carry\<close>

definition is_ascii_value :: "string \<Rightarrow> bool" where
  "is_ascii_value v \<longleftrightarrow> v \<noteq> [] \<and> list_all (\<lambda>b. 32 \<le> byte b \<and> byte b \<le> 126) v"

definition base64_digit :: "char \<Rightarrow> nat" where
  "base64_digit d =
     (if 65 \<le> byte d \<and> byte d \<le> 90 then byte d - 65
      else if 97 \<le> byte d \<and> byte d \<le> 122 then byte d - 97 + 26
      else if 48 \<le> byte d \<and> byte d \<le> 57 then byte d - 48 + 52
      else if d = CHR ''+'' then 62 else 63)"

text \<open>\<open>x & 0b1111\<close> and \<open>x & 0b0011\<close> are the remainders by 16 and 4.\<close>

definition canonical_tail :: "string \<Rightarrow> bool" where
  "canonical_tail data \<longleftrightarrow>
     (if length data mod 4 = 2 then data \<noteq> [] \<and> base64_digit (last data) mod 16 = 0
      else if length data mod 4 = 3 then data \<noteq> [] \<and> base64_digit (last data) mod 4 = 0
      else True)"

definition is_ascii_alphanumeric :: "char \<Rightarrow> bool" where
  "is_ascii_alphanumeric b \<longleftrightarrow> 48 \<le> byte b \<and> byte b \<le> 57 \<or> 65 \<le> byte b \<and> byte b \<le> 90
     \<or> 97 \<le> byte b \<and> byte b \<le> 122"

definition base64_alphabet :: "char \<Rightarrow> bool" where
  "base64_alphabet b \<longleftrightarrow> is_ascii_alphanumeric b \<or> b = CHR ''+'' \<or> b = CHR ''/''"

text \<open>One comma-separated part of a \<open>-bin\<close> value, already trimmed.\<close>

definition is_base64_part :: "string \<Rightarrow> bool" where
  "is_base64_part part \<longleftrightarrow>
     (let data = (case strip_suffix ''=='' part of Some d \<Rightarrow> Some d | None \<Rightarrow> strip_suffix ''='' part);
          (data, well_formed) =
            (case data of
               Some d \<Rightarrow> (d, length part mod 4 = 0)
             | None \<Rightarrow> (part, length part mod 4 \<noteq> 1))
      in well_formed \<and> list_all base64_alphabet data \<and> canonical_tail data)"

definition is_base64_value :: "string \<Rightarrow> bool" where
  "is_base64_value v \<longleftrightarrow> list_all (\<lambda>part. is_base64_part (trim_ascii part)) (split_on (CHR '','') v)"

definition carries :: "string \<Rightarrow> string \<Rightarrow> bool" where
  "carries name v = (if ends_with ''-bin'' name then is_base64_value v else is_ascii_value v)"

section \<open>Forwarding headers\<close>

datatype forwarded = Listed "string list" | Named "string list"

datatype source = Client | Rewritten

definition is_trace_context :: "string \<Rightarrow> bool" where
  "is_trace_context name \<longleftrightarrow>
     eq_ignore_ascii_case name ''traceparent'' \<or> eq_ignore_ascii_case name ''tracestate''"

text \<open>The values that \<open>push\<close> gets for one value of a field.\<close>

definition value_parts :: "bool \<Rightarrow> string \<Rightarrow> string list" where
  "value_parts binary v =
     (if binary \<and> CHR '','' \<in> set v then map trim_ascii (split_on (CHR '','') v) else [v])"

fun push_values ::
  "(string \<Rightarrow> 'e option) \<Rightarrow> bool \<Rightarrow> string list \<Rightarrow> string list \<Rightarrow> 'e + string list" where
  "push_values check binary [] pushed = Inr pushed"
| "push_values check binary (v # vs) pushed =
     (case check v of
        Some e \<Rightarrow> Inl e
      | None \<Rightarrow> push_values check binary vs (pushed @ value_parts binary v))"

definition forward_one ::
  "(string \<Rightarrow> string \<Rightarrow> 'e option) \<Rightarrow> source \<Rightarrow> header_map \<Rightarrow> string \<Rightarrow> header_map \<Rightarrow> 'e + header_map" where
  "forward_one check source headers name forwarded =
     (if is_trace_context name \<or> source = Client \<and> owns name then Inr forwarded
      else if headers name = [] then Inr forwarded
      else if \<not> is_grpc_key name then Inr forwarded
      else if forwarded name \<noteq> [] then Inr forwarded
      else (case push_values (check name) (ends_with ''-bin'' name) (headers name) [] of
              Inl e \<Rightarrow> Inl e
            | Inr pushed \<Rightarrow> Inr (forwarded(name := pushed))))"

fun forward_all ::
  "(string \<Rightarrow> string \<Rightarrow> 'e option) \<Rightarrow> source \<Rightarrow> header_map \<Rightarrow> string list \<Rightarrow> header_map \<Rightarrow> 'e + header_map" where
  "forward_all check source headers [] forwarded = Inr forwarded"
| "forward_all check source headers (name # names) forwarded =
     (case forward_one check source headers name forwarded of
        Inl e \<Rightarrow> Inl e
      | Inr forwarded' \<Rightarrow> forward_all check source headers names forwarded')"

section \<open>Trace context\<close>

definition is_hex :: "string \<Rightarrow> nat \<Rightarrow> bool" where
  "is_hex s len \<longleftrightarrow> length s = len \<and> list_all is_ascii_hexdigit s"

definition is_valid_traceparent :: "string \<Rightarrow> bool" where
  "is_valid_traceparent tp =
     (let parts = split_on (CHR ''-'') tp
      in if length parts < 4 then False
         else let version = parts ! 0; trace_id = parts ! 1; parent_id = parts ! 2; flags = parts ! 3
              in if version = ''00'' \<and> length parts \<noteq> 4 then False
                 else is_hex version 2 \<and> \<not> eq_ignore_ascii_case version ''ff''
                      \<and> is_hex trace_id 32 \<and> is_hex parent_id 16 \<and> is_hex flags 2
                      \<and> list_ex (\<lambda>b. b \<noteq> CHR ''0'') trace_id \<and> list_ex (\<lambda>b. b \<noteq> CHR ''0'') parent_id)"

text \<open>
  \<open>random_id\<close>: the thread's generator state (none before its first use) and the seed the
  system would give, if it can.
\<close>

definition random_id :: "64 word option \<Rightarrow> 64 word option \<Rightarrow> 64 word option \<times> 64 word option" where
  "random_id system_seed state =
     (case (case state of Some s \<Rightarrow> Some s | None \<Rightarrow> system_seed) of
        None \<Rightarrow> (None, state)
      | Some seed \<Rightarrow>
          (let next = seed + 0xa0761d6478bd642f;
               wide = (ucast next * ucast (next XOR 0xe7037ed1a0b428db) :: 128 word)
           in (Some (ucast (drop_bit 64 wide) XOR ucast wide), Some next)))"

definition HEX_DIGITS :: string where
  "HEX_DIGITS = ''0123456789abcdef''"

definition write_hex :: "64 word \<Rightarrow> string" where
  "write_hex value = map (\<lambda>at. HEX_DIGITS ! unat (drop_bit (60 - 4 * at) value AND 0xf)) [0..<16]"

definition new_traceparent :: "64 word option \<Rightarrow> 64 word option \<Rightarrow> string option \<times> 64 word option" where
  "new_traceparent system_seed state =
     (case random_id system_seed state of
        (None, state) \<Rightarrow> (None, state)
      | (Some high, state) \<Rightarrow>
          (case random_id system_seed state of
             (None, state) \<Rightarrow> (None, state)
           | (Some low, state) \<Rightarrow>
               (case random_id system_seed state of
                  (None, state) \<Rightarrow> (None, state)
                | (Some span, state) \<Rightarrow>
                    (let low = (if high = 0 \<and> low = 0 then 1 else low);
                         span = (if span = 0 then 1 else span)
                     in (Some (''00-'' @ write_hex high @ write_hex low @ ''-'' @ write_hex span @ ''-01''),
                         state)))))"

text \<open>
  \<open>insert_ascii\<close> and \<open>append_ascii\<close>. The metadata conversions of \<open>tonic\<close> accept visible
  ASCII, which has been checked before.
\<close>

definition insert_ascii :: "header_map \<Rightarrow> string \<Rightarrow> string \<Rightarrow> header_map" where
  "insert_ascii metadata key v = (if is_ascii_value v then header_insert metadata key v else metadata)"

definition append_ascii :: "header_map \<Rightarrow> string \<Rightarrow> string \<Rightarrow> header_map" where
  "append_ascii metadata key v = (if is_ascii_value v then header_append metadata key v else metadata)"

definition inject_trace_context ::
  "64 word option \<Rightarrow> 64 word option \<Rightarrow> header_map \<Rightarrow> header_map \<Rightarrow> header_map \<times> 64 word option" where
  "inject_trace_context system_seed state metadata headers =
     (case Option.bind (header_get headers ''traceparent'') to_str of
        Some tp \<Rightarrow>
          if is_valid_traceparent tp
          then (fold (\<lambda>ts m. append_ascii m ''tracestate'' ts) (headers ''tracestate'')
                  (insert_ascii metadata ''traceparent'' tp), state)
          else (case new_traceparent system_seed state of
                  (Some t, s) \<Rightarrow> (header_insert metadata ''traceparent'' t, s)
                | (None, s) \<Rightarrow> (metadata, s))
      | None \<Rightarrow>
          (case new_traceparent system_seed state of
             (Some t, s) \<Rightarrow> (header_insert metadata ''traceparent'' t, s)
           | (None, s) \<Rightarrow> (metadata, s)))"

definition forward_metadata ::
  "(string \<Rightarrow> string option) \<Rightarrow> 64 word option \<Rightarrow> 64 word option \<Rightarrow> header_map \<Rightarrow> forwarded \<Rightarrow> source \<Rightarrow>
   (string \<Rightarrow> string \<Rightarrow> 'e option) \<Rightarrow> 'e + header_map \<times> 64 word option" where
  "forward_metadata header_name system_seed state headers forwarded source check =
     (case forward_all check source headers
             (case forwarded of Listed names \<Rightarrow> List.map_filter header_name names | Named names \<Rightarrow> names)
             no_headers of
        Inl e \<Rightarrow> Inl e
      | Inr metadata \<Rightarrow> Inr (inject_trace_context system_seed state metadata headers))"

definition checked ::
  "(string \<Rightarrow> string option) \<Rightarrow> 64 word option \<Rightarrow> 64 word option \<Rightarrow> header_map \<Rightarrow> forwarded \<Rightarrow> source \<Rightarrow>
   string + header_map \<times> 64 word option" where
  "checked header_name system_seed state headers forwarded source =
     forward_metadata header_name system_seed state headers forwarded source
       (\<lambda>name v. if carries name v then None else Some name)"

definition try_http_headers_to_grpc_metadata ::
  "(string \<Rightarrow> string option) \<Rightarrow> 64 word option \<Rightarrow> 64 word option \<Rightarrow> header_map \<Rightarrow> string list \<Rightarrow>
   string + header_map \<times> 64 word option" where
  "try_http_headers_to_grpc_metadata header_name system_seed state headers names =
     checked header_name system_seed state headers (Listed names) Client"

definition forwarded_metadata ::
  "(string \<Rightarrow> string option) \<Rightarrow> 64 word option \<Rightarrow> 64 word option \<Rightarrow> header_map \<Rightarrow> forwarded \<Rightarrow> bool \<Rightarrow>
   string + header_map \<times> 64 word option" where
  "forwarded_metadata header_name system_seed state headers forwarded rewritten =
     checked header_name system_seed state headers forwarded (if rewritten then Rewritten else Client)"

text \<open>The deprecated form checks nothing, so it always returns metadata.\<close>

definition http_headers_to_grpc_metadata ::
  "(string \<Rightarrow> string option) \<Rightarrow> 64 word option \<Rightarrow> 64 word option \<Rightarrow> header_map \<Rightarrow> string list \<Rightarrow>
   header_map \<times> 64 word option" where
  "http_headers_to_grpc_metadata header_name system_seed state headers names =
     (case forward_metadata header_name system_seed state headers (Listed names) Client
             (\<lambda>_ _. None :: unit option) of
        Inr res \<Rightarrow> res
      | Inl never \<Rightarrow> (no_headers, state))"

section \<open>Deadlines\<close>

definition parse_grpc_timeout :: "string \<Rightarrow> nat option" where
  "parse_grpc_timeout v =
     (let v = trim v
      in if v = [] then None
         else let digits = butlast v; unit = last v
              in if digits = [] \<or> 8 < length digits then None
                 else case parse_u64 digits of
                        None \<Rightarrow> None
                      | Some n \<Rightarrow>
                          (let dur =
                             (if unit = CHR ''H'' then Some (secs (n * 3600))
                              else if unit = CHR ''M'' then Some (secs (n * 60))
                              else if unit = CHR ''S'' then Some (secs n)
                              else if unit = CHR ''m'' then Some (n * 1000000)
                              else if unit = CHR ''u'' then Some (n * 1000)
                              else if unit = CHR ''n'' then Some n else None)
                           in case dur of
                                None \<Rightarrow> None
                              | Some d \<Rightarrow> if d = 0 then None else Some d))"

definition apply_request_deadline :: "header_map \<Rightarrow> nat option" where
  "apply_request_deadline headers =
     Option.bind (Option.bind (header_get headers ''grpc-timeout'') to_str) parse_grpc_timeout"

section \<open>The base64 check accepts exactly the encodings\<close>

definition BASE64 :: string where
  "BASE64 = ''ABCDEFGHIJKLMNOPQRSTUVWXYZabcdefghijklmnopqrstuvwxyz0123456789+/''"

text \<open>The encoding of RFC 4648, section 4, without padding, and the padding.\<close>

fun base64_encode :: "nat list \<Rightarrow> string" where
  "base64_encode [] = []"
| "base64_encode [a] = [BASE64 ! (a div 4), BASE64 ! (a mod 4 * 16)]"
| "base64_encode [a, b] = [BASE64 ! (a div 4), BASE64 ! (a mod 4 * 16 + b div 16), BASE64 ! (b mod 16 * 4)]"
| "base64_encode (a # b # c # r) =
     [BASE64 ! (a div 4), BASE64 ! (a mod 4 * 16 + b div 16), BASE64 ! (b mod 16 * 4 + c div 64),
      BASE64 ! (c mod 64)] @ base64_encode r"

definition base64_pad :: "nat list \<Rightarrow> string" where
  "base64_pad bs = (if length bs mod 3 = 1 then ''=='' else if length bs mod 3 = 2 then ''='' else [])"

definition octets :: "nat list \<Rightarrow> bool" where
  "octets bs \<longleftrightarrow> (\<forall>b \<in> set bs. b < 256)"

fun base64_decode :: "string \<Rightarrow> nat list" where
  "base64_decode (a # b # c # d # r) =
     [base64_digit a * 4 + base64_digit b div 16, base64_digit b mod 16 * 16 + base64_digit c div 4,
      base64_digit c mod 4 * 64 + base64_digit d] @ base64_decode r"
| "base64_decode [a, b, c] =
     [base64_digit a * 4 + base64_digit b div 16, base64_digit b mod 16 * 16 + base64_digit c div 4]"
| "base64_decode [a, b] = [base64_digit a * 4 + base64_digit b div 16]"
| "base64_decode _ = []"

lemma map_base64_digit: "map base64_digit BASE64 = [0..<64]"
  by code_simp

lemma base64_all: "list_all base64_alphabet BASE64"
  by code_simp

lemma base64_alphabet_mem: "base64_alphabet c \<Longrightarrow> c \<in> set BASE64"
proof -
  have "list_all (\<lambda>c. base64_alphabet c \<longrightarrow> c \<in> set BASE64) Enum.enum" by code_simp
  then show "base64_alphabet c \<Longrightarrow> c \<in> set BASE64" by (simp add: list_all_iff enum_UNIV)
qed

lemma length_BASE64: "length BASE64 = 64"
  by code_simp

lemma BASE64_nth:
  assumes "n < 64"
  shows "base64_alphabet (BASE64 ! n)" "base64_digit (BASE64 ! n) = n"
proof -
  show "base64_alphabet (BASE64 ! n)" using base64_all assms by (simp add: list_all_length length_BASE64)
  have "map base64_digit BASE64 ! n = n" using assms by (simp add: map_base64_digit)
  then show "base64_digit (BASE64 ! n) = n" using assms by (simp add: length_BASE64)
qed

lemma base64_digit_alphabet:
  assumes "base64_alphabet c"
  shows "base64_digit c < 64" "BASE64 ! base64_digit c = c"
proof -
  obtain n where "n < 64" "c = BASE64 ! n"
    using base64_alphabet_mem [OF assms] by (auto simp: in_set_conv_nth length_BASE64)
  then show "base64_digit c < 64" "BASE64 ! base64_digit c = c" by (simp_all add: BASE64_nth)
qed

lemma length_encode_mod:
  "length (base64_encode bs) mod 4 = (if length bs mod 3 = 0 then 0 else Suc (length bs mod 3))"
  by (induction bs rule: base64_encode.induct) auto

lemma encode_alphabet: "octets bs \<Longrightarrow> list_all base64_alphabet (base64_encode bs)"
proof (induction bs rule: base64_encode.induct)
  case (4 a b c r)
  then have "a < 256" "b < 256" "c < 256" "octets r" by (auto simp: octets_def)
  moreover from this have "a div 4 < 64" "a mod 4 * 16 + b div 16 < 64" "b mod 16 * 4 + c div 64 < 64"
    by linarith+
  ultimately show ?case using 4 by (simp add: BASE64_nth)
next
  case (3 a b)
  then have "a < 256" "b < 256" by (auto simp: octets_def)
  then have "a div 4 < 64" "a mod 4 * 16 + b div 16 < 64" "b mod 16 * 4 < 64" by linarith+
  then show ?case by (simp add: BASE64_nth)
next
  case (2 a)
  then have "a < 256" by (auto simp: octets_def)
  then have "a div 4 < 64" "a mod 4 * 16 < 64" by linarith+
  then show ?case by (simp add: BASE64_nth)
qed simp

lemma canonical_tail_step: "canonical_tail (a # b # c # d # r) \<longleftrightarrow> canonical_tail r"
proof (cases "r = []")
  case True
  then show ?thesis by (simp add: canonical_tail_def)
next
  case False
  have "length (a # b # c # d # r) mod 4 = length r mod 4" by simp
  then show ?thesis using False by (simp only: canonical_tail_def last.simps list.distinct if_False simp_thms)
qed

lemma encode_tail: "octets bs \<Longrightarrow> canonical_tail (base64_encode bs)"
proof (induction bs rule: base64_encode.induct)
  case (4 a b c r)
  then have "canonical_tail (base64_encode r)" by (simp add: octets_def)
  then show ?case by (simp add: canonical_tail_step)
next
  case (3 a b)
  have "b mod 16 * 4 < 64" by linarith
  then show ?case by (simp add: canonical_tail_def BASE64_nth)
next
  case (2 a)
  have "a mod 4 * 16 < 64" by linarith
  then show ?case by (simp add: canonical_tail_def BASE64_nth)
qed (simp add: canonical_tail_def)

text \<open>Three octets from four digits and back.\<close>

lemma digit_pairs:
  assumes "w < 64" "x < (64 :: nat)" "y < 64" "z < 64"
  shows "(w * 4 + x div 16) div 4 = w" "(w * 4 + x div 16) mod 4 * 16 + x mod 16 = x"
    "(x mod 16 * 16 + y div 4) div 16 = x mod 16" "(x mod 16 * 16 + y div 4) mod 16 * 4 + y mod 4 = y"
    "(y mod 4 * 64 + z) div 64 = y mod 4" "(y mod 4 * 64 + z) mod 64 = z"
    "w * 4 + x div 16 < 256" "x mod 16 * 16 + y div 4 < 256" "y mod 4 * 64 + z < 256"
proof -
  have high: "x div 16 < 4" "y div 4 < 16" using assms by (simp_all add: less_mult_imp_div_less)
  then show "(w * 4 + x div 16) div 4 = w" "(w * 4 + x div 16) mod 4 * 16 + x mod 16 = x"
    "(x mod 16 * 16 + y div 4) div 16 = x mod 16" "(x mod 16 * 16 + y div 4) mod 16 * 4 + y mod 4 = y"
    by simp_all
  show "(y mod 4 * 64 + z) div 64 = y mod 4" "(y mod 4 * 64 + z) mod 64 = z" using assms by simp_all
  have "x mod 16 < 16" "y mod 4 < 4" by simp_all
  with high assms show "w * 4 + x div 16 < 256" "x mod 16 * 16 + y div 4 < 256" "y mod 4 * 64 + z < 256"
    by linarith+
qed

lemma encode_decode:
  assumes "list_all base64_alphabet data" "length data mod 4 \<noteq> 1" "canonical_tail data"
  shows "octets (base64_decode data) \<and> base64_encode (base64_decode data) = data"
  using assms
proof (induction data rule: base64_decode.induct)
  case (1 a b c d r)
  have "octets (base64_decode r) \<and> base64_encode (base64_decode r) = r"
    using 1 by (simp add: canonical_tail_step)
  moreover have "base64_digit a < 64" "base64_digit b < 64" "base64_digit c < 64" "base64_digit d < 64"
    "BASE64 ! base64_digit a = a" "BASE64 ! base64_digit b = b" "BASE64 ! base64_digit c = c"
    "BASE64 ! base64_digit d = d"
    using 1(2) base64_digit_alphabet by auto
  ultimately show ?case
    using digit_pairs [of "base64_digit a" "base64_digit b" "base64_digit c" "base64_digit d"]
    by (simp add: octets_def)
next
  case (2 a b c)
  have "base64_digit a < 64" "base64_digit b < 64" "base64_digit c < 64"
    "BASE64 ! base64_digit a = a" "BASE64 ! base64_digit b = b" "BASE64 ! base64_digit c = c"
    using 2(1) base64_digit_alphabet by auto
  moreover have "base64_digit c mod 4 = 0" using 2(3) by (simp add: canonical_tail_def)
  ultimately show ?case
    using digit_pairs [of "base64_digit a" "base64_digit b" "base64_digit c" 0] by (simp add: octets_def)
next
  case (3 a b)
  have "base64_digit a < 64" "base64_digit b < 64"
    "BASE64 ! base64_digit a = a" "BASE64 ! base64_digit b = b"
    using 3(1) base64_digit_alphabet by auto
  moreover have "base64_digit b mod 16 = 0" using 3(3) by (simp add: canonical_tail_def)
  ultimately show ?case
    using digit_pairs [of "base64_digit a" "base64_digit b" 0 0] by (simp add: octets_def)
qed (simp_all add: octets_def)

lemma no_pad_in_alphabet: "list_all base64_alphabet xs \<Longrightarrow> CHR ''='' \<notin> set xs"
  by (auto simp: list_all_iff base64_alphabet_def is_ascii_alphanumeric_def byte_def)

text \<open>
  C17. The check of a \<open>-bin\<close> value is exact: a part passes if and only if it is the base64
  encoding of some bytes, with or without its padding. No strict decoder refuses what
  the proxy forwards, and nothing that decodes is refused.
\<close>

theorem base64_part_iff_encoding:
  "is_base64_part part \<longleftrightarrow>
     (\<exists>bs. octets bs \<and> (part = base64_encode bs \<or> part = base64_encode bs @ base64_pad bs))"
proof
  have data: "\<exists>bs. octets bs \<and> d = base64_encode bs"
    if "list_all base64_alphabet d" "length d mod 4 \<noteq> 1" "canonical_tail d" for d
    using encode_decode [OF that] by metis
  assume ok: "is_base64_part part"
  consider (two) d where "part = d @ ''==''" | (one) d where "strip_suffix ''=='' part = None" "part = d @ ''=''"
    | (none) "strip_suffix ''=='' part = None" "strip_suffix ''='' part = None"
    by (metis option.exhaust strip_suffix_iff)
  then show "\<exists>bs. octets bs \<and> (part = base64_encode bs \<or> part = base64_encode bs @ base64_pad bs)"
  proof cases
    case two
    then have d: "list_all base64_alphabet d" "canonical_tail d" "length d mod 4 = 2"
      using ok by (auto simp: is_base64_part_def strip_suffix_append Let_def) presburger
    with data [of d] obtain bs where bs: "octets bs" "d = base64_encode bs" by auto
    then have "length bs mod 3 = 1" using length_encode_mod [of bs] d(3) by (auto split: if_splits)
    with bs two show ?thesis by (auto simp: base64_pad_def)
  next
    case one
    then have d: "list_all base64_alphabet d" "canonical_tail d" "length d mod 4 = 3"
      using ok by (auto simp: is_base64_part_def strip_suffix_append Let_def) presburger
    with data [of d] obtain bs where bs: "octets bs" "d = base64_encode bs" by auto
    then have "length bs mod 3 = 2" using length_encode_mod [of bs] d(3) by (auto split: if_splits)
    with bs one show ?thesis by (auto simp: base64_pad_def)
  next
    case none
    with ok data [of part] show ?thesis by (auto simp: is_base64_part_def)
  qed
next
  assume "\<exists>bs. octets bs \<and> (part = base64_encode bs \<or> part = base64_encode bs @ base64_pad bs)"
  then obtain bs where bs: "octets bs" "part = base64_encode bs \<or> part = base64_encode bs @ base64_pad bs"
    by auto
  let ?e = "base64_encode bs"
  have eq: "CHR ''='' \<notin> set ?e" using no_pad_in_alphabet [OF encode_alphabet [OF bs(1)]] .
  have none: "strip_suffix p s = None" if "\<And>d. s \<noteq> d @ p" for p s
    using that strip_suffix_iff [of p s] by (cases "strip_suffix p s") auto
  have no: "strip_suffix ''=='' ?e = None" "strip_suffix ''='' ?e = None"
    using eq by (auto intro!: none)
  have "?e @ ''='' \<noteq> d @ ''==''" for d
  proof
    assume "?e @ ''='' = d @ ''==''"
    then have "?e @ ''='' = (d @ ''='') @ ''=''" by simp
    then have "?e = d @ ''=''" by (simp only: append_same_eq)
    with eq show False by auto
  qed
  then have one: "strip_suffix ''=='' (?e @ ''='') = None" by (rule none)
  show "is_base64_part part"
    using bs(2) no one encode_alphabet [OF bs(1)] encode_tail [OF bs(1)] length_encode_mod [of bs]
    by (auto simp: is_base64_part_def base64_pad_def strip_suffix_append mod_Suc split: if_splits)
qed

section \<open>What is forwarded\<close>

text \<open>The names that may be forwarded, and the values a field becomes.\<close>

definition forwards :: "source \<Rightarrow> string \<Rightarrow> bool" where
  "forwards source n \<longleftrightarrow> \<not> is_trace_context n \<and> \<not> (source = Client \<and> owns n) \<and> is_grpc_key n"

definition forwarded_values :: "header_map \<Rightarrow> string \<Rightarrow> string list" where
  "forwarded_values headers n = concat (map (value_parts (ends_with ''-bin'' n)) (headers n))"

definition forwarded_names :: "(string \<Rightarrow> string option) \<Rightarrow> forwarded \<Rightarrow> string list" where
  "forwarded_names header_name fwd =
     (case fwd of Listed names \<Rightarrow> List.map_filter header_name names | Named names \<Rightarrow> names)"

lemma value_parts_nonempty [simp]: "value_parts binary v \<noteq> []"
  by (simp add: value_parts_def)

lemma forwarded_values_Nil: "forwarded_values headers n = [] \<longleftrightarrow> headers n = []"
  by (cases "headers n") (simp_all add: forwarded_values_def)

lemma push_values_Inr:
  "push_values check binary vs pushed = Inr out \<Longrightarrow>
   out = pushed @ concat (map (value_parts binary) vs) \<and> (\<forall>v \<in> set vs. check v = None)"
proof (induction vs arbitrary: pushed)
  case (Cons v vs)
  show ?case
    using Cons.prems Cons.IH [of "pushed @ value_parts binary v"] by (simp split: option.splits)
qed simp

lemma push_values_Inl:
  "push_values check binary vs pushed = Inl e \<Longrightarrow> \<exists>v \<in> set vs. check v = Some e"
  by (induction vs arbitrary: pushed) (auto split: option.splits)

lemma forward_one_Inr:
  assumes "forward_one check source headers name md = Inr md'"
  shows "md' = (if forwards source name \<and> md name = []
      then md(name := forwarded_values headers name) else md)"
    and "forwards source name \<and> md name = [] \<longrightarrow> (\<forall>v \<in> set (headers name). check name v = None)"
  using assms
  by (auto simp: forward_one_def forwards_def forwarded_values_def
      dest!: push_values_Inr split: if_splits sum.splits)

lemma forward_one_Inl:
  "forward_one check source headers name md = Inl e \<Longrightarrow>
   forwards source name \<and> (\<exists>v \<in> set (headers name). check name v = Some e)"
  by (auto simp: forward_one_def forwards_def dest!: push_values_Inl split: if_splits sum.splits)

lemma forward_all_Inr:
  assumes "forward_all check source headers names md = Inr md'"
    and "\<forall>n. md n \<noteq> [] \<longrightarrow> md n = forwarded_values headers n"
  shows "md' n = (if md n = [] \<and> n \<in> set names \<and> forwards source n then forwarded_values headers n else md n)"
  using assms
proof (induction names arbitrary: md)
  case (Cons a names)
  obtain md1 where one: "forward_one check source headers a md = Inr md1"
    and all: "forward_all check source headers names md1 = Inr md'"
    using Cons.prems(1) by (auto split: sum.splits)
  have md1: "md1 = (if forwards source a \<and> md a = [] then md(a := forwarded_values headers a) else md)"
    by (rule forward_one_Inr(1) [OF one])
  then have "\<forall>n. md1 n \<noteq> [] \<longrightarrow> md1 n = forwarded_values headers n" using Cons.prems(2) by simp
  from Cons.IH [OF all this] show ?case
    by (auto simp: md1 forwarded_values_Nil)
qed simp

lemma forward_all_checks:
  assumes "forward_all check source headers names md = Inr md'"
    and "n \<in> set names" "forwards source n" "md n = []" "v \<in> set (headers n)"
  shows "check n v = None"
  using assms
proof (induction names arbitrary: md)
  case (Cons a names)
  obtain md1 where one: "forward_one check source headers a md = Inr md1"
    and all: "forward_all check source headers names md1 = Inr md'"
    using Cons.prems(1) by (auto split: sum.splits)
  show ?case
  proof (cases "a = n")
    case True
    then show ?thesis using forward_one_Inr(2) [OF one] Cons.prems by blast
  next
    case False
    then have "md1 n = []" using forward_one_Inr(1) [OF one] Cons.prems(4) by simp
    then show ?thesis using Cons.IH [OF all] Cons.prems False by simp
  qed
qed simp

lemma forward_all_Inl:
  "forward_all check source headers names md = Inl e \<Longrightarrow>
   \<exists>n \<in> set names. forwards source n \<and> (\<exists>v \<in> set (headers n). check n v = Some e)"
  by (induction names arbitrary: md) (auto dest: forward_one_Inl split: sum.splits)

lemma trace_context_names: "is_trace_context ''traceparent''" "is_trace_context ''tracestate''"
  by (simp_all add: is_trace_context_def eq_ignore_ascii_case_def)

lemma fold_append_ascii_other:
  "n \<noteq> key \<Longrightarrow> fold (\<lambda>ts m. append_ascii m key ts) vs md n = md n"
  by (induction vs arbitrary: md) (simp_all add: append_ascii_def header_append_def)

lemma inject_other:
  "\<not> is_trace_context n \<Longrightarrow> fst (inject_trace_context seed st md headers) n = md n"
proof -
  assume "\<not> is_trace_context n"
  then have "n \<noteq> ''traceparent''" "n \<noteq> ''tracestate''" using trace_context_names by auto
  then show ?thesis
    unfolding inject_trace_context_def
    by (simp add: fold_append_ascii_other insert_ascii_def header_insert_def
        split: option.split prod.split)
qed

text \<open>
  C15. The metadata of a request is exactly what its headers and the configuration say.
  When the request is accepted, every name outside the trace context has the values of
  that field, byte for byte and in order (a \<open>-bin\<close> value split at its commas), if it is
  listed, is a gRPC key and is not a client's own assertion of its address, and nothing
  otherwise; and all of these values can be carried. When it is refused, the header
  named in the refusal is one that would have been forwarded with a value that cannot.
\<close>

theorem metadata_is_exact:
  "case checked header_name seed st headers fwd source of
     Inr (md, st') \<Rightarrow>
       (\<forall>n. \<not> is_trace_context n \<longrightarrow>
          md n = (if n \<in> set (forwarded_names header_name fwd) \<and> forwards source n
                  then forwarded_values headers n else [])) \<and>
       (\<forall>n \<in> set (forwarded_names header_name fwd). forwards source n \<longrightarrow>
          (\<forall>v \<in> set (headers n). carries n v))
   | Inl n \<Rightarrow>
       n \<in> set (forwarded_names header_name fwd) \<and> forwards source n \<and>
       (\<exists>v \<in> set (headers n). \<not> carries n v)"
proof -
  let ?check = "\<lambda>name v. if carries name v then None else Some name"
  let ?names = "forwarded_names header_name fwd"
  let ?all = "forward_all ?check source headers ?names no_headers"
  have unfold: "checked header_name seed st headers fwd source =
      (case ?all of Inl e \<Rightarrow> Inl e | Inr md \<Rightarrow> Inr (inject_trace_context seed st md headers))"
    by (simp add: checked_def forward_metadata_def forwarded_names_def)
  show ?thesis
  proof (cases ?all)
    case (Inl e)
    from forward_all_Inl [OF this] show ?thesis by (auto simp: unfold Inl split: if_splits)
  next
    case (Inr md)
    have "md n = (if n \<in> set ?names \<and> forwards source n then forwarded_values headers n else [])" for n
      using forward_all_Inr [OF Inr, of n] by (simp add: no_headers_def)
    moreover have "carries n v" if "n \<in> set ?names" "forwards source n" "v \<in> set (headers n)" for n v
      using forward_all_checks [OF Inr that(1,2) _ that(3)]
      by (auto simp: no_headers_def split: if_splits)
    ultimately show ?thesis
      using inject_other [of _ seed st md headers]
      by (auto simp: unfold Inr split: prod.split)
  qed
qed

section \<open>One valid trace\<close>

lemma hex_digits_list: "list_all is_ascii_hexdigit HEX_DIGITS" "CHR ''-'' \<notin> set HEX_DIGITS"
  "list_all (\<lambda>i. HEX_DIGITS ! i = CHR ''0'' \<longrightarrow> i = 0) [0..<16]"
  by code_simp+

lemma nibble_less: "unat (x AND 0xf :: 64 word) < 16"
proof -
  have "x AND 0xf \<le> (0xf :: 64 word)" by (rule word_and_le1)
  then have "unat (x AND 0xf) \<le> 15" by (simp add: word_le_nat_alt)
  then show ?thesis by simp
qed

lemma write_hex_chars: "c \<in> set (write_hex v) \<Longrightarrow> is_ascii_hexdigit c \<and> c \<noteq> CHR ''-''"
proof -
  assume "c \<in> set (write_hex v)"
  then obtain x :: "64 word" where c: "c = HEX_DIGITS ! unat (x AND 0xf)" by (auto simp: write_hex_def)
  have "length HEX_DIGITS = 16" by (simp add: HEX_DIGITS_def)
  then have "c \<in> set HEX_DIGITS" unfolding c using nibble_less [of x] by (intro nth_mem) simp
  then show ?thesis using hex_digits_list(1,2) unfolding list_all_iff by blast
qed

lemma write_hex_nonzero:
  assumes "v \<noteq> 0"
  shows "list_ex (\<lambda>b. b \<noteq> CHR ''0'') (write_hex v)"
proof -
  obtain n where n: "n < 64" "bit v n" using assms bit_word_eqI [of v 0] by auto
  define at where "at = 15 - n div 4"
  have at: "at < 16" "60 - 4 * at = 4 * (n div 4)" using n by (auto simp: at_def)
  have "bit (drop_bit (60 - 4 * at) v AND 0xf) (n mod 4)"
  proof -
    have "bit (0xf :: 64 word) (n mod 4)"
      using bit_mask_iff [where ?'a = "64 word" and m = 4 and n = "n mod 4"] by (simp add: mask_eq_exp_minus_1)
    moreover have "bit (drop_bit (60 - 4 * at) v) (n mod 4)"
      using n by (simp add: bit_drop_bit_eq at(2))
    ultimately show ?thesis by (simp add: bit_and_iff)
  qed
  then have "drop_bit (60 - 4 * at) v AND 0xf \<noteq> 0" by auto
  then have "unat (drop_bit (60 - 4 * at) v AND 0xf) \<noteq> 0" by (simp add: unat_eq_zero)
  then have "HEX_DIGITS ! unat (drop_bit (60 - 4 * at) v AND 0xf) \<noteq> CHR ''0''"
    using hex_digits_list(3) nibble_less by (auto simp: list_all_iff)
  then show ?thesis using at(1) by (auto simp: write_hex_def list_ex_iff)
qed

lemma length_write_hex [simp]: "length (write_hex v) = 16"
  by (simp add: write_hex_def)

lemma is_hex_write_hex: "is_hex (write_hex v) 16" "is_hex (write_hex v @ write_hex w) 32"
  using write_hex_chars by (auto simp: is_hex_def list_all_iff)

lemma new_traceparent_valid:
  assumes "new_traceparent seed st = (Some tp, st')"
  shows "is_valid_traceparent tp" "is_ascii_value tp"
proof -
  obtain high low span where tp: "tp = ''00-'' @ write_hex high @ write_hex low @ ''-'' @ write_hex span @ ''-01''"
    and nz: "high \<noteq> 0 \<or> low \<noteq> 0" "span \<noteq> 0"
    using assms by (auto simp: new_traceparent_def Let_def split: prod.splits option.splits if_splits)
  have dash: "CHR ''-'' \<notin> set (write_hex high @ write_hex low)" "CHR ''-'' \<notin> set (write_hex span)"
    using write_hex_chars by auto
  have "split_on (CHR ''-'') tp = [''00'', write_hex high @ write_hex low, write_hex span, ''01'']"
    using split_on_append [of "CHR ''-''" "''00''" "(write_hex high @ write_hex low) @ CHR ''-'' # write_hex span @ ''-01''"]
      split_on_append [of "CHR ''-''" "write_hex high @ write_hex low" "write_hex span @ ''-01''"]
      split_on_append [of "CHR ''-''" "write_hex span" "''01''"]
      split_on_single [OF dash(1)] split_on_single [OF dash(2)]
    by (simp add: tp)
  moreover have "list_ex (\<lambda>b. b \<noteq> CHR ''0'') (write_hex high @ write_hex low)"
    using nz(1) write_hex_nonzero [of high] write_hex_nonzero [of low] by (auto simp: list_ex_iff)
  ultimately show "is_valid_traceparent tp"
    using nz(2) is_hex_write_hex write_hex_nonzero [of span]
    by (simp add: is_valid_traceparent_def Let_def is_hex_def is_ascii_hexdigit_def byte_def
        rust_str)
  have "list_all (\<lambda>b. 32 \<le> byte b \<and> byte b \<le> 126) (write_hex v)" for v
    using write_hex_chars [of _ v] unfolding list_all_iff is_ascii_hexdigit_def by fastforce
  then show "is_ascii_value tp" by (simp add: tp is_ascii_value_def byte_def)
qed

lemma new_traceparent_some:
  assumes "seed \<noteq> None \<or> st \<noteq> None"
  obtains tp st' where "new_traceparent seed st = (Some tp, st')"
proof -
  have "\<exists>x s'. random_id seed s = (Some x, Some s')" if "seed \<noteq> None \<or> s \<noteq> None" for s
    using that by (auto simp: random_id_def Let_def split: option.split)
  then obtain x1 s1 x2 s2 x3 s3 where "random_id seed st = (Some x1, Some s1)"
    "random_id seed (Some s1) = (Some x2, Some s2)" "random_id seed (Some s2) = (Some x3, Some s3)"
    using assms by (metis option.distinct(1))
  then show ?thesis using that by (simp add: new_traceparent_def Let_def)
qed

lemma forward_all_no_trace:
  assumes "forward_all check source headers names no_headers = Inr md" "is_trace_context n"
  shows "md n = []"
  using forward_all_Inr [OF assms(1), of n] assms(2) by (simp add: no_headers_def forwards_def)

lemma fold_append_ascii_state:
  "is_ascii_value tp \<Longrightarrow>
   fold (\<lambda>ts m. append_ascii m ''tracestate'' ts) vs (insert_ascii md ''traceparent'' tp) ''traceparent'' = [tp]"
  by (simp add: fold_append_ascii_other insert_ascii_def header_insert_def)

text \<open>
  C16. The upstream always gets exactly one \<open>traceparent\<close>, and a valid one: the request's
  own where it is valid, else a new one, which the generator makes valid whatever its
  random bits are; and a \<open>tracestate\<close> travels only with the \<open>traceparent\<close> it came with.
  The random source must be available, and the request's \<open>traceparent\<close> without tabs.
\<close>

theorem exactly_one_valid_traceparent:
  assumes "seed \<noteq> None \<or> st \<noteq> None"
    and "\<forall>tp. header_get headers ''traceparent'' = Some tp \<longrightarrow> CHR 0x09 \<notin> set tp"
    and "forward_metadata header_name seed st headers fwd source check = Inr (md, st')"
  shows "\<exists>tp. md ''traceparent'' = [tp] \<and> is_valid_traceparent tp \<and>
    (md ''tracestate'' \<noteq> [] \<longrightarrow> header_get headers ''traceparent'' = Some tp)"
proof -
  obtain m where all: "forward_all check source headers (forwarded_names header_name fwd) no_headers = Inr m"
    and md: "(md, st') = inject_trace_context seed st m headers"
    using assms(3) by (auto simp: forward_metadata_def forwarded_names_def split: sum.splits)
  have m: "m ''tracestate'' = []" by (rule forward_all_no_trace [OF all trace_context_names(2)])
  obtain tp0 s0 where new: "new_traceparent seed st = (Some tp0, s0)"
    using new_traceparent_some [OF assms(1)] by blast
  note valid = new_traceparent_valid(1) [OF new]
  show ?thesis
  proof (cases "\<exists>tp. Option.bind (header_get headers ''traceparent'') to_str = Some tp \<and> is_valid_traceparent tp")
    case True
    then obtain tp where tp: "header_get headers ''traceparent'' = Some tp" "to_str tp = Some tp"
      "is_valid_traceparent tp"
      by (auto simp: to_str_def split: Option.bind_splits if_splits)
    have "byte c \<noteq> 9" if "c \<in> set tp" for c
    proof
      assume "byte c = 9"
      then have "of_char c = (of_char (CHR 0x09) :: nat)" by (simp add: byte_def)
      then have "c = CHR 0x09" by (simp only: of_char_eq_iff)
      with that assms(2) tp(1) show False by auto
    qed
    moreover have "tp \<noteq> []" using tp(3) by (auto simp: is_valid_traceparent_def)
    ultimately have "is_ascii_value tp"
      using tp(2) by (fastforce simp: is_ascii_value_def to_str_def list_all_iff split: if_splits)
    then have "md ''traceparent'' = [tp]"
      using md tp fold_append_ascii_state by (simp add: inject_trace_context_def)
    with tp show ?thesis by simp
  next
    case False
    then have "inject_trace_context seed st m headers = (header_insert m ''traceparent'' tp0, s0)"
      by (auto simp: inject_trace_context_def new split: option.split)
    with md m valid show ?thesis by (simp add: header_insert_def)
  qed
qed

lemma fold_append_ascii:
  "fold (\<lambda>ts m. append_ascii m key ts) vs md = md(key := md key @ filter is_ascii_value vs)"
  by (induction vs arbitrary: md) (simp_all add: append_ascii_def header_append_def)

text \<open>
  C19. A tab breaks the promise of a single trace. The fields a later version may append
  to a \<open>traceparent\<close> are not checked, and a header value may hold tabs, which gRPC
  metadata may not: the request's valid \<open>traceparent\<close> is then taken as the trace but
  silently not sent, no new one is made, and the \<open>tracestate\<close> travels without it.
\<close>

theorem tab_in_traceparent_drops_the_trace:
  assumes "header_get headers ''traceparent'' = Some tp" "to_str tp = Some tp"
    and "is_valid_traceparent tp" "CHR 0x09 \<in> set tp"
    and "forward_metadata header_name seed st headers fwd source check = Inr (md, st')"
  shows "md ''traceparent'' = [] \<and> md ''tracestate'' = filter is_ascii_value (headers ''tracestate'')"
proof -
  obtain m where all: "forward_all check source headers (forwarded_names header_name fwd) no_headers = Inr m"
    and md: "(md, st') = inject_trace_context seed st m headers"
    using assms(5) by (auto simp: forward_metadata_def forwarded_names_def split: sum.splits)
  have "m ''traceparent'' = []" "m ''tracestate'' = []"
    using forward_all_no_trace [OF all] trace_context_names by auto
  moreover have "\<not> is_ascii_value tp"
    using assms(4) by (force simp: is_ascii_value_def list_all_iff byte_def)
  ultimately show ?thesis
    using md assms(1-3) by (simp add: inject_trace_context_def insert_ascii_def fold_append_ascii)
qed

section \<open>Deadlines in range\<close>

definition timeout_units :: "(char \<times> nat) list" where
  "timeout_units = [(CHR ''H'', secs 3600), (CHR ''M'', secs 60), (CHR ''S'', secs 1),
     (CHR ''m'', 1000000), (CHR ''u'', 1000), (CHR ''n'', 1)]"

lemma parse_timeout_trimmed:
  assumes "trim v = digits @ [u]" "digits \<noteq> []" "length digits \<le> 8"
  shows "parse_grpc_timeout v =
    (case (parse_u64 digits, map_of timeout_units u) of
       (Some n, Some w) \<Rightarrow> if n = 0 then None else Some (n * w)
     | _ \<Rightarrow> None)"
  using assms
  by (auto simp: parse_grpc_timeout_def timeout_units_def Let_def rust_num split: option.split)

lemma digits_val_bound: "digits_val acc s = Some n \<Longrightarrow> n < (acc + 1) * 10 ^ length s"
proof (induction s arbitrary: acc)
  case (Cons c s)
  then obtain d where d: "digit_val c = Some d" "digits_val (10 * acc + d) s = Some n"
    by (auto split: option.splits)
  have "d \<le> 9" using d(1) by (auto simp: digit_val_def Let_def split: if_splits)
  have "n < (10 * acc + d + 1) * 10 ^ length s" by (rule Cons.IH [OF d(2)])
  also have "\<dots> \<le> (10 * (acc + 1)) * 10 ^ length s"
    using \<open>d \<le> 9\<close> by (intro mult_le_mono1) simp
  finally show ?case by (simp add: algebra_simps)
qed simp

lemma parse_u64_bound: "parse_u64 s = Some n \<Longrightarrow> n < 10 ^ length s"
proof -
  assume n: "parse_u64 s = Some n"
  define ds where "ds = (case s of CHR ''+'' # r \<Rightarrow> r | _ \<Rightarrow> s)"
  have "digits_val 0 ds = Some n"
    using n by (auto simp: parse_u64_def Let_def ds_def [symmetric] split: if_splits option.splits)
  then have "n < 10 ^ length ds" using digits_val_bound [of 0 ds n] by simp
  moreover have "length ds \<le> length s" unfolding ds_def by (auto split: list.split char.split bool.split)
  ultimately show ?thesis
    by (meson order_less_le_trans power_increasing one_le_numeral)
qed

text \<open>
  C18. A deadline the proxy applies is positive and at most 99,999,999 hours, so no
  conversion of it overflows; and a printed number of at most eight digits with any of
  the six units is read as that many units, zero apart, which is no deadline.
\<close>

theorem grpc_timeout_in_range:
  "(parse_grpc_timeout v = Some d \<longrightarrow> 0 < d \<and> d \<le> secs (99999999 * 3600) \<and> d \<le> dur_max)
   \<and> (0 < n \<and> n \<le> 99999999 \<and> (u, w) \<in> set timeout_units \<longrightarrow>
        parse_grpc_timeout (show_nat n @ [u]) = Some (n * w))"
proof (intro conjI impI)
  assume d: "parse_grpc_timeout v = Some d"
  then have ne: "trim v \<noteq> []" "butlast (trim v) \<noteq> []" "length (butlast (trim v)) \<le> 8"
    by (auto simp: parse_grpc_timeout_def Let_def split: if_splits)
  have split: "trim v = butlast (trim v) @ [last (trim v)]" using ne(1) by simp
  obtain k x where k: "parse_u64 (butlast (trim v)) = Some k" "map_of timeout_units (last (trim v)) = Some x"
    "d = k * x" "k \<noteq> 0"
    using d parse_timeout_trimmed [OF split ne(2,3)] by (auto split: option.splits if_splits)
  have "k < 10 ^ 8"
    using parse_u64_bound [OF k(1)] power_increasing [OF ne(3), of "10 :: nat"] by linarith
  then have "k \<le> 99999999" by simp
  moreover have x: "0 < x \<and> x \<le> secs 3600"
    using k(2) by (auto simp: timeout_units_def rust_num split: if_splits)
  ultimately have "d \<le> 99999999 * secs 3600" unfolding k(3) by (intro mult_le_mono) simp_all
  then have "d \<le> secs (99999999 * 3600)" by (simp add: rust_num)
  then show "0 < d" "d \<le> secs (99999999 * 3600)" "d \<le> dur_max"
    using k x by (simp_all add: rust_num)
next
  assume a: "0 < n \<and> n \<le> 99999999 \<and> (u, w) \<in> set timeout_units"
  then have u: "map_of timeout_units u = Some w" "plain_byte u"
    by (auto simp: timeout_units_def plain_byte_def)
  have "trim (show_nat n @ [u]) = show_nat n @ [u]"
    using plain_show_nat(1) [of n] u(2) by (intro trim_plain) simp_all
  moreover have "length (show_nat n) \<le> 8" using length_show_nat [of n 7] a by simp
  ultimately show "parse_grpc_timeout (show_nat n @ [u]) = Some (n * w)"
    using parse_timeout_trimmed [of "show_nat n @ [u]" "show_nat n" u] a u(1)
    by (simp add: parse_u64_show_nat rust_num)
qed

section \<open>Examples\<close>

definition two_values :: header_map where
  "two_values = no_headers (''x-a'' := [''1'', ''2''])"

theorem metadata_is_exact_witness:
  "case checked Some None None two_values (Named [''x-a'']) Client of
     Inr (md, _) \<Rightarrow> md ''x-a'' = [''1'', ''2''] | Inl _ \<Rightarrow> False"
proof -
  have names: "set (forwarded_names Some (Named [''x-a''])) = {''x-a''}" by (simp add: forwarded_names_def)
  have carried: "\<forall>v \<in> set (two_values ''x-a''). carries ''x-a'' v"
    by (simp add: two_values_def carries_def is_ascii_value_def byte_def rust_str)
  have "forwards Client ''x-a''" "\<not> is_trace_context ''x-a''"
    by (simp_all add: forwards_def is_trace_context_def owns_def is_grpc_key_def is_ascii_digit_def
        is_ascii_lowercase_def rust_str)
  moreover have "forwarded_values two_values ''x-a'' = [''1'', ''2'']"
    by (simp add: forwarded_values_def two_values_def value_parts_def)
  ultimately show ?thesis
    using metadata_is_exact [where header_name = Some and seed = None and st = None and headers = two_values
        and fwd = "Named [''x-a'']" and source = Client] names carried
    by (auto split: sum.splits prod.splits)
qed

theorem exactly_one_valid_traceparent_witness:
  "\<exists>md st tp. forward_metadata Some (Some 7) None no_headers (Named []) Client (\<lambda>_ _. None :: unit option)
     = Inr (md, st) \<and> md ''traceparent'' = [tp] \<and> is_valid_traceparent tp"
proof -
  obtain md st where "forward_metadata Some (Some 7) None no_headers (Named []) Client
      (\<lambda>_ _. None :: unit option) = Inr (md, st)"
    by (auto simp: forward_metadata_def) (metis surj_pair)
  with exactly_one_valid_traceparent [of "Some 7" None no_headers Some "Named []" Client "\<lambda>_ _. None :: unit option" md st]
  show ?thesis by (auto simp: no_headers_def header_get_def)
qed

definition tab_headers :: header_map where
  "tab_headers = no_headers (''traceparent'' :=
     [''01-11111111111111111111111111111111-1111111111111111-01-a'' @ [CHR 0x09] @ ''b''],
     ''tracestate'' := [''v=1''])"

theorem tab_in_traceparent_drops_the_trace_witness:
  "\<exists>md st. forward_metadata Some (Some 7) None tab_headers (Named []) Client (\<lambda>_ _. None :: unit option)
     = Inr (md, st) \<and> md ''traceparent'' = [] \<and> md ''tracestate'' = [''v=1'']"
proof -
  let ?tp = "''01-11111111111111111111111111111111-1111111111111111-01-a'' @ [CHR 0x09] @ ''b''"
  obtain md st where md: "forward_metadata Some (Some 7) None tab_headers (Named []) Client
      (\<lambda>_ _. None :: unit option) = Inr (md, st)"
    by (auto simp: forward_metadata_def) (metis surj_pair)
  have "header_get tab_headers ''traceparent'' = Some ?tp"
    by (simp add: tab_headers_def header_get_def)
  moreover have "to_str ?tp = Some ?tp" by (simp add: to_str_def byte_def)
  moreover have "is_valid_traceparent ?tp"
    by (simp add: is_valid_traceparent_def is_hex_def is_ascii_hexdigit_def byte_def rust_str)
  moreover have "filter is_ascii_value (tab_headers ''tracestate'') = [''v=1'']"
    by (simp add: tab_headers_def is_ascii_value_def byte_def)
  ultimately show ?thesis
    using md tab_in_traceparent_drops_the_trace [OF _ _ _ _ md, of ?tp] by simp
qed

theorem grpc_timeout_in_range_witness:
  "parse_grpc_timeout ''30S'' = Some (secs 30)"
proof -
  have "show_nat 30 @ ''S'' = ''30S''" by (simp add: show_nat.simps digit_char_def char_of_def)
  moreover have "(CHR ''S'', secs 1) \<in> set timeout_units" by (simp add: timeout_units_def)
  ultimately show ?thesis using grpc_timeout_in_range [of _ _ 30 "CHR ''S''" "secs 1"] by simp
qed

end
