(* ===== verification/Path.thy ===== *)
theory Path
  imports Headers
begin

text \<open>
  \<open>transcode/path.rs\<close>: \<open>google.api.http\<close> path templates in the form the router mounts
  them. Templates are ASCII where it matters (slashes, braces, colons and stars), so they
  are byte strings. Percent decoding and the router's own check of a path are
  parameters; reasons for a refusal are values instead of texts.
\<close>

section \<open>Templates and segments\<close>

text \<open>\<open>split_top_level\<close>: at slashes outside braces.\<close>

fun split_braces :: "nat \<Rightarrow> string \<Rightarrow> string \<Rightarrow> string list" where
  "split_braces depth cur [] = [cur]"
| "split_braces depth cur (ch # s) =
     (if ch = CHR ''{'' then split_braces (Suc depth) (cur @ [ch]) s
      else if ch = CHR ''}'' \<and> 0 < depth then split_braces (depth - 1) (cur @ [ch]) s
      else if ch = CHR ''/'' \<and> depth = 0 then cur # split_braces depth [] s
      else split_braces depth (cur @ [ch]) s)"

definition split_top_level :: "string \<Rightarrow> string list" where
  "split_top_level path = split_braces 0 [] path"

text \<open>\<open>closing_brace\<close>: the index of the brace that closes the first one.\<close>

fun closing_from :: "nat \<Rightarrow> nat \<Rightarrow> string \<Rightarrow> nat option" where
  "closing_from depth i [] = None"
| "closing_from depth i (ch # s) =
     (if ch = CHR ''{'' then closing_from (Suc depth) (Suc i) s
      else if ch = CHR ''}'' then
        (if depth = 0 then None
         else if depth = 1 then Some i
         else closing_from (depth - 1) (Suc i) s)
      else closing_from depth (Suc i) s)"

definition closing_brace :: "string \<Rightarrow> nat option" where
  "closing_brace segment = closing_from 0 0 segment"

text \<open>The text inside the braces of a whole-segment variable.\<close>

definition brace_inner :: "string \<Rightarrow> string option" where
  "brace_inner segment = Option.bind (strip_prefix ''{'' segment) (strip_suffix ''}'')"

definition field_template :: "string \<Rightarrow> string option" where
  "field_template segment =
     map_option snd (Option.bind (brace_inner segment) (split_once (CHR ''='')))"

definition is_double_wildcard :: "string \<Rightarrow> bool" where
  "is_double_wildcard segment \<longleftrightarrow> segment = ''**'' \<or> field_template segment = Some ''**''"

definition spans_segments :: "string \<Rightarrow> bool" where
  "spans_segments segment \<longleftrightarrow> segment = ''**'' \<or>
     (case field_template segment of
        Some template \<Rightarrow> CHR ''/'' \<in> set template \<or> template = ''**''
      | None \<Rightarrow> False)"

definition ends_in_double_wildcard :: "string \<Rightarrow> bool" where
  "ends_in_double_wildcard segment \<longleftrightarrow> is_double_wildcard segment \<or>
     (case field_template segment of Some template \<Rightarrow> ends_with ''/**'' template | None \<Rightarrow> False)"

text \<open>\<open>split_verb\<close>: the template without its custom verb, and the verb.\<close>

definition verb_colon :: "string \<Rightarrow> nat option" where
  "verb_colon end_seg =
     (if starts_with ''{'' end_seg then map_option Suc (closing_brace end_seg)
      else if starts_with ''**'' end_seg then Some 2
      else if starts_with ''*'' end_seg then Some 1
      else None)"

definition path_split_verb :: "string \<Rightarrow> string \<times> string option" where
  "path_split_verb template =
     (let end_seg = last (split_top_level template);
          start = length template - length end_seg
      in case verb_colon end_seg of
           Some c \<Rightarrow>
             if starts_with '':'' (drop c end_seg) \<and> c + 1 < length end_seg
             then (take (start + c) template, Some (drop (start + c) template))
             else (template, None)
         | None \<Rightarrow> (template, None))"

datatype segment = Literal string | Capture string bool

definition convert_segment :: "string \<Rightarrow> nat \<Rightarrow> bool \<Rightarrow> segment" where
  "convert_segment segment idx is_last =
     (case brace_inner segment of
        Some inner \<Rightarrow>
          (case split_once (CHR ''='') inner of
             Some (name, template) \<Rightarrow>
               if template = ''*'' then Capture name False
               else if template = ''**'' then Capture name is_last
               else if CHR ''/'' \<notin> set template then Capture name False
               else Capture name is_last
           | None \<Rightarrow> Capture inner False)
      | None \<Rightarrow>
          if segment = ''**'' then Capture (show_nat idx) is_last
          else if segment = ''*'' then Capture (show_nat idx) False
          else Literal segment)"

section \<open>Mounting a template\<close>

datatype part = PLiteral string | PCapture nat

record composite =
  field :: string
  parts :: "part list"

datatype unsupported_reason =
    NestedVariable string
  | DoubleWildcardNotLast string
  | DoubleWildcardInTemplate string
  | DoubleWildcardBeforeLast string

record mounted_path =
  axum :: string
  shape :: string
  captures :: "string list"
  unbound :: "bool list"
  multi_segment :: "bool list"
  verb :: "string option"
  empty_last :: bool
  last_template :: "string list option"
  last_segment :: nat
  unsupported :: "unsupported_reason option"
  composites :: "composite list"
  literals :: "(nat \<times> string) list"

text \<open>
  The loop of \<open>MountedPath::new\<close>: the mounted path so far, with the number of segments
  written.
\<close>

type_synonym mount_state = "mounted_path \<times> nat"

definition push_segment :: "mount_state \<Rightarrow> mount_state" where
  "push_segment st =
     (case st of (m, written) \<Rightarrow>
        (if 0 < written then m\<lparr>axum := axum m @ ''/'', shape := shape m @ ''/''\<rparr> else m, Suc written))"

definition push_capture :: "string \<Rightarrow> string \<Rightarrow> bool \<Rightarrow> bool \<Rightarrow> mounted_path \<Rightarrow> mounted_path" where
  "push_capture open_text name is_unbound multi m =
     m\<lparr>axum := axum m @ open_text @ name @ ''}'', shape := shape m @ open_text @ ''}'',
       captures := captures m @ [name], unbound := unbound m @ [is_unbound],
       multi_segment := multi_segment m @ [multi]\<rparr>"

definition push_literal :: "string \<Rightarrow> mounted_path \<Rightarrow> mounted_path" where
  "push_literal lit m = m\<lparr>axum := axum m @ lit, shape := shape m @ lit\<rparr>"

text \<open>One segment of a field template before the last segment, spelled out.\<close>

definition mount_part ::
  "string \<Rightarrow> bool \<Rightarrow> nat \<Rightarrow> string \<Rightarrow> mount_state \<times> part list \<Rightarrow> mount_state \<times> part list" where
  "mount_part fld multi k text_part acc =
     (case acc of (st, ps) \<Rightarrow>
        (let (m, written) = push_segment st;
             escaped = CHR ''%'' \<in> set text_part;
             captured = text_part = ''*'' \<or> escaped;
             m = (if captured then push_capture ''{'' (fld @ ''.'' @ show_nat k) True multi m
                  else push_literal text_part m);
             m = (if escaped
                  then m\<lparr>literals := literals m @ [(count_list (axum m) (CHR ''/''), text_part)]\<rparr>
                  else m)
         in ((m, written),
             ps @ [if captured then PCapture (length (captures m) - 1) else PLiteral text_part])))"

definition mount_composite :: "string \<Rightarrow> string \<Rightarrow> mount_state \<Rightarrow> mount_state" where
  "mount_composite fld template st =
     (let texts = split_on (CHR ''/'') template;
          multi = CHR ''/'' \<in> set template;
          ((m, written), ps) =
            fold (\<lambda>(k, p) acc. mount_part fld multi k p acc) (List.enumerate 0 texts) (st, [])
      in (m\<lparr>composites := composites m @ [\<lparr>field = fld, parts = ps\<rparr>]\<rparr>, written))"

text \<open>The variable of a field template that the path must spell out.\<close>

definition inner_template :: "string \<Rightarrow> bool \<Rightarrow> (string \<times> string) option" where
  "inner_template segment is_last =
     (case Option.bind (brace_inner segment) (split_once (CHR ''='')) of
        Some (fld, template) \<Rightarrow> if \<not> is_last \<and> template \<noteq> ''*'' then Some (fld, template) else None
      | None \<Rightarrow> None)"

definition mount_plain :: "string \<Rightarrow> nat \<Rightarrow> bool \<Rightarrow> mount_state \<Rightarrow> mount_state" where
  "mount_plain segment idx is_last st =
     (let (m, written) = push_segment st
      in case convert_segment segment idx is_last of
           Literal lit \<Rightarrow> (push_literal lit m, written)
         | Capture name catch_all \<Rightarrow>
             (push_capture (if catch_all then ''{*'' else ''{'') name
                (segment = ''*'' \<or> segment = ''**'') (catch_all \<and> spans_segments segment) m, written))"

definition mount_segment :: "nat \<Rightarrow> nat \<Rightarrow> string \<Rightarrow> mount_state \<Rightarrow> mount_state" where
  "mount_segment end_idx idx segment st =
     (let is_last = idx = end_idx;
          (m, written) = st;
          m = (if is_last then m\<lparr>last_segment := written\<rparr> else m);
          m = (case field_template segment of
                 Some t \<Rightarrow> if CHR ''{'' \<in> set t \<or> CHR ''}'' \<in> set t
                            then m\<lparr>unsupported := Some (NestedVariable segment)\<rparr> else m
               | None \<Rightarrow> m);
          m = (case field_template segment of
                 Some t \<Rightarrow> if is_last \<and> ''**'' \<in> set (butlast (split_on (CHR ''/'') t))
                            then m\<lparr>unsupported := Some (DoubleWildcardNotLast segment)\<rparr> else m
               | None \<Rightarrow> m)
      in case inner_template segment is_last of
           Some (fld, template) \<Rightarrow>
             if ''**'' \<in> set (split_on (CHR ''/'') template)
             then mount_plain segment idx is_last
                    (m\<lparr>unsupported := Some (DoubleWildcardInTemplate segment)\<rparr>, written)
             else mount_composite fld template (m, written)
         | None \<Rightarrow>
             mount_plain segment idx is_last
               (if \<not> is_last \<and> is_double_wildcard segment
                then m\<lparr>unsupported := Some (DoubleWildcardBeforeLast segment)\<rparr> else m, written))"

definition mounted_path_new :: "string \<Rightarrow> mounted_path" where
  "mounted_path_new template =
     (let (base, v) = path_split_verb template;
          segments = split_top_level base;
          end_idx = length segments - 1;
          end_seg = segments ! end_idx;
          start = \<lparr>axum = [], shape = [], captures = [], unbound = [], multi_segment = [], verb = v,
            empty_last = ends_in_double_wildcard end_seg,
            last_template =
              (case field_template end_seg of
                 Some t \<Rightarrow> if t \<noteq> ''*'' \<and> t \<noteq> ''**'' then Some (split_top_level t) else None
               | None \<Rightarrow> None),
            last_segment = 0, unsupported = None, composites = [], literals = []\<rparr>
      in fst (fold (\<lambda>(idx, segment) st. mount_segment end_idx idx segment st)
                (List.enumerate 0 segments) (start, 0)))"

section \<open>What the router can hold\<close>

datatype mount_error =
    Unsupported unsupported_reason
  | NoLeadingSlash
  | SegmentStart
  | NotWholeSegment string
  | TooManyVariables nat
  | RouterRefuses string

definition has_brace :: "string \<Rightarrow> bool" where
  "has_brace s \<longleftrightarrow> CHR ''{'' \<in> set s \<or> CHR ''}'' \<in> set s"

fun count_captures :: "nat \<Rightarrow> string list \<Rightarrow> mount_error + nat" where
  "count_captures n [] = Inr n"
| "count_captures n (segment # segments) =
     (if \<not> has_brace segment then count_captures n segments
      else case brace_inner segment of
             None \<Rightarrow> Inl (NotWholeSegment segment)
           | Some inner \<Rightarrow>
               if has_brace inner then Inl (NotWholeSegment segment)
               else count_captures (if starts_with ''{*'' segment then n else Suc n) segments)"

text \<open>\<open>matchit_insert\<close>: the router's error when the path alone is inserted into it, if any.\<close>

definition mountable :: "(string \<Rightarrow> string option) \<Rightarrow> string \<Rightarrow> mount_error option" where
  "mountable matchit_insert path =
     (if \<not> starts_with ''/'' path then Some NoLeadingSlash
      else if list_ex (\<lambda>s. starts_with '':'' s \<or> starts_with ''*'' s) (split_on (CHR ''/'') path)
      then Some SegmentStart
      else case count_captures 0 (split_on (CHR ''/'') path) of
             Inl e \<Rightarrow> Some e
           | Inr n \<Rightarrow>
               if 25 < n then Some (TooManyVariables n)
               else map_option RouterRefuses (matchit_insert path))"

definition routable :: "(string \<Rightarrow> string option) \<Rightarrow> mounted_path \<Rightarrow> mount_error option" where
  "routable matchit_insert m =
     (case unsupported m of
        Some reason \<Rightarrow> Some (Unsupported reason)
      | None \<Rightarrow> mountable matchit_insert (axum m))"

definition mounted_display :: "mounted_path \<Rightarrow> string" where
  "mounted_display m = (case verb m of None \<Rightarrow> axum m | Some v \<Rightarrow> axum m @ v)"

definition proto_path_to_axum :: "string \<Rightarrow> string" where
  "proto_path_to_axum path = axum (mounted_path_new path)"

section \<open>Decoding a variable over several segments\<close>

definition is_slash_escape :: "string \<Rightarrow> bool" where
  "is_slash_escape w \<longleftrightarrow> (case w of
     [a, b, c] \<Rightarrow> a = CHR ''%'' \<and> b = CHR ''2'' \<and> (c = CHR ''f'' \<or> c = CHR ''F'')
   | _ \<Rightarrow> False)"

text \<open>The position of the first escaped slash.\<close>

fun slash_escape_at :: "string \<Rightarrow> nat option" where
  "slash_escape_at [] = None"
| "slash_escape_at (c # s) =
     (if is_slash_escape (take 3 (c # s)) then Some 0 else map_option Suc (slash_escape_at s))"

lemma is_slash_escape_length: "is_slash_escape w \<Longrightarrow> length w = 3"
  by (auto simp: is_slash_escape_def split: list.splits)

lemma slash_escape_at_less: "slash_escape_at s = Some n \<Longrightarrow> n + 2 < length s"
proof (induction s arbitrary: n)
  case (Cons c s)
  then show ?case by (auto dest!: is_slash_escape_length split: if_splits)
qed simp

function decode_multi_segment :: "(string \<Rightarrow> string) \<Rightarrow> string \<Rightarrow> string" where
  "decode_multi_segment percent_decode rest =
     (case slash_escape_at rest of
        None \<Rightarrow> percent_decode rest
      | Some n \<Rightarrow> percent_decode (take n rest) @ take 3 (drop n rest)
                   @ decode_multi_segment percent_decode (drop (n + 3) rest))"
  by pat_completeness auto
termination
  by (relation "measure (length \<circ> snd)") (auto dest: slash_escape_at_less)

declare decode_multi_segment.simps [simp del]

section \<open>Splitting and joining\<close>

lemma split_braces_join: "join_with ''/'' (split_braces depth cur s) = cur @ s"
proof (induction depth cur s rule: split_braces.induct)
  case (2 depth cur ch s)
  have "split_braces d c r \<noteq> []" for d c r by (induction d c r rule: split_braces.induct) auto
  then have "join_with ''/'' (cur # split_braces d [] r) = cur @ ''/'' @ join_with ''/'' (split_braces d [] r)"
    for d r by (cases "split_braces d [] r") auto
  with 2 show ?case by auto
qed simp

lemma split_top_level_join: "join_with ''/'' (split_top_level path) = path"
  by (simp add: split_top_level_def split_braces_join)

lemma split_top_level_nonempty [simp]: "split_top_level path \<noteq> []"
proof -
  have "split_braces d c r \<noteq> []" for d c r by (induction d c r rule: split_braces.induct) auto
  then show ?thesis by (simp add: split_top_level_def)
qed

lemma split_braces_plain:
  "CHR ''{'' \<notin> set s \<Longrightarrow>
   split_braces 0 cur s = (case split_on (CHR ''/'') s of x # xs \<Rightarrow> (cur @ x) # xs | [] \<Rightarrow> [])"
  by (induction s arbitrary: cur) (auto split: list.splits)

lemma closing_from_bound: "closing_from depth i s = Some n \<Longrightarrow> n < i + length s"
  by (induction depth i s rule: closing_from.induct) (auto split: if_splits)


section \<open>The parts of a mounted path agree\<close>

fun segment_text :: "segment \<Rightarrow> string" where
  "segment_text (Literal l) = l"
| "segment_text (Capture name catch_all) = (if catch_all then ''{*'' else ''{'') @ name @ ''}''"

fun segment_shape :: "segment \<Rightarrow> string" where
  "segment_shape (Literal l) = l"
| "segment_shape (Capture name catch_all) = (if catch_all then ''{*'' else ''{'') @ ''}''"

fun segment_names :: "segment \<Rightarrow> string list" where
  "segment_names (Literal l) = []"
| "segment_names (Capture name catch_all) = [name]"

text \<open>A mounted path that writes the segments \<open>ws\<close>.\<close>

definition writes :: "segment list \<Rightarrow> mounted_path \<Rightarrow> bool" where
  "writes ws m \<longleftrightarrow>
     axum m = join_with ''/'' (map segment_text ws) \<and>
     shape m = join_with ''/'' (map segment_shape ws) \<and>
     captures m = concat (map segment_names ws) \<and>
     length (unbound m) = length (captures m) \<and>
     length (multi_segment m) = length (captures m)"

definition parts_ok :: "mounted_path \<Rightarrow> part list \<Rightarrow> bool" where
  "parts_ok m ps \<longleftrightarrow> (\<forall>i. PCapture i \<in> set ps \<longrightarrow> i < length (captures m) \<and> unbound m ! i)"

definition composites_ok :: "mounted_path \<Rightarrow> bool" where
  "composites_ok m \<longleftrightarrow> (\<forall>c \<in> set (composites m). parts_ok m (parts c))"

definition mount_ok :: "mount_state \<Rightarrow> bool" where
  "mount_ok st \<longleftrightarrow> (\<exists>ws. writes ws (fst st) \<and> length ws = snd st) \<and> composites_ok (fst st)"

lemma writes_capture:
  assumes "writes ws m" "length ws = written"
  shows "writes (ws @ [Capture name ca])
    (push_capture (if ca then ''{*'' else ''{'') name u mu (fst (push_segment (m, written))))"
  using assms by (auto simp: writes_def push_segment_def push_capture_def join_with_snoc)

lemma writes_literal:
  assumes "writes ws m" "length ws = written"
  shows "writes (ws @ [Literal l]) (push_literal l (fst (push_segment (m, written))))"
  using assms by (auto simp: writes_def push_segment_def push_literal_def join_with_snoc)

lemma parts_ok_capture:
  "length (unbound m) = length (captures m) \<Longrightarrow> parts_ok m ps \<Longrightarrow>
   parts_ok (push_capture opn name u mu (fst (push_segment (m, written)))) ps"
  by (auto simp: parts_ok_def push_capture_def push_segment_def nth_append)

lemma parts_ok_literal:
  "parts_ok m ps \<Longrightarrow> parts_ok (push_literal l (fst (push_segment (m, written)))) ps"
  by (auto simp: parts_ok_def push_literal_def push_segment_def)

lemma composites_push [simp]:
  "composites (push_capture opn name u mu m) = composites m"
  "composites (push_literal l m) = composites m"
  "composites (fst (push_segment (m, w))) = composites m"
  by (simp_all add: push_capture_def push_literal_def push_segment_def)

lemma snd_push_segment [simp]: "snd (push_segment (m, w)) = Suc w"
  by (simp add: push_segment_def)

lemma mount_ok_step:
  assumes "mount_ok (m, w)"
  shows "mount_ok (push_capture (if ca then ''{*'' else ''{'') name u mu (fst (push_segment (m, w))), Suc w)"
    and "mount_ok (push_literal l (fst (push_segment (m, w))), Suc w)"
proof -
  obtain ws where ws: "writes ws m" "length ws = w" using assms by (auto simp: mount_ok_def)
  have comp: "composites_ok m" using assms by (simp add: mount_ok_def)
  have len: "length (unbound m) = length (captures m)" using ws(1) by (simp add: writes_def)
  have "composites_ok (push_capture (if ca then ''{*'' else ''{'') name u mu (fst (push_segment (m, w))))"
    unfolding composites_ok_def composites_push
    using comp parts_ok_capture [OF len] by (simp add: composites_ok_def)
  then show "mount_ok (push_capture (if ca then ''{*'' else ''{'') name u mu (fst (push_segment (m, w))), Suc w)"
    unfolding mount_ok_def fst_conv snd_conv
    by (intro conjI exI [of _ "ws @ [Capture name ca]"] writes_capture [OF ws]) (simp add: ws(2))
  have "composites_ok (push_literal l (fst (push_segment (m, w))))"
    unfolding composites_ok_def composites_push
    using comp parts_ok_literal by (simp add: composites_ok_def)
  then show "mount_ok (push_literal l (fst (push_segment (m, w))), Suc w)"
    unfolding mount_ok_def fst_conv snd_conv
    by (intro conjI exI [of _ "ws @ [Literal l]"] writes_literal [OF ws]) (simp add: ws(2))
qed

text \<open>Changes of the fields that \<open>mount_ok\<close> does not read.\<close>

lemma mount_ok_other [simp]:
  "mount_ok (m\<lparr>last_segment := x\<rparr>, w) = mount_ok (m, w)"
  "mount_ok (m\<lparr>unsupported := y\<rparr>, w) = mount_ok (m, w)"
  "mount_ok (m\<lparr>literals := z\<rparr>, w) = mount_ok (m, w)"
  by (simp_all add: mount_ok_def writes_def composites_ok_def parts_ok_def)

lemma parts_ok_literals [simp]: "parts_ok (m\<lparr>literals := z\<rparr>) ps = parts_ok m ps"
  by (simp add: parts_ok_def)

lemma mount_part_ok:
  assumes "mount_ok (m, w)" "parts_ok m ps" "mount_part fld multi k txt ((m, w), ps) = (st, ps')"
  shows "mount_ok st \<and> parts_ok (fst st) ps'"
proof -
  have len: "length (unbound m) = length (captures m)" using assms(1) by (auto simp: mount_ok_def writes_def)
  obtain m1 where m1: "push_segment (m, w) = (m1, Suc w)" "m1 = fst (push_segment (m, w))"
    by (cases "push_segment (m, w)") (simp add: push_segment_def)
  have cap: "mount_ok (push_capture ''{'' (fld @ ''.'' @ show_nat k) True multi m1, Suc w)"
    using mount_ok_step(1) [OF assms(1), of False] m1(2) by simp
  have lit: "mount_ok (push_literal txt m1, Suc w)" using mount_ok_step(2) [OF assms(1)] m1(2) by simp
  have ps: "parts_ok (push_capture ''{'' (fld @ ''.'' @ show_nat k) True multi m1) ps"
    "parts_ok (push_literal txt m1) ps"
    using parts_ok_capture [OF len assms(2)] parts_ok_literal [OF assms(2)] m1(2) by auto
  have "length (unbound m1) = length (captures m1)" using len m1 by (auto simp: push_segment_def split: if_splits)
  then have new: "parts_ok (push_capture ''{'' (fld @ ''.'' @ show_nat k) True multi m1)
      [PCapture (length (captures (push_capture ''{'' (fld @ ''.'' @ show_nat k) True multi m1)) - 1)]"
    by (simp add: parts_ok_def push_capture_def nth_append)
  show ?thesis
    using assms(3) cap lit ps new
    by (auto simp: mount_part_def m1(1) Let_def parts_ok_def split: if_splits)
qed

lemma mount_parts_ok:
  assumes "mount_ok st" "parts_ok (fst st) ps"
    and "fold (\<lambda>(k, p) acc. mount_part fld multi k p acc) kps (st, ps) = (st', ps')"
  shows "mount_ok st' \<and> parts_ok (fst st') ps'"
  using assms
proof (induction kps arbitrary: st ps)
  case (Cons kp kps)
  obtain k p m w where kp: "kp = (k, p)" "st = (m, w)" by (cases kp; cases st)
  obtain st1 ps1 where step: "mount_part fld multi k p ((m, w), ps) = (st1, ps1)"
    by (cases "mount_part fld multi k p ((m, w), ps)")
  from mount_part_ok [OF _ _ step] Cons.prems kp have "mount_ok st1" "parts_ok (fst st1) ps1" by auto
  from Cons.IH [OF this] Cons.prems(3) kp step show ?case by simp
qed simp

lemma mount_composite_ok: "mount_ok st \<Longrightarrow> mount_ok (mount_composite fld template st)"
proof -
  assume ok: "mount_ok st"
  let ?run = "fold (\<lambda>(k, p) acc. mount_part fld (CHR ''/'' \<in> set template) k p acc)
      (List.enumerate 0 (split_on (CHR ''/'') template)) (st, [])"
  obtain m w ps where run: "?run = ((m, w), ps)" by (cases ?run) auto
  have "parts_ok (fst st) []" by (simp add: parts_ok_def)
  from mount_parts_ok [OF ok this run] have "mount_ok (m, w)" "parts_ok m ps" by simp_all
  then have "mount_ok (m\<lparr>composites := composites m @ [\<lparr>field = fld, parts = ps\<rparr>]\<rparr>, w)"
    by (auto simp: mount_ok_def writes_def composites_ok_def parts_ok_def)
  then show ?thesis by (simp add: mount_composite_def Let_def run)
qed

lemma mount_plain_ok: "mount_ok st \<Longrightarrow> mount_ok (mount_plain segment idx is_last st)"
proof -
  assume ok: "mount_ok st"
  obtain m w where st: "st = (m, w)" by (cases st)
  obtain m1 where m1: "push_segment (m, w) = (m1, Suc w)" "m1 = fst (push_segment (m, w))"
    by (cases "push_segment (m, w)") (simp add: push_segment_def)
  show ?thesis
    using mount_ok_step [OF ok [unfolded st]] unfolding m1(2) [symmetric]
    by (simp add: mount_plain_def st m1(1) Let_def split: segment.split)
qed

lemma mount_segment_ok: "mount_ok st \<Longrightarrow> mount_ok (mount_segment end_idx idx segment st)"
  by (cases st)
    (auto simp: mount_segment_def Let_def split: option.split intro!: mount_plain_ok mount_composite_ok)

text \<open>The escaped literals come in path order, each at the slashes before it.\<close>

definition lits_ok :: "mount_state \<Rightarrow> bool" where
  "lits_ok st \<longleftrightarrow> sorted_wrt (<) (map fst (literals (fst st)))
     \<and> (\<forall>x \<in> set (literals (fst st)). fst x \<le> count_list (axum (fst st)) (CHR ''/''))
     \<and> (literals (fst st) \<noteq> [] \<longrightarrow> 0 < snd st)"

lemma count_list_append: "count_list (xs @ ys) x = count_list xs x + count_list ys x"
  by (induction xs) auto

lemma literals_push [simp]:
  "literals (push_capture opn name u mu m) = literals m"
  "literals (push_literal l m) = literals m"
  "literals (fst (push_segment (m, w))) = literals m"
  by (simp_all add: push_capture_def push_literal_def push_segment_def)

definition lits_below :: "mounted_path \<Rightarrow> bool" where
  "lits_below m \<longleftrightarrow> sorted_wrt (<) (map fst (literals m))
     \<and> (\<forall>x \<in> set (literals m). fst x < count_list (axum m) (CHR ''/''))"

lemma lits_step:
  assumes "lits_ok (m, w)"
  shows "lits_below (push_capture opn name u mu (fst (push_segment (m, w))))"
    and "lits_below (push_literal l (fst (push_segment (m, w))))"
  using assms
  by (auto simp: lits_ok_def lits_below_def push_capture_def push_literal_def push_segment_def count_list_append)

lemma lits_below_ok: "lits_below m \<Longrightarrow> lits_ok (m, Suc w)"
  by (force simp: lits_ok_def lits_below_def)

lemma lits_below_append:
  "lits_below m \<Longrightarrow> lits_ok (m\<lparr>literals := literals m @ [(count_list (axum m) (CHR ''/''), t)]\<rparr>, Suc w)"
  by (force simp: lits_ok_def lits_below_def sorted_wrt_append)

lemma lits_ok_other [simp]:
  "lits_ok (m\<lparr>last_segment := x\<rparr>, w) = lits_ok (m, w)"
  "lits_ok (m\<lparr>unsupported := y\<rparr>, w) = lits_ok (m, w)"
  "lits_ok (m\<lparr>composites := z\<rparr>, w) = lits_ok (m, w)"
  by (simp_all add: lits_ok_def)

lemma mount_part_lits:
  assumes "lits_ok (m, w)"
  shows "lits_ok (fst (mount_part fld multi k txt ((m, w), ps)))"
proof -
  obtain m1 where m1: "push_segment (m, w) = (m1, Suc w)" "m1 = fst (push_segment (m, w))"
    by (cases "push_segment (m, w)") (simp add: push_segment_def)
  have below: "lits_below (push_capture opn name u mu m1)" "lits_below (push_literal l m1)" for opn name u mu l
    using lits_step [OF assms] m1(2) by simp_all
  show ?thesis
    using lits_below_append [OF below(1)] lits_below_ok [OF below(1)] lits_below_ok [OF below(2)]
    by (simp add: mount_part_def m1(1) Let_def)
qed

lemma mount_composite_lits: "lits_ok st \<Longrightarrow> lits_ok (mount_composite fld template st)"
proof -
  assume ok: "lits_ok st"
  have "lits_ok (fst (fold (\<lambda>(k, p) acc. mount_part fld mu k p acc) kps acc))" if "lits_ok (fst acc)" for mu kps acc
    using that
  proof (induction kps arbitrary: acc)
    case (Cons kp kps)
    obtain m w ps where "acc = ((m, w), ps)" by (cases acc) auto
    with Cons mount_part_lits show ?case by (cases kp) auto
  qed simp
  note loop = this
  let ?run = "fold (\<lambda>(k, p) acc. mount_part fld (CHR ''/'' \<in> set template) k p acc)
      (List.enumerate 0 (split_on (CHR ''/'') template)) (st, [])"
  obtain m w ps where run: "?run = ((m, w), ps)" by (cases ?run) auto
  have "lits_ok (fst ?run)" using ok by (intro loop) simp
  then show ?thesis by (simp add: mount_composite_def Let_def run)
qed

lemma mount_plain_lits: "lits_ok st \<Longrightarrow> lits_ok (mount_plain segment idx is_last st)"
proof -
  assume ok: "lits_ok st"
  obtain m w where st: "st = (m, w)" by (cases st)
  obtain m1 where m1: "push_segment (m, w) = (m1, Suc w)" "m1 = fst (push_segment (m, w))"
    by (cases "push_segment (m, w)") (simp add: push_segment_def)
  have "lits_below (push_capture opn name u mu m1)" "lits_below (push_literal l m1)" for opn name u mu l
    using lits_step [OF ok [unfolded st]] m1(2) by simp_all
  then show ?thesis
    by (simp add: mount_plain_def st m1(1) Let_def lits_below_ok split: segment.split)
qed

lemma mount_segment_lits: "lits_ok st \<Longrightarrow> lits_ok (mount_segment end_idx idx segment st)"
  by (cases st)
    (auto simp: mount_segment_def Let_def split: option.split intro!: mount_plain_lits mount_composite_lits)

text \<open>What a mounted path keeps.\<close>

lemma mounted_path_ok:
  "\<exists>n. mount_ok (mounted_path_new template, n) \<and> lits_ok (mounted_path_new template, n)"
proof -
  have fold: "mount_ok (fold (\<lambda>(idx, segment) st. mount_segment e idx segment st) xs st)
      \<and> lits_ok (fold (\<lambda>(idx, segment) st. mount_segment e idx segment st) xs st)"
    if "mount_ok st" "lits_ok st" for e xs st
    using that
  proof (induction xs arbitrary: st)
    case (Cons x xs)
    then show ?case by (cases x) (simp add: mount_segment_ok mount_segment_lits)
  qed simp
  have start: "mount_ok (\<lparr>axum = [], shape = [], captures = [], unbound = [], multi_segment = [], verb = v,
      empty_last = b, last_template = t, last_segment = 0, unsupported = None, composites = [], literals = []\<rparr>, 0)"
    "lits_ok (\<lparr>axum = [], shape = [], captures = [], unbound = [], multi_segment = [], verb = v,
      empty_last = b, last_template = t, last_segment = 0, unsupported = None, composites = [], literals = []\<rparr>, 0)"
    for v b t
    by (auto simp: mount_ok_def writes_def composites_ok_def lits_ok_def intro: exI [of _ "[]"])
  have fold': "\<exists>n. mount_ok (fst (fold (\<lambda>(idx, segment) st. mount_segment e idx segment st) xs st), n)
      \<and> lits_ok (fst (fold (\<lambda>(idx, segment) st. mount_segment e idx segment st) xs st), n)"
    if "mount_ok st" "lits_ok st" for e xs st
    using fold [OF that] by (metis prod.collapse)
  obtain base v where split: "path_split_verb template = (base, v)" by (cases "path_split_verb template")
  show ?thesis
    unfolding mounted_path_new_def Let_def split prod.case
    by (rule fold' [OF start])
qed

text \<open>
  C21. The parts of a mounted path describe one and the same route: there is one list of
  segments, literals and captures, that the router path writes out, that the shape
  writes out with the captures unnamed, and whose captures are the capture names in
  order; the two flags of a capture exist for each of them, and a field put together
  from several captures refers only to captures of the path that bind no field of
  their own. The escaped literals come in strictly increasing path order.
\<close>

theorem mounted_path_is_consistent:
  "\<exists>ws. writes ws (mounted_path_new template) \<and> composites_ok (mounted_path_new template)
     \<and> sorted_wrt (<) (map fst (literals (mounted_path_new template)))"
  using mounted_path_ok [of template] by (auto simp: mount_ok_def lits_ok_def)

section \<open>Example\<close>


end
