(* ===== verification/Route_Index.thy ===== *)
theory Route_Index
  imports Headers
begin

text \<open>
  The index of \<open>transcode/table.rs\<close> that ranks router paths: a trie over path segments in
  a vector of nodes. It is shown to list exactly the inserted paths a request matches, a
  literal before a variable before a catch-all at the first segment where two differ.
\<close>

section \<open>The trie\<close>

record node =
  node_literals :: "(string \<times> nat) list"
  node_variable :: "nat option"
  node_rest :: "nat option"
  node_table :: "nat option"

definition node_default :: node where
  "node_default = \<lparr>node_literals = [], node_variable = None, node_rest = None, node_table = None\<rparr>"

record index =
  nodes :: "node list"
  empty_last_ok :: bool

text \<open>\<open>empty_last_matches\<close> asks the router, so its answer is an argument.\<close>

definition index_new :: "bool \<Rightarrow> index" where
  "index_new empty_last_matches = \<lparr>nodes = [node_default], empty_last_ok = empty_last_matches\<rparr>"

text \<open>The child of a node under a segment of a router path, made where there is none.\<close>

definition variable_child :: "nat \<Rightarrow> index \<Rightarrow> nat \<times> index" where
  "variable_child n ix =
     (let next = length (nodes ix)
      in case node_variable (nodes ix ! n) of
           Some c \<Rightarrow> (c, ix)
         | None \<Rightarrow>
             (next, ix\<lparr>nodes := (nodes ix)[n := (nodes ix ! n)\<lparr>node_variable := Some next\<rparr>] @ [node_default]\<rparr>))"

definition literal_child :: "string \<Rightarrow> nat \<Rightarrow> index \<Rightarrow> nat \<times> index" where
  "literal_child segment n ix =
     (let next = length (nodes ix)
      in case map_of (node_literals (nodes ix ! n)) segment of
           Some c \<Rightarrow> (c, ix)
         | None \<Rightarrow>
             (next, ix\<lparr>nodes := (nodes ix)[n := (nodes ix ! n)
                \<lparr>node_literals := (segment, next) # node_literals (nodes ix ! n)\<rparr>] @ [node_default]\<rparr>))"

text \<open>
  \<open>Index::slot\<close>: the node where a path ends, and whether it ends in a catch-all there;
  together they name the slot that holds the path's table.
\<close>

fun slot_walk :: "string list \<Rightarrow> nat \<Rightarrow> index \<Rightarrow> index \<times> nat \<times> bool" where
  "slot_walk [] n ix = (ix, n, False)"
| "slot_walk (segment # segments) n ix =
     (if starts_with ''{*'' segment then (ix, n, True)
      else let (child, ix') =
             (if starts_with ''{'' segment then variable_child n ix else literal_child segment n ix)
           in slot_walk segments child ix')"

definition path_segments :: "string \<Rightarrow> string list" where
  "path_segments path =
     split_on (CHR ''/'') (case strip_prefix ''/'' path of Some p \<Rightarrow> p | None \<Rightarrow> path)"

definition slot :: "string \<Rightarrow> index \<Rightarrow> index \<times> nat \<times> bool" where
  "slot path ix = slot_walk (path_segments path) 0 ix"

definition slot_get :: "index \<Rightarrow> nat \<Rightarrow> bool \<Rightarrow> nat option" where
  "slot_get ix n rest = (if rest then node_rest (nodes ix ! n) else node_table (nodes ix ! n))"

definition slot_set :: "index \<Rightarrow> nat \<Rightarrow> bool \<Rightarrow> nat \<Rightarrow> index" where
  "slot_set ix n rest t =
     ix\<lparr>nodes := (nodes ix)[n := (if rest then (nodes ix ! n)\<lparr>node_rest := Some t\<rparr>
                                  else (nodes ix ! n)\<lparr>node_table := Some t\<rparr>)]\<rparr>"

definition index_insert :: "string \<Rightarrow> nat \<Rightarrow> index \<Rightarrow> index" where
  "index_insert path t ix = (case slot path ix of (ix', n, rest) \<Rightarrow> slot_set ix' n rest t)"

text \<open>\<open>Index::holds\<close>: whole-segment literals and variables, and a catch-all only last.\<close>

definition segment_variable :: "string \<Rightarrow> string option" where
  "segment_variable segment = Option.bind (strip_prefix ''{'' segment) (strip_suffix ''}'')"

definition braces_in :: "string \<Rightarrow> bool" where
  "braces_in s \<longleftrightarrow> CHR ''{'' \<in> set s \<or> CHR ''}'' \<in> set s"

fun holds_segments :: "string list \<Rightarrow> bool" where
  "holds_segments [] = True"
| "holds_segments (segment # segments) =
     (case segment_variable segment of
        Some name \<Rightarrow>
          if starts_with ''*'' name \<and> segments \<noteq> [] then False
          else if braces_in name then False
          else holds_segments segments
      | None \<Rightarrow> if braces_in segment then False else holds_segments segments)"

definition holds :: "string \<Rightarrow> bool" where
  "holds path =
     (case strip_prefix ''/'' path of
        None \<Rightarrow> False
      | Some p \<Rightarrow> holds_segments (split_on (CHR ''/'') p))"

text \<open>The next segment of a path and what follows it.\<close>

definition next_segment :: "string \<Rightarrow> string \<times> string option" where
  "next_segment rest =
     (case split_once (CHR ''/'') rest of
        Some (segment, tail) \<Rightarrow> (segment, Some tail)
      | None \<Rightarrow> (rest, None))"

definition rest_size :: "string option \<Rightarrow> nat" where
  "rest_size r = (case r of None \<Rightarrow> 0 | Some s \<Rightarrow> Suc (length s))"

lemma next_segment_size: "next_segment rest = (segment, tail) \<Longrightarrow> rest_size tail < rest_size (Some rest)"
  by (auto simp: next_segment_def rest_size_def dest!: split_onceD split: option.splits)

text \<open>\<open>Index::visit\<close>: the tables handed to \<open>found\<close>, in order.\<close>

function visit :: "index \<Rightarrow> nat \<Rightarrow> string option \<Rightarrow> nat list" where
  "visit ix n None = (case node_table (nodes ix ! n) of Some t \<Rightarrow> [t] | None \<Rightarrow> [])"
| "visit ix n (Some rest) =
     (let (segment, tail) = next_segment rest; node = nodes ix ! n
      in (case map_of (node_literals node) segment of
            Some next \<Rightarrow> visit ix next tail | None \<Rightarrow> [])
         @ (case node_variable node of
              Some next \<Rightarrow> if segment \<noteq> [] \<or> tail \<noteq> None \<or> empty_last_ok ix then visit ix next tail else []
            | None \<Rightarrow> [])
         @ (case node_rest node of Some t \<Rightarrow> if rest \<noteq> [] then [t] else [] | None \<Rightarrow> []))"
  by pat_completeness auto
termination
  by (relation "measure (\<lambda>(ix, n, rest). rest_size rest)") (auto dest!: next_segment_size [OF sym])

declare visit.simps(2) [simp del]

definition each :: "index \<Rightarrow> string \<Rightarrow> nat list" where
  "each ix path =
     (case strip_prefix ''/'' path of Some rest \<Rightarrow> visit ix 0 (Some rest) | None \<Rightarrow> [])"

text \<open>\<open>Index::first\<close> breaks at the first table.\<close>

definition index_first :: "index \<Rightarrow> string \<Rightarrow> nat option" where
  "index_first ix path = (case each ix path of [] \<Rightarrow> None | t # _ \<Rightarrow> Some t)"

section \<open>Paths as patterns\<close>

datatype pseg = PLit string | PVar

text \<open>The segments of a router path, and whether it ends in a catch-all.\<close>

type_synonym pattern = "pseg list \<times> bool"

fun pattern_of_segments :: "string list \<Rightarrow> pattern" where
  "pattern_of_segments [] = ([], False)"
| "pattern_of_segments (segment # segments) =
     (if starts_with ''{*'' segment then ([], True)
      else apfst (Cons (if starts_with ''{'' segment then PVar else PLit segment))
             (pattern_of_segments segments))"

definition pattern_of :: "string \<Rightarrow> pattern" where
  "pattern_of path = pattern_of_segments (path_segments path)"

text \<open>When the segments of a request match a pattern.\<close>

fun pmatch :: "bool \<Rightarrow> pseg list \<Rightarrow> bool \<Rightarrow> string list \<Rightarrow> bool" where
  "pmatch el [] False segs \<longleftrightarrow> segs = []"
| "pmatch el [] True segs \<longleftrightarrow> segs \<noteq> [] \<and> segs \<noteq> [[]]"
| "pmatch el (p # ps) c [] \<longleftrightarrow> False"
| "pmatch el (PLit l # ps) c (s # segs) \<longleftrightarrow> s = l \<and> pmatch el ps c segs"
| "pmatch el (PVar # ps) c (s # segs) \<longleftrightarrow> (s \<noteq> [] \<or> segs \<noteq> [] \<or> el) \<and> pmatch el ps c segs"

text \<open>The ranking: a literal before a variable before a catch-all, where two first differ.\<close>

fun ranked_before :: "pseg list \<Rightarrow> pseg list \<Rightarrow> bool" where
  "ranked_before (PLit a # p) (PLit b # q) \<longleftrightarrow> a = b \<and> ranked_before p q"
| "ranked_before (PVar # p) (PVar # q) \<longleftrightarrow> ranked_before p q"
| "ranked_before (PLit a # p) (PVar # q) \<longleftrightarrow> True"
| "ranked_before (PVar # p) (PLit b # q) \<longleftrightarrow> False"
| "ranked_before (a # p) [] \<longleftrightarrow> True"
| "ranked_before [] q \<longleftrightarrow> False"

section \<open>Navigation\<close>

definition child :: "index \<Rightarrow> nat \<Rightarrow> pseg \<Rightarrow> nat option" where
  "child ix n e = (case e of PLit l \<Rightarrow> map_of (node_literals (nodes ix ! n)) l | PVar \<Rightarrow> node_variable (nodes ix ! n))"

fun nav :: "index \<Rightarrow> nat \<Rightarrow> pseg list \<Rightarrow> nat option" where
  "nav ix n [] = Some n"
| "nav ix n (e # es) = (case child ix n e of Some c \<Rightarrow> nav ix c es | None \<Rightarrow> None)"

definition index_lookup :: "index \<Rightarrow> pattern \<Rightarrow> nat option" where
  "index_lookup ix p = (case nav ix 0 (fst p) of Some n \<Rightarrow> slot_get ix n (snd p) | None \<Rightarrow> None)"

text \<open>The nodes form a tree: children come after their parent, and have only one.\<close>

definition index_wf :: "index \<Rightarrow> bool" where
  "index_wf ix \<longleftrightarrow> 0 < length (nodes ix) \<and>
     (\<forall>n e c. n < length (nodes ix) \<longrightarrow> child ix n e = Some c \<longrightarrow> n < c \<and> c < length (nodes ix)) \<and>
     (\<forall>n e n' e' c. n < length (nodes ix) \<longrightarrow> n' < length (nodes ix) \<longrightarrow>
        child ix n e = Some c \<longrightarrow> child ix n' e' = Some c \<longrightarrow> n = n' \<and> e = e')"

lemma wf_root: "index_wf ix \<Longrightarrow> 0 < length (nodes ix)"
  by (simp add: index_wf_def)

lemma wf_child:
  "index_wf ix \<Longrightarrow> child ix n e = Some c \<Longrightarrow> n < length (nodes ix) \<Longrightarrow> n < c \<and> c < length (nodes ix)"
  unfolding index_wf_def by blast

lemma wf_parent:
  "index_wf ix \<Longrightarrow> child ix n e = Some c \<Longrightarrow> child ix n' e' = Some c \<Longrightarrow>
   n < length (nodes ix) \<Longrightarrow> n' < length (nodes ix) \<Longrightarrow> n = n' \<and> e = e'"
  unfolding index_wf_def by blast

lemma nav_append: "nav ix n (ps @ qs) = (case nav ix n ps of Some m \<Rightarrow> nav ix m qs | None \<Rightarrow> None)"
  by (induction ps arbitrary: n) (auto split: option.split)

lemma nav_bound:
  "index_wf ix \<Longrightarrow> n < length (nodes ix) \<Longrightarrow> nav ix n ps = Some m \<Longrightarrow> n \<le> m \<and> m < length (nodes ix)"
proof (induction ps arbitrary: n)
  case (Cons e es)
  from Cons.prems(3) obtain c where c: "child ix n e = Some c" "nav ix c es = Some m"
    by (auto split: option.splits)
  have "n < c" "c < length (nodes ix)" using wf_child [OF Cons.prems(1) c(1) Cons.prems(2)] by auto
  with Cons.IH [OF Cons.prems(1) _ c(2)] show ?case by simp
qed simp

lemma nav_inj:
  assumes "index_wf ix"
  shows "nav ix 0 ps = Some m \<Longrightarrow> nav ix 0 qs = Some m \<Longrightarrow> ps = qs"
proof (induction ps arbitrary: qs m rule: rev_induct)
  case Nil
  show ?case
  proof (cases qs rule: rev_cases)
    case (snoc rs e)
    with Nil obtain k where k: "nav ix 0 rs = Some k" "child ix k e = Some 0"
      by (auto simp: nav_append split: option.splits)
    then show ?thesis
      using nav_bound [OF assms wf_root [OF assms] k(1)] wf_child [OF assms k(2)] by simp
  qed simp
next
  case (snoc e ps)
  then obtain k where k: "nav ix 0 ps = Some k" "child ix k e = Some m"
    by (auto simp: nav_append split: option.splits)
  have kb: "k < length (nodes ix)" using nav_bound [OF assms wf_root [OF assms] k(1)] by simp
  show ?case
  proof (cases qs rule: rev_cases)
    case Nil
    then have "m = 0" using snoc.prems by simp
    then show ?thesis using wf_child [OF assms k(2) kb] by simp
  next
    case (snoc rs f)
    with \<open>nav ix 0 qs = Some m\<close> obtain j where j: "nav ix 0 rs = Some j" "child ix j f = Some m"
      by (auto simp: nav_append split: option.splits)
    have "j < length (nodes ix)" using nav_bound [OF assms wf_root [OF assms] j(1)] by simp
    then have "k = j" "e = f" using wf_parent [OF assms k(2) j(2) kb] by auto
    with snoc j(1) snoc.IH [OF k(1)] show ?thesis by simp
  qed
qed

subsection \<open>A new child\<close>

text \<open>\<open>ix'\<close> is \<open>ix\<close> with a new leaf under the edge \<open>e\<close> of node \<open>n\<close>.\<close>

definition grown :: "index \<Rightarrow> nat \<Rightarrow> pseg \<Rightarrow> index \<Rightarrow> bool" where
  "grown ix n e ix' \<longleftrightarrow>
     length (nodes ix') = Suc (length (nodes ix)) \<and> empty_last_ok ix' = empty_last_ok ix \<and>
     (\<forall>k f. k < length (nodes ix) \<longrightarrow>
        child ix' k f = (if k = n \<and> f = e then Some (length (nodes ix)) else child ix k f)) \<and>
     (\<forall>f. child ix' (length (nodes ix)) f = None) \<and>
     (\<forall>k b. k < length (nodes ix) \<longrightarrow> slot_get ix' k b = slot_get ix k b) \<and>
     (\<forall>b. slot_get ix' (length (nodes ix)) b = None)"

lemma grown_variable:
  assumes "n < length (nodes ix)" "node_variable (nodes ix ! n) = None"
  shows "grown ix n PVar (snd (variable_child n ix))"
  using assms
  by (auto simp: grown_def variable_child_def child_def slot_get_def nth_append nth_list_update
      node_default_def Let_def split: pseg.splits)

lemma grown_literal:
  assumes "n < length (nodes ix)" "map_of (node_literals (nodes ix ! n)) l = None"
  shows "grown ix n (PLit l) (snd (literal_child l n ix))"
  using assms
  by (auto simp: grown_def literal_child_def child_def slot_get_def nth_append nth_list_update
      node_default_def Let_def split: pseg.splits)

lemma grown_wf:
  assumes "grown ix n e ix'" "index_wf ix" "n < length (nodes ix)" "child ix n e = None"
  shows "index_wf ix'"
proof -
  let ?L = "length (nodes ix)"
  have len: "length (nodes ix') = Suc ?L" using assms(1) by (simp add: grown_def)
  have ch: "child ix' k f = (if k = n \<and> f = e then Some ?L else if k = ?L then None else child ix k f)"
    if "k < Suc ?L" for k f
    using assms(1,3) that by (auto simp: grown_def less_Suc_eq)
  have old: "k < c \<and> c < ?L" if "child ix k f = Some c" "k < ?L" for k f c
    using wf_child [OF assms(2) that] .
  have edge: "if c = ?L then k = n \<and> f = e else k < ?L \<and> child ix k f = Some c"
    if "k < Suc ?L" "child ix' k f = Some c" for k f c
    using that old [of k f c] ch [of k f] by (auto split: if_splits)
  have parent: "k = n' \<and> f = f'"
    if "k < Suc ?L" "n' < Suc ?L" "child ix' k f = Some c" "child ix' n' f' = Some c" for k f n' f' c
  proof (cases "c = ?L")
    case True
    then show ?thesis using edge [OF that(1,3)] edge [OF that(2,4)] by simp
  next
    case False
    then show ?thesis
      using edge [OF that(1,3)] edge [OF that(2,4)] wf_parent [OF assms(2), of k f c n' f'] by simp
  qed
  have after: "k < c \<and> c < Suc ?L" if "k < Suc ?L" "child ix' k f = Some c" for k f c
    using that old [of k f c] assms(3) ch [of k f] by (auto split: if_splits)
  show ?thesis unfolding index_wf_def len 
    using parent after by (intro conjI allI impI) (rule zero_less_Suc, blast+)
qed

lemma grown_nav:
  assumes "grown ix n e ix'" "index_wf ix" "n < length (nodes ix)"
  shows "k < length (nodes ix) \<Longrightarrow>
    (case nav ix k ps of
       Some m \<Rightarrow> child ix n e = None \<longrightarrow> nav ix' k ps = Some m
     | None \<Rightarrow> nav ix' k ps = None \<or> nav ix' k ps = Some (length (nodes ix)))"
proof (induction ps arbitrary: k)
  case (Cons f fs)
  let ?L = "length (nodes ix)"
  have leaf: "nav ix' ?L gs = None \<or> nav ix' ?L gs = Some ?L" for gs
    using assms(1) by (cases gs) (simp_all add: grown_def)
  have ch: "child ix' k f = (if k = n \<and> f = e then Some ?L else child ix k f)"
    using assms(1) Cons.prems by (simp add: grown_def)
  show ?case
  proof (cases "k = n \<and> f = e")
    case True
    then show ?thesis using ch leaf [of fs] by (auto split: option.split)
  next
    case False
    then show ?thesis
    proof (cases "child ix k f")
      case None
      then show ?thesis using ch False by auto
    next
      case (Some c)
      have "c < ?L" using wf_child [OF assms(2) Some Cons.prems] by simp
      with Cons.IH [OF this] Some ch False show ?thesis by (auto split: option.splits)
    qed
  qed
qed simp

lemma grown_lookup:
  assumes "grown ix n e ix'" "index_wf ix" "n < length (nodes ix)" "child ix n e = None"
  shows "index_lookup ix' p = index_lookup ix p"
proof -
  have 0: "0 < length (nodes ix)" by (rule wf_root [OF assms(2)])
  have slots: "slot_get ix' k b = slot_get ix k b" if "k < length (nodes ix)" for k b
    using assms(1) that by (simp add: grown_def)
  have leaf: "slot_get ix' (length (nodes ix)) b = None" for b using assms(1) by (simp add: grown_def)
  show ?thesis
  proof (cases "nav ix 0 (fst p)")
    case None
    then show ?thesis
      using grown_nav [OF assms(1-3) 0, of "fst p"] leaf by (auto simp: index_lookup_def)
  next
    case (Some m)
    then have "m < length (nodes ix)" using nav_bound [OF assms(2) 0] by blast
    with Some show ?thesis
      using grown_nav [OF assms(1-3) 0, of "fst p"] assms(4) slots by (auto simp: index_lookup_def)
  qed
qed

subsection \<open>Insertion\<close>

text \<open>What making a path keeps: the tree, every path already there, and every table.\<close>

definition extends :: "index \<Rightarrow> index \<Rightarrow> bool" where
  "extends ix ix' \<longleftrightarrow> index_wf ix' \<and> length (nodes ix) \<le> length (nodes ix') \<and>
     empty_last_ok ix' = empty_last_ok ix \<and>
     (\<forall>p. index_lookup ix' p = index_lookup ix p) \<and>
     (\<forall>k ps m. k < length (nodes ix) \<longrightarrow> nav ix k ps = Some m \<longrightarrow> nav ix' k ps = Some m)"

lemma extends_refl: "index_wf ix \<Longrightarrow> extends ix ix"
  by (simp add: extends_def)

lemma extends_trans: "extends ix ix' \<Longrightarrow> extends ix' ix'' \<Longrightarrow> extends ix ix''"
  unfolding extends_def by (intro conjI allI impI) (auto dest: order_less_le_trans)

lemma extends_grown:
  assumes "grown ix n e ix'" "index_wf ix" "n < length (nodes ix)" "child ix n e = None"
  shows "extends ix ix'"
proof -
  have "nav ix' k ps = Some m" if "k < length (nodes ix)" "nav ix k ps = Some m" for k ps m
    using grown_nav [OF assms(1-3) that(1), of ps] that(2) assms(4) by simp
  then show ?thesis
    unfolding extends_def
    using grown_wf [OF assms] grown_lookup [OF assms] assms(1) by (simp add: grown_def)
qed

lemma child_step:
  assumes "index_wf ix" "n < length (nodes ix)"
    and "(if v then variable_child n ix else literal_child l n ix) = (c, ix')"
  shows "extends ix ix' \<and> child ix' n (if v then PVar else PLit l) = Some c \<and> c < length (nodes ix')"
proof (cases "child ix n (if v then PVar else PLit l)")
  case None
  have g: "grown ix n (if v then PVar else PLit l) ix'" "c = length (nodes ix)"
    using assms(2,3) None grown_variable [OF assms(2)] grown_literal [OF assms(2), of l]
    by (auto simp: child_def variable_child_def literal_child_def Let_def split: if_splits)
  then show ?thesis
    using extends_grown [OF g(1) assms(1,2) None] assms(2) by (simp add: grown_def)
next
  case (Some d)
  then have "d = c" "ix' = ix"
    using assms(3) by (auto simp: child_def variable_child_def literal_child_def Let_def split: if_splits)
  with Some show ?thesis using extends_refl [OF assms(1)] wf_child [OF assms(1) Some assms(2)] by simp
qed

lemma slot_walk_ok:
  assumes "index_wf ix" "n < length (nodes ix)" "slot_walk segs n ix = (ix', m, c)"
  shows "extends ix ix' \<and> nav ix' n (fst (pattern_of_segments segs)) = Some m \<and>
    c = snd (pattern_of_segments segs)"
  using assms
proof (induction segs arbitrary: n ix)
  case Nil
  then show ?case by (simp add: extends_refl)
next
  case (Cons seg segs)
  show ?case
  proof (cases "starts_with ''{*'' seg")
    case True
    then show ?thesis using Cons.prems by (simp add: extends_refl)
  next
    case False
    define v where "v = starts_with ''{'' seg"
    define e where "e = (if v then PVar else PLit seg)"
    obtain d ix1 where d: "(if v then variable_child n ix else literal_child seg n ix) = (d, ix1)" by fastforce
    have step: "extends ix ix1" "child ix1 n e = Some d" "d < length (nodes ix1)"
      using child_step [OF Cons.prems(1,2) d] by (simp_all add: e_def)
    have wf1: "index_wf ix1" using step(1) by (simp add: extends_def)
    have walk: "slot_walk segs d ix1 = (ix', m, c)" using Cons.prems(3) False d by (simp add: v_def)
    note IH = Cons.IH [OF wf1 step(3) walk]
    have ext: "extends ix ix'" using extends_trans [OF step(1)] IH by blast
    have "nav ix1 n [e] = Some d" using step(2) by simp
    moreover have "n < length (nodes ix1)" using Cons.prems(2) step(1) by (simp add: extends_def)
    ultimately have "nav ix' n [e] = Some d" using IH unfolding extends_def by blast
    then have "nav ix' n (e # fst (pattern_of_segments segs)) = Some m"
      using IH nav_append [of ix' n "[e]" "fst (pattern_of_segments segs)"] by simp
    then show ?thesis using ext IH False by (simp add: e_def v_def)
  qed
qed

lemma slot_set_child [simp]: "child (slot_set ix m c t) k e = child ix k e"
  by (cases "m < length (nodes ix)"; cases "k = m")
    (auto simp: child_def slot_set_def list_update_beyond split: pseg.split)

lemma slot_set_nav [simp]: "nav (slot_set ix m c t) k ps = nav ix k ps"
  by (induction ps arbitrary: k) (auto split: option.split)

lemma slot_set_length [simp]:
  "length (nodes (slot_set ix m c t)) = length (nodes ix)" "empty_last_ok (slot_set ix m c t) = empty_last_ok ix"
  by (simp_all add: slot_set_def)

lemma slot_set_wf: "index_wf ix \<Longrightarrow> index_wf (slot_set ix m c t)"
  unfolding index_wf_def slot_set_child slot_set_length .

lemma slot_set_get:
  "m < length (nodes ix) \<Longrightarrow>
   slot_get (slot_set ix m c t) k b = (if k = m \<and> b = c then Some t else slot_get ix k b)"
  by (cases "k = m") (auto simp: slot_get_def slot_set_def)

lemma slot_ok:
  assumes "index_wf ix" "slot path ix = (ix', m, c)"
  shows "index_wf ix'" "empty_last_ok ix' = empty_last_ok ix" "index_lookup ix' q = index_lookup ix q"
    "nav ix' 0 (fst (pattern_of path)) = Some m" "c = snd (pattern_of path)" "m < length (nodes ix')"
    "slot_get ix' m c = index_lookup ix (pattern_of path)"
proof -
  have "slot_walk (path_segments path) 0 ix = (ix', m, c)" using assms(2) by (simp add: slot_def)
  note ok = slot_walk_ok [OF assms(1) wf_root [OF assms(1)] this]
  show wf': "index_wf ix'" and el: "empty_last_ok ix' = empty_last_ok ix"
    and same: "index_lookup ix' q = index_lookup ix q" for q
    using ok unfolding extends_def by blast+
  show nav: "nav ix' 0 (fst (pattern_of path)) = Some m" and c: "c = snd (pattern_of path)"
    using ok by (simp_all add: pattern_of_def)
  show m: "m < length (nodes ix')" using nav_bound [OF wf' wf_root [OF wf'] nav] by simp
  show "slot_get ix' m c = index_lookup ix (pattern_of path)"
    using same [of "pattern_of path"] nav c by (simp add: index_lookup_def)
qed

lemma index_insert_ok:
  assumes "index_wf ix"
  shows "index_wf (index_insert path t ix)"
    and "empty_last_ok (index_insert path t ix) = empty_last_ok ix"
    and "index_lookup (index_insert path t ix) p = (if p = pattern_of path then Some t else index_lookup ix p)"
proof -
  obtain ix' m c where w: "slot path ix = (ix', m, c)" by (cases "slot path ix")
  note ok = slot_ok [OF assms w]
  show "index_wf (index_insert path t ix)" using ok(1) by (simp add: index_insert_def w slot_set_wf)
  show "empty_last_ok (index_insert path t ix) = empty_last_ok ix" using ok(2) by (simp add: index_insert_def w)
  have "index_lookup (slot_set ix' m c t) p =
      (if nav ix' 0 (fst p) = Some m \<and> snd p = c then Some t else index_lookup ix' p)"
    using slot_set_get [OF ok(6)] by (auto simp: index_lookup_def split: option.split)
  moreover have "nav ix' 0 (fst p) = Some m \<and> snd p = c \<longleftrightarrow> p = pattern_of path"
    using ok(4,5) nav_inj [OF ok(1) _ ok(4), of "fst p"] by (auto simp: prod_eq_iff)
  ultimately show "index_lookup (index_insert path t ix) p =
      (if p = pattern_of path then Some t else index_lookup ix p)"
    by (simp add: index_insert_def w ok(3))
qed

lemma index_new_ok:
  "index_wf (index_new el)" "index_lookup (index_new el) p = None" "empty_last_ok (index_new el) = el"
proof -
  have ch: "child (index_new el) 0 e = None" for e
    by (simp add: child_def index_new_def node_default_def split: pseg.split)
  then show "index_wf (index_new el)" by (simp add: index_wf_def) (simp add: index_new_def)
  show "index_lookup (index_new el) p = None"
    using ch by (cases "fst p")
      (simp_all add: index_lookup_def slot_get_def index_new_def node_default_def)
  show "empty_last_ok (index_new el) = el" by (simp add: index_new_def)
qed

section \<open>The visit lists the matching paths in rank order\<close>

text \<open>The patterns a visit passes, with their tables.\<close>

definition prepend :: "pseg \<Rightarrow> (pattern \<times> nat) list \<Rightarrow> (pattern \<times> nat) list" where
  "prepend e xs = map (\<lambda>((ps, b), t). ((e # ps, b), t)) xs"

lemma in_prepend [simp]: "((ps, b), t) \<in> set (prepend e xs) \<longleftrightarrow> (\<exists>es. ps = e # es \<and> ((es, b), t) \<in> set xs)"
  by (force simp: prepend_def)

lemma map_snd_prepend [simp]: "map snd (prepend e xs) = map snd xs"
  by (simp add: prepend_def case_prod_beta' comp_def)

fun visit_patterns :: "index \<Rightarrow> nat \<Rightarrow> string list \<Rightarrow> (pattern \<times> nat) list" where
  "visit_patterns ix n [] = (case node_table (nodes ix ! n) of Some t \<Rightarrow> [(([], False), t)] | None \<Rightarrow> [])"
| "visit_patterns ix n (s # segs) =
     (case child ix n (PLit s) of
        Some c \<Rightarrow> prepend (PLit s) (visit_patterns ix c segs) | None \<Rightarrow> [])
     @ (case child ix n PVar of
          Some c \<Rightarrow> if s \<noteq> [] \<or> segs \<noteq> [] \<or> empty_last_ok ix
                     then prepend PVar (visit_patterns ix c segs) else []
        | None \<Rightarrow> [])
     @ (case node_rest (nodes ix ! n) of
          Some t \<Rightarrow> if s # segs \<noteq> [[]] then [(([], True), t)] else [] | None \<Rightarrow> [])"

definition rest_segments :: "string option \<Rightarrow> string list" where
  "rest_segments r = (case r of None \<Rightarrow> [] | Some s \<Rightarrow> split_on (CHR ''/'') s)"

lemma split_on_once:
  "split_on c s = (case split_once c s of Some (a, b) \<Rightarrow> a # split_on c b | None \<Rightarrow> [s])"
proof (cases "split_once c s")
  case None
  have "c \<notin> set s" using None by (induction s) (auto split: if_splits)
  then show ?thesis using None by (simp add: split_on_single)
next
  case (Some ab)
  obtain a b where "ab = (a, b)" by (cases ab)
  with Some split_onceD [of c s a b] show ?thesis by (simp add: split_on_append split_on_single)
qed

lemma next_segment_rest:
  "next_segment rest = (segment, tail) \<Longrightarrow> split_on (CHR ''/'') rest = segment # rest_segments tail"
  by (auto simp: next_segment_def rest_segments_def split_on_once [of _ rest] split: option.splits)

lemma rest_segments_Nil: "rest_segments tail = [] \<longleftrightarrow> tail = None"
  by (simp add: rest_segments_def split: option.split)

lemma split_on_blank: "split_on c s = [[]] \<longleftrightarrow> s = []"
  by (cases s) (auto split: list.splits)

lemma visit_visit_patterns: "visit ix n rest = map snd (visit_patterns ix n (rest_segments rest))"
proof (induction ix n rest rule: visit.induct)
  case (1 ix n)
  then show ?case by (simp add: rest_segments_def split: option.split)
next
  case (2 ix n rest)
  obtain segment tail where ns: "next_segment rest = (segment, tail)" by (cases "next_segment rest")
  have segs: "rest_segments (Some rest) = segment # rest_segments tail"
    using next_segment_rest [OF ns] by (simp add: rest_segments_def)
  have blank: "rest = [] \<longleftrightarrow> segment = [] \<and> tail = None"
    using next_segment_rest [OF ns] split_on_blank [of "CHR ''/''" rest] rest_segments_Nil [of tail] by auto
  have lit: "visit ix c tail = map snd (visit_patterns ix c (rest_segments tail))"
    if "map_of (node_literals (nodes ix ! n)) segment = Some c" for c
    using 2(1) [OF ns [symmetric] refl refl that] .
  have var: "visit ix c tail = map snd (visit_patterns ix c (rest_segments tail))"
    if "node_variable (nodes ix ! n) = Some c" "segment \<noteq> [] \<or> tail \<noteq> None \<or> empty_last_ok ix" for c
    using 2(2) [OF ns [symmetric] refl refl that] .
  have none: "visit ix c None = map snd (visit_patterns ix c (rest_segments None))" for c
    by (simp add: rest_segments_def split: option.split)
  show ?case
    unfolding segs visit.simps(2) using lit var none
    by (simp add: ns child_def blank rest_segments_Nil del: visit.simps split: option.split)
qed

lemma visit_patterns_iff:
  "((ps, b), t) \<in> set (visit_patterns ix n segs) \<longleftrightarrow>
     (\<exists>m. nav ix n ps = Some m \<and> slot_get ix m b = Some t) \<and> pmatch (empty_last_ok ix) ps b segs"
proof (induction segs arbitrary: n ps)
  case Nil
  show ?case
    by (cases ps; cases b) (auto simp: slot_get_def split: option.split)
next
  case (Cons s segs)
  show ?case
  proof (cases ps)
    case Nil
    then show ?thesis by (cases b) (auto simp: slot_get_def split: option.split if_splits)
  next
    case (Cons e es)
    then show ?thesis
      using Cons.IH [of es]
      by (cases e) (auto simp: Cons.IH split: option.splits if_splits)
  qed
qed

lemma visit_patterns_sorted:
  "sorted_wrt (\<lambda>x y. ranked_before (fst (fst x)) (fst (fst y))) (visit_patterns ix n segs)"
proof (induction segs arbitrary: n)
  case Nil
  then show ?case by (simp split: option.split)
next
  case (Cons s segs)
  have "sorted_wrt (\<lambda>x y. ranked_before (fst (fst x)) (fst (fst y)))
      (prepend e (visit_patterns ix c segs))" for e c
    using Cons.IH [of c]
    by (cases e) (simp_all add: prepend_def sorted_wrt_map case_prod_beta')
  then show ?case
    by (auto simp: sorted_wrt_append split: option.split)
qed

section \<open>A store of paths\<close>

text \<open>The contract of a structure that holds a table per path, under the path's key.\<close>

locale path_store =
  fixes new_store :: 'ix
    and put :: "'path \<Rightarrow> nat \<Rightarrow> 'ix \<Rightarrow> 'ix"
    and get :: "'ix \<Rightarrow> 'key \<Rightarrow> nat option"
    and key :: "'path \<Rightarrow> 'key"
    and inv :: "'ix \<Rightarrow> bool"
  assumes new_inv: "inv new_store"
    and new_get: "get new_store k = None"
    and put_inv: "inv ix \<Longrightarrow> inv (put p t ix)"
    and put_get: "inv ix \<Longrightarrow> get (put p t ix) k = (if k = key p then Some t else get ix k)"
begin

lemma fold_inv: "inv ix \<Longrightarrow> inv (fold (\<lambda>(p, t). put p t) routes ix)"
  by (induction routes arbitrary: ix) (auto simp: put_inv)

lemma fold_get:
  "inv ix \<Longrightarrow> get (fold (\<lambda>(p, t). put p t) routes ix) k =
     (case map_of (rev (map (\<lambda>(p, t). (key p, t)) routes)) k of Some t \<Rightarrow> Some t | None \<Rightarrow> get ix k)"
proof (induction routes arbitrary: ix)
  case (Cons r routes)
  obtain p t where r: "r = (p, t)" by (cases r)
  from Cons.prems have "inv (put p t ix)" by (rule put_inv)
  from Cons.IH [OF this] Cons.prems r show ?case
    by (auto simp: put_get map_add_def split: option.split)
qed simp

lemma built_get:
  "get (fold (\<lambda>(p, t). put p t) routes new_store) k = map_of (rev (map (\<lambda>(p, t). (key p, t)) routes)) k"
  using fold_get [OF new_inv, of routes k] by (simp add: new_get split: option.split)

end

interpretation trie: path_store "index_new el" index_insert index_lookup pattern_of index_wf
  by unfold_locales (simp_all add: index_new_ok index_insert_ok)

text \<open>The index of some routes, a router path and a table each.\<close>

definition ranked_index :: "bool \<Rightarrow> (string \<times> nat) list \<Rightarrow> index" where
  "ranked_index el routes = fold (\<lambda>(p, t). index_insert p t) routes (index_new el)"

lemma ranked_index_ok:
  "index_wf (ranked_index el routes)"
  "empty_last_ok (ranked_index el routes) = el"
  "index_lookup (ranked_index el routes) p = map_of (rev (map (\<lambda>(p, t). (pattern_of p, t)) routes)) p"
proof -
  show "index_wf (ranked_index el routes)"
    unfolding ranked_index_def by (rule trie.fold_inv [OF index_new_ok(1)])
  show "index_lookup (ranked_index el routes) p = map_of (rev (map (\<lambda>(p, t). (pattern_of p, t)) routes)) p"
    unfolding ranked_index_def by (rule trie.built_get)
  have "empty_last_ok (fold (\<lambda>(p, t). index_insert p t) routes ix) = empty_last_ok ix" if "index_wf ix" for ix
    using that by (induction routes arbitrary: ix) (auto simp: index_insert_ok)
  then show "empty_last_ok (ranked_index el routes) = el"
    by (simp add: ranked_index_def index_new_ok)
qed

text \<open>What an index lists for a path, from what it holds under each pattern.\<close>

definition matching :: "index \<Rightarrow> string \<Rightarrow> (pattern \<times> nat) list" where
  "matching ix rest = visit_patterns ix 0 (split_on (CHR ''/'') rest)"

lemma each_matching: "each ix (CHR ''/'' # rest) = map snd (matching ix rest)"
  by (simp add: each_def matching_def visit_visit_patterns rest_segments_def)

lemma matching_sorted: "sorted_wrt (\<lambda>x y. ranked_before (fst (fst x)) (fst (fst y))) (matching ix rest)"
  unfolding matching_def by (rule visit_patterns_sorted)

lemma in_matching:
  "x \<in> set (matching ix rest) \<longleftrightarrow> index_lookup ix (fst x) = Some (snd x)
     \<and> pmatch (empty_last_ok ix) (fst (fst x)) (snd (fst x)) (split_on (CHR ''/'') rest)"
  using visit_patterns_iff [of "fst (fst x)" "snd (fst x)" "snd x" ix 0 "split_on (CHR ''/'') rest"]
  by (auto simp: matching_def index_lookup_def split: option.split)

lemma each_no_slash: "\<nexists>rest. path = CHR ''/'' # rest \<Longrightarrow> each ix path = []"
  by (cases path) (auto simp: each_def)

text \<open>A list in rank order is determined by its elements.\<close>

lemma ranked_before_asym: "ranked_before p q \<Longrightarrow> \<not> ranked_before q p"
  by (induction p q rule: ranked_before.induct) auto

lemma sorted_wrt_unique:
  assumes "\<And>x y. R x y \<Longrightarrow> \<not> R y x" "sorted_wrt R xs" "sorted_wrt R ys" "set xs = set ys"
  shows "xs = ys"
  using assms(2-)
proof (induction xs arbitrary: ys)
  case (Cons x xs)
  then obtain y ys' where ys: "ys = y # ys'" by (cases ys) auto
  have irrefl: "\<not> R z z" for z using assms(1) by blast
  have xy: "x = y"
  proof (rule ccontr)
    assume "x \<noteq> y"
    then have "y \<in> set xs" "x \<in> set ys'" using Cons.prems ys by auto
    then have "R x y" "R y x" using Cons.prems ys by auto
    then show False using assms(1) by blast
  qed
  have "x \<notin> set xs" "y \<notin> set ys'" using Cons.prems ys irrefl by auto
  then have "set xs = set ys'" using Cons.prems(3) ys xy by auto
  then show ?case using Cons.IH [of ys'] Cons.prems ys xy by auto
qed simp

text \<open>An index that holds some of the tables of another lists those, in the same order.\<close>

lemma each_restrict:
  assumes "empty_last_ok ix' = empty_last_ok ix"
    and "\<And>p t. index_lookup ix' p = Some t \<longleftrightarrow> index_lookup ix p = Some t \<and> P t"
  shows "each ix' path = filter P (each ix path)"
proof (cases "\<exists>rest. path = CHR ''/'' # rest")
  case True
  then obtain rest where path: "path = CHR ''/'' # rest" by blast
  have "set (matching ix' rest) = set (filter (P \<circ> snd) (matching ix rest))"
    using assms by (auto simp: in_matching)
  then have "matching ix' rest = filter (P \<circ> snd) (matching ix rest)"
    using matching_sorted sorted_wrt_filter [OF matching_sorted] ranked_before_asym
    by (intro sorted_wrt_unique [where R = "\<lambda>x y. ranked_before (fst (fst x)) (fst (fst y))"]) blast+
  then show ?thesis unfolding path each_matching filter_map by (simp only:)
qed (simp add: each_no_slash)

lemma each_distinct:
  assumes "\<And>p q t. index_lookup ix p = Some t \<Longrightarrow> index_lookup ix q = Some t \<Longrightarrow> p = q"
  shows "distinct (each ix path)"
proof (cases "\<exists>rest. path = CHR ''/'' # rest")
  case True
  then obtain rest where path: "path = CHR ''/'' # rest" by blast
  have "distinct ys" if "sorted_wrt (\<lambda>x y. ranked_before (fst (fst x)) (fst (fst y))) ys" for ys :: "(pattern \<times> nat) list"
    using that ranked_before_asym by (induction ys) auto
  then have "distinct (matching ix rest)" using matching_sorted by blast
  moreover have "inj_on snd (set (matching ix rest))"
    using assms by (auto simp: inj_on_def in_matching prod_eq_iff)
  ultimately show ?thesis by (simp add: path each_matching distinct_map)
qed (simp add: each_no_slash)

lemma each_member: "t \<in> set (each ix path) \<Longrightarrow> \<exists>p. index_lookup ix p = Some t"
proof (cases "\<exists>rest. path = CHR ''/'' # rest")
  case True
  assume t: "t \<in> set (each ix path)"
  from True obtain rest where "path = CHR ''/'' # rest" by blast
  with t obtain x where "x \<in> set (matching ix rest)" "snd x = t" by (force simp: each_matching)
  then have "index_lookup ix (fst x) = Some t" by (simp add: in_matching)
  then show ?thesis by blast
qed (simp add: each_no_slash)

lemma map_of_rev_distinct: "distinct (map fst xs) \<Longrightarrow> map_of (rev xs) k = Some v \<longleftrightarrow> (k, v) \<in> set xs"
  by (metis distinct_rev map_of_eq_Some_iff rev_map set_rev)

text \<open>
  C22. The index ranks as the router does. For any routes inserted into it, the tables it
  lists for a request path are those of exactly the routes whose path matches the
  request, each once, in rank order: a literal before a variable before a catch-all at
  the first segment where two of them differ. A route inserted twice under one shape
  keeps its last table.
\<close>

theorem index_lists_matches_in_rank_order:
  "\<exists>xs. each (ranked_index el routes) (CHR ''/'' # rest) = map snd xs
     \<and> sorted_wrt (\<lambda>x y. ranked_before (fst (fst x)) (fst (fst y))) xs
     \<and> set xs = {((ps, b), t).
          map_of (rev (map (\<lambda>(p, t). (pattern_of p, t)) routes)) (ps, b) = Some t
          \<and> pmatch el ps b (split_on (CHR ''/'') rest)}"
proof (intro exI [of _ "matching (ranked_index el routes) rest"] conjI each_matching matching_sorted)
  show "set (matching (ranked_index el routes) rest) = {((ps, b), t).
      map_of (rev (map (\<lambda>(p, t). (pattern_of p, t)) routes)) (ps, b) = Some t
      \<and> pmatch el ps b (split_on (CHR ''/'') rest)}"
    by (auto simp: in_matching ranked_index_ok)
qed

end
