(* ===== verification/Utf8.thy ===== *)
theory Utf8
  imports Prelude
begin

text \<open>
  What the components use of Rust's text: the search for a byte, slicing at character
  boundaries, and the decoding of UTF-8 with replacement (\<open>String::from_utf8\<close> and
  \<open>String::from_utf8_lossy\<close> of the standard library).
\<close>

section \<open>Searching and slicing\<close>

text \<open>\<open>str::find\<close> and \<open>str::rfind\<close> of an ASCII character.\<close>

definition find_char :: "char \<Rightarrow> string \<Rightarrow> nat option" where
  "find_char c s = map_option (length \<circ> fst) (split_once c s)"

definition rfind_char :: "char \<Rightarrow> string \<Rightarrow> nat option" where
  "rfind_char c s = map_option (\<lambda>k. length s - Suc k) (find_char c (rev s))"

definition is_continuation :: "char \<Rightarrow> bool" where
  "is_continuation b \<longleftrightarrow> 128 \<le> byte b \<and> byte b \<le> 191"

definition is_char_boundary :: "string \<Rightarrow> nat \<Rightarrow> bool" where
  "is_char_boundary s i \<longleftrightarrow> i = 0 \<or> i = length s \<or> i < length s \<and> \<not> is_continuation (s ! i)"

text \<open>\<open>str::get(start..end)\<close>.\<close>

definition str_get :: "string \<Rightarrow> nat \<Rightarrow> nat \<Rightarrow> string option" where
  "str_get s start end =
     (if start \<le> end \<and> end \<le> length s \<and> is_char_boundary s start \<and> is_char_boundary s end
      then Some (take (end - start) (drop start s)) else None)"

lemmas [rust_str] = find_char_def rfind_char_def is_char_boundary_def is_continuation_def str_get_def byte_def

lemma find_char_Some: "find_char c s = Some k \<longleftrightarrow> k < length s \<and> s ! k = c \<and> c \<notin> set (take k s)"
proof
  assume "find_char c s = Some k"
  then obtain a b where "split_once c s = Some (a, b)" "k = length a" by (auto simp: find_char_def)
  then show "k < length s \<and> s ! k = c \<and> c \<notin> set (take k s)" by (auto dest!: split_onceD)
next
  assume k: "k < length s \<and> s ! k = c \<and> c \<notin> set (take k s)"
  then have "s = take k s @ c # drop (Suc k) s" by (metis id_take_nth_drop)
  with k have "split_once c s = Some (take k s, drop (Suc k) s)" by (metis split_once_Some)
  with k show "find_char c s = Some k" by (simp add: find_char_def)
qed

lemma find_char_None: "find_char c s = None \<longleftrightarrow> c \<notin> set s"
proof
  assume "find_char c s = None"
  then show "c \<notin> set s" by (metis find_char_def not_None_eq option.map_disc_iff split_list_first split_once_Some)
qed (simp add: find_char_def split_once_None)

lemma rfind_char_Some:
  assumes "rfind_char c s = Some k"
  shows "k < length s" "s ! k = c" "c \<notin> set (drop (Suc k) s)"
proof -
  from assms obtain j where j: "find_char c (rev s) = Some j" "k = length s - Suc j"
    by (auto simp: rfind_char_def)
  then have j': "j < length s" "rev s ! j = c" "c \<notin> set (take j (rev s))" by (auto simp: find_char_Some)
  show "k < length s" "s ! k = c" using j j' by (auto simp: rev_nth)
  have "drop (Suc k) s = rev (take j (rev s))" using j j' by (simp add: take_rev Suc_diff_Suc)
  with j' show "c \<notin> set (drop (Suc k) s)" by simp
qed

lemma rfind_char_None: "rfind_char c s = None \<longleftrightarrow> c \<notin> set s"
  by (simp add: rfind_char_def find_char_None)

section \<open>UTF-8\<close>

definition byte_at :: "string \<Rightarrow> nat \<Rightarrow> nat" where
  "byte_at s i = (if i < length s then byte (s ! i) else 0)"

text \<open>The second bytes a lead byte of three or four allows.\<close>

definition second_ok :: "nat \<Rightarrow> nat \<Rightarrow> bool" where
  "second_ok lead b \<longleftrightarrow>
     (if lead = 224 then 160 \<le> b \<and> b \<le> 191
      else if lead = 237 then 128 \<le> b \<and> b \<le> 159
      else if lead = 240 then 144 \<le> b \<and> b \<le> 191
      else if lead = 244 then 128 \<le> b \<and> b \<le> 143
      else 128 \<le> b \<and> b \<le> 191)"

definition later_ok :: "nat \<Rightarrow> bool" where
  "later_ok b \<longleftrightarrow> 128 \<le> b \<and> b \<le> 191"

text \<open>
  The next character of a byte sequence: whether it is valid, and how many bytes it has, or
  how many of an invalid one are taken together.
\<close>

definition utf8_step :: "string \<Rightarrow> bool \<times> nat" where
  "utf8_step s =
     (let lead = byte_at s 0 in
      if lead < 128 then (True, 1)
      else if 194 \<le> lead \<and> lead \<le> 223 then (if later_ok (byte_at s 1) then (True, 2) else (False, 1))
      else if 224 \<le> lead \<and> lead \<le> 239 then
        (if \<not> second_ok lead (byte_at s 1) then (False, 1)
         else if \<not> later_ok (byte_at s 2) then (False, 2) else (True, 3))
      else if 240 \<le> lead \<and> lead \<le> 244 then
        (if \<not> second_ok lead (byte_at s 1) then (False, 1)
         else if \<not> later_ok (byte_at s 2) then (False, 2)
         else if \<not> later_ok (byte_at s 3) then (False, 3) else (True, 4))
      else (False, 1))"

lemma utf8_step_pos: "0 < snd (utf8_step s)"
  by (simp add: utf8_step_def Let_def)

definition replacement_char :: string where
  "replacement_char = [CHR 0xEF, CHR 0xBF, CHR 0xBD]"

function from_utf8_lossy :: "string \<Rightarrow> string" where
  "from_utf8_lossy [] = []"
| "from_utf8_lossy (b # s) =
     (case utf8_step (b # s) of (valid, n) \<Rightarrow>
        (if valid then take n (b # s) else replacement_char) @ from_utf8_lossy (drop n (b # s)))"
  by pat_completeness auto
termination
  by (relation "measure length") (auto, metis utf8_step_pos diff_less length_Cons less_Suc_eq_0_disj snd_conv zero_less_Suc)

function utf8_valid :: "string \<Rightarrow> bool" where
  "utf8_valid [] \<longleftrightarrow> True"
| "utf8_valid (b # s) \<longleftrightarrow>
     (case utf8_step (b # s) of (valid, n) \<Rightarrow> valid \<and> utf8_valid (drop n (b # s)))"
  by pat_completeness auto
termination
  by (relation "measure length") (auto, metis utf8_step_pos diff_less length_Cons less_Suc_eq_0_disj snd_conv zero_less_Suc)

declare from_utf8_lossy.simps(2) [simp del] utf8_valid.simps(2) [simp del]

definition from_utf8 :: "string \<Rightarrow> string option" where
  "from_utf8 s = (if utf8_valid s then Some s else None)"

lemma from_utf8_lossy_valid: "utf8_valid s \<Longrightarrow> from_utf8_lossy s = s"
proof (induction s rule: from_utf8_lossy.induct)
  case (2 b s)
  then show ?case by (auto simp: from_utf8_lossy.simps(2) utf8_valid.simps(2) split: prod.splits)
qed simp

lemma utf8_valid_ascii: "list_all (\<lambda>b. byte b < 128) s \<Longrightarrow> utf8_valid s"
proof (induction s)
  case (Cons b s)
  then have "utf8_step (b # s) = (True, 1)" by (simp add: utf8_step_def byte_at_def)
  with Cons show ?case by (simp add: utf8_valid.simps(2))
qed simp

text \<open>The byte after an ASCII byte of a valid text starts a character.\<close>

lemma utf8_lead: "utf8_valid (b # s) \<Longrightarrow> \<not> is_continuation b"
  by (auto simp: utf8_valid.simps(2) utf8_step_def byte_at_def is_continuation_def Let_def split: if_splits)

lemma later_okD: "later_ok (byte_at s k) \<Longrightarrow> k < length s \<and> 128 \<le> byte (s ! k)"
  by (auto simp: later_ok_def byte_at_def split: if_splits)

lemma second_okD: "second_ok lead (byte_at s k) \<Longrightarrow> k < length s \<and> 128 \<le> byte (s ! k)"
  by (auto simp: second_ok_def byte_at_def split: if_splits)

lemma utf8_step_valid:
  assumes "utf8_step s = (True, n)" "s \<noteq> []"
  shows "n \<le> length s" "0 < i \<Longrightarrow> i < n \<Longrightarrow> 128 \<le> byte (s ! i)" "1 < n \<Longrightarrow> 128 \<le> byte (s ! 0)"
proof -
  have lead: "128 \<le> byte_at s 0 \<Longrightarrow> 128 \<le> byte (s ! 0)" by (simp add: byte_at_def split: if_splits)
  consider "n = 1" | "n = 2" "later_ok (byte_at s 1)" "128 \<le> byte_at s 0"
    | "n = 3" "second_ok (byte_at s 0) (byte_at s 1)" "later_ok (byte_at s 2)" "128 \<le> byte_at s 0"
    | "n = 4" "second_ok (byte_at s 0) (byte_at s 1)" "later_ok (byte_at s 2)" "later_ok (byte_at s 3)"
        "128 \<le> byte_at s 0"
    using assms(1) by (auto simp: utf8_step_def Let_def split: if_splits)
  then have "n \<le> length s \<and> (\<forall>i < n. 0 < i \<or> 1 < n \<longrightarrow> 128 \<le> byte (s ! i))"
  proof cases
    case 1
    then show ?thesis using assms(2) by (auto simp: Suc_le_eq)
  next
    case 2
    have "i < 2 \<Longrightarrow> i = 0 \<or> i = 1" for i :: nat by arith
    with 2 later_okD [OF 2(2)] lead show ?thesis by fastforce
  next
    case 3
    have "i < 3 \<Longrightarrow> i = 0 \<or> i = 1 \<or> i = 2" for i :: nat by arith
    with 3 second_okD [OF 3(2)] later_okD [OF 3(3)] lead show ?thesis by fastforce
  next
    case 4
    have "i < 4 \<Longrightarrow> i = 0 \<or> i = 1 \<or> i = 2 \<or> i = 3" for i :: nat by arith
    with 4 second_okD [OF 4(2)] later_okD [OF 4(3)] later_okD [OF 4(4)] lead show ?thesis by fastforce
  qed
  then show "n \<le> length s" "0 < i \<Longrightarrow> i < n \<Longrightarrow> 128 \<le> byte (s ! i)" "1 < n \<Longrightarrow> 128 \<le> byte (s ! 0)"
    by auto
qed

lemma utf8_boundary:
  assumes "utf8_valid s" "i < length s" "byte (s ! i) < 128"
  shows "is_char_boundary s (Suc i)"
  using assms
proof (induction s arbitrary: i rule: utf8_valid.induct)
  case (2 b s)
  obtain n where n: "utf8_step (b # s) = (True, n)" and rest: "utf8_valid (drop n (b # s))"
    using 2(2) by (auto simp: utf8_valid.simps(2) split: prod.splits)
  note valid = utf8_step_valid [OF n]
  have pos: "0 < n" using utf8_step_pos [of "b # s"] n by simp
  show ?case
  proof (cases "i < n")
    case True
    have "i = 0" using valid(2) [of i] True 2(4) by (cases i) auto
    moreover have "n = 1" using valid(3) pos 2(4) calculation by (cases "1 < n") auto
    ultimately show ?thesis
      using utf8_lead rest by (cases s) (auto simp: is_char_boundary_def)
  next
    case False
    have "is_char_boundary (drop n (b # s)) (Suc (i - n))"
      using 2(3,4) False rest by (intro 2(1) [OF n [symmetric]]) auto
    then show ?thesis
      using False 2(3) valid(1) by (auto simp: is_char_boundary_def Suc_diff_le)
  qed
qed simp

end
