(* ===== verification/Escapes.thy ===== *)
theory Escapes
  imports Utf8 Path Route_Index
begin

text \<open>
  The text comparisons of \<open>transcode/table.rs\<close>: percent-escapes up to the case of their
  digits, the custom verb of a request path, and when a value follows a field template.
\<close>

section \<open>Percent-escapes\<close>

text \<open>\<open>normalized_bytes\<close>: \<open>digits\<close> counts the bytes left of the escape being read.\<close>

fun normalized_from :: "nat \<Rightarrow> string \<Rightarrow> string" where
  "normalized_from digits [] = []"
| "normalized_from digits (b # s) =
     (if 0 < digits
      then (if is_ascii_hexdigit b then upper_byte b else b) # normalized_from (digits - 1) s
      else b # normalized_from (if b = CHR ''%'' then 2 else digits) s)"

definition normalized_bytes :: "string \<Rightarrow> string" where
  "normalized_bytes s = normalized_from 0 s"

text \<open>A copy is made only when something changes; the copy stays UTF-8 (\<open>normalized_utf8\<close>).\<close>

definition normalize_escapes :: "string \<Rightarrow> string" where
  "normalize_escapes s = (if normalized_bytes s = s then s else normalized_bytes s)"

definition same_octets :: "string \<Rightarrow> string \<Rightarrow> bool" where
  "same_octets received norm \<longleftrightarrow> length received = length norm \<and> normalized_bytes received = norm"

lemma normalize_escapes_bytes: "normalize_escapes s = normalized_bytes s"
  by (simp add: normalize_escapes_def)

lemma length_normalized_from [simp]: "length (normalized_from d s) = length s"
  by (induction d s rule: normalized_from.induct) auto

lemma same_octets_iff: "same_octets received norm \<longleftrightarrow> normalize_escapes received = norm"
  by (auto simp: same_octets_def normalize_escapes_bytes normalized_bytes_def)

lemma upper_hexdigit:
  assumes "is_ascii_hexdigit b"
  shows "is_ascii_hexdigit (upper_byte b)" "upper_byte (upper_byte b) = upper_byte b" "byte (upper_byte b) < 128"
  using assms by (auto simp: is_ascii_hexdigit_def upper_byte_def byte_def Let_def)

lemma normalized_from_idem: "normalized_from d (normalized_from d s) = normalized_from d s"
  by (induction d s rule: normalized_from.induct) (auto simp: upper_hexdigit)

lemma normalize_escapes_idem [simp]: "normalize_escapes (normalize_escapes s) = normalize_escapes s"
  by (simp add: normalize_escapes_bytes normalized_bytes_def normalized_from_idem)

section \<open>The verb of a request path\<close>

definition last_start :: "string \<Rightarrow> nat" where
  "last_start path = (case rfind_char (CHR ''/'') path of Some slash \<Rightarrow> slash + 1 | None \<Rightarrow> 0)"

definition split_verb :: "string \<Rightarrow> (string \<times> string) option" where
  "split_verb path =
     (let start = last_start path
      in case find_char (CHR '':'') (drop start path) of
           None \<Rightarrow> None
         | Some k \<Rightarrow> let colon = start + k in Some (take colon path, drop colon path))"

lemma last_start_le: "last_start path \<le> length path"
  using rfind_char_Some(1) [of "CHR ''/''" path] by (auto simp: last_start_def split: option.split)

lemma last_start_no_slash: "CHR ''/'' \<notin> set (drop (last_start path) path)"
  using rfind_char_Some(3) [of "CHR ''/''" path] rfind_char_None [of "CHR ''/''" path]
  by (auto simp: last_start_def split: option.split)

lemma split_verb_Some:
  assumes "split_verb path = Some (rest, v)"
  shows "path = rest @ v" "CHR ''/'' \<notin> set v" "\<exists>w. v = CHR '':'' # w"
proof -
  let ?s = "last_start path"
  from assms obtain k where k: "find_char (CHR '':'') (drop ?s path) = Some k"
      "rest = take (?s + k) path" "v = drop (?s + k) path"
    by (auto simp: split_verb_def Let_def split: option.splits)
  show "path = rest @ v" by (simp add: k)
  have v: "v = drop k (drop ?s path)" by (simp add: k add.commute)
  show "CHR ''/'' \<notin> set v" using last_start_no_slash [of path] v set_drop_subset by fastforce
  from k(1) have "k < length (drop ?s path)" "drop ?s path ! k = CHR '':''"
    by (simp_all add: find_char_Some del: drop_drop)
  then have "v = CHR '':'' # drop (Suc k) (drop ?s path)" using v by (simp add: Cons_nth_drop_Suc [symmetric])
  then show "\<exists>w. v = CHR '':'' # w" by blast
qed

section \<open>Field templates\<close>

text \<open>The tail of the segments left after the first, as the loop over \<open>**\<close> takes them.\<close>

definition tail_of :: "string \<Rightarrow> string option" where
  "tail_of segments = map_option snd (split_once (CHR ''/'') segments)"

function follows :: "string list \<Rightarrow> string option \<Rightarrow> bool" where
  "follows [] val \<longleftrightarrow> val = None"
| "follows (first # rest) val \<longleftrightarrow>
     (if first = ''**'' then
        follows rest val
        \<or> (case val of Some segments \<Rightarrow> follows (first # rest) (tail_of segments) | None \<Rightarrow> False)
      else case val of
          None \<Rightarrow> False
        | Some segments \<Rightarrow>
            (case next_segment segments of (segment, tail) \<Rightarrow>
               (if first = ''*'' then segment \<noteq> [] else same_octets segment first) \<and> follows rest tail))"
  by pat_completeness auto

lemma tail_of_next: "tail_of segments = snd (next_segment segments)"
  by (auto simp: tail_of_def next_segment_def split: option.split)

lemma tail_of_size: "rest_size (tail_of segments) < rest_size (Some segments)"
  using next_segment_size [of segments "fst (next_segment segments)" "tail_of segments"]
  by (simp add: tail_of_next)

termination follows
  by (relation "measures [length \<circ> fst, rest_size \<circ> snd]") (auto simp: tail_of_size)

declare follows.simps(2) [simp del]

text \<open>The language of a template: each element takes a block of consecutive segments.\<close>

definition element_takes :: "string \<Rightarrow> string list \<Rightarrow> bool" where
  "element_takes f w \<longleftrightarrow>
     f = ''**'' \<or> (\<exists>s. w = [s] \<and> (if f = ''*'' then s \<noteq> [] else normalize_escapes s = f))"

definition template_matches :: "string list \<Rightarrow> string list \<Rightarrow> bool" where
  "template_matches template segs \<longleftrightarrow> (\<exists>ws. concat ws = segs \<and> list_all2 element_takes template ws)"

lemma template_matches_Nil: "template_matches [] segs \<longleftrightarrow> segs = []"
  by (auto simp: template_matches_def)

lemma template_matches_Cons:
  "template_matches (f # fs) segs \<longleftrightarrow> (\<exists>w r. segs = w @ r \<and> element_takes f w \<and> template_matches fs r)"
proof
  assume "\<exists>w r. segs = w @ r \<and> element_takes f w \<and> template_matches fs r"
  then obtain w ws where "segs = w @ concat ws" "element_takes f w" "list_all2 element_takes fs ws"
    by (auto simp: template_matches_def)
  then have "concat (w # ws) = segs \<and> list_all2 element_takes (f # fs) (w # ws)" by simp
  then show "template_matches (f # fs) segs" unfolding template_matches_def by blast
next
  assume "template_matches (f # fs) segs"
  then obtain w ws where "segs = w @ concat ws" "element_takes f w" "list_all2 element_takes fs ws"
    by (auto simp: template_matches_def list_all2_Cons1)
  then show "\<exists>w r. segs = w @ r \<and> element_takes f w \<and> template_matches fs r"
    unfolding template_matches_def by blast
qed

lemma template_matches_one:
  assumes "f \<noteq> ''**''"
  shows "template_matches (f # fs) segs \<longleftrightarrow>
    (\<exists>s r. segs = s # r \<and> (if f = ''*'' then s \<noteq> [] else normalize_escapes s = f) \<and> template_matches fs r)"
proof -
  have "(\<exists>w r. segs = w @ r \<and> (\<exists>s. w = [s] \<and> P s) \<and> M r) \<longleftrightarrow> (\<exists>s r. segs = s # r \<and> P s \<and> M r)"
    for P and M :: "string list \<Rightarrow> bool" by (metis append_Cons append_Nil)
  then show ?thesis by (simp only: template_matches_Cons element_takes_def assms simp_thms)
qed

lemma template_matches_any:
  "template_matches (''**'' # fs) [] \<longleftrightarrow> template_matches fs []"
  "template_matches (''**'' # fs) (s # r) \<longleftrightarrow> template_matches fs (s # r) \<or> template_matches (''**'' # fs) r"
proof -
  have any: "template_matches (''**'' # fs) segs \<longleftrightarrow> (\<exists>w r. segs = w @ r \<and> template_matches fs r)" for segs
    by (simp add: template_matches_Cons element_takes_def)
  show "template_matches (''**'' # fs) [] \<longleftrightarrow> template_matches fs []" by (simp add: any)
  show "template_matches (''**'' # fs) (s # r) \<longleftrightarrow> template_matches fs (s # r) \<or> template_matches (''**'' # fs) r"
    by (simp only: any) (metis append_Cons append_Nil neq_Nil_conv list.inject)
qed

lemma follows_template_matches: "follows template val \<longleftrightarrow> template_matches template (rest_segments val)"
proof (induction template val rule: follows.induct)
  case (1 val)
  then show ?case by (simp add: template_matches_Nil rest_segments_Nil)
next
  case (2 first rest val)
  show ?case
  proof (cases val)
    case None
    then show ?thesis
      using 2(1) by (simp add: follows.simps(2) template_matches_any template_matches_one rest_segments_def)
  next
    case (Some segments)
    obtain segment tail where ns: "next_segment segments = (segment, tail)" by (cases "next_segment segments")
    have segs: "rest_segments val = segment # rest_segments tail"
      using next_segment_rest [OF ns] Some by (simp add: rest_segments_def)
    show ?thesis
    proof (cases "first = ''**''")
      case True
      then show ?thesis
        using 2(1) [OF True] 2(2) [OF True Some] Some ns segs
        by (simp add: follows.simps(2) [of _ _ "Some segments"] template_matches_any tail_of_next)
    next
      case False
      then show ?thesis
        using 2(3) [OF False Some ns [symmetric]] Some ns segs
        by (auto simp: follows.simps(2) [of _ _ "Some segments"] template_matches_one same_octets_iff)
    qed
  qed
qed

section \<open>When a binding fits a path\<close>

text \<open>The literals mounted as captures, in one pass over the segments.\<close>

fun literals_fit :: "nat \<Rightarrow> string list \<Rightarrow> (nat \<times> string) list \<Rightarrow> bool" where
  "literals_fit nxt segments [] \<longleftrightarrow> True"
| "literals_fit nxt segments ((at, literal) # ls) \<longleftrightarrow>
     nxt \<le> at \<and>
     (case drop (at - nxt) segments of
        [] \<Rightarrow> False
      | segment # rest \<Rightarrow> same_octets segment literal \<and> literals_fit (at + 1) rest ls)"

text \<open>The position after the \<open>n\<close>-th slash.\<close>

fun after_slashes :: "nat \<Rightarrow> nat \<Rightarrow> string \<Rightarrow> nat option" where
  "after_slashes 0 at path = Some at"
| "after_slashes (Suc n) at path =
     (case find_char (CHR ''/'') (drop at path) of
        Some slash \<Rightarrow> after_slashes n (at + slash + 1) path
      | None \<Rightarrow> None)"

lemma literals_fit_iff:
  assumes "sorted_wrt (<) (map fst ls)" "\<forall>(at, l) \<in> set ls. nxt \<le> at"
  shows "literals_fit nxt (drop nxt segs) ls \<longleftrightarrow>
    (\<forall>(at, l) \<in> set ls. at < length segs \<and> normalize_escapes (segs ! at) = l)"
  using assms
proof (induction ls arbitrary: nxt)
  case (Cons x ls)
  obtain at l where x: "x = (at, l)" by (cases x)
  have le: "nxt \<le> at" using Cons.prems x by simp
  show ?case
  proof (cases "at < length segs")
    case False
    then show ?thesis using le by (simp add: x)
  next
    case True
    then have "drop at segs = segs ! at # drop (Suc at) segs" by (simp add: Cons_nth_drop_Suc)
    moreover have "literals_fit (Suc at) (drop (Suc at) segs) ls \<longleftrightarrow>
        (\<forall>(at, l) \<in> set ls. at < length segs \<and> normalize_escapes (segs ! at) = l)"
      using Cons.prems x by (intro Cons.IH) auto
    ultimately show ?thesis using le True by (simp add: x same_octets_iff)
  qed
qed simp

lemma split_on_drop:
  assumes "find_char c s = Some k"
  shows "split_on c s = take k s # split_on c (drop (Suc k) s)"
proof -
  from assms have k: "k < length s" "s ! k = c" "c \<notin> set (take k s)" by (auto simp: find_char_Some)
  then have "s = take k s @ c # drop (Suc k) s" by (metis id_take_nth_drop)
  then show ?thesis using k(3) by (metis split_on_append split_on_single append_Cons append_Nil)
qed

lemma after_slashes_Some:
  assumes "after_slashes n at path = Some k" "at \<le> length path"
  shows "k \<le> length path \<and> at \<le> k \<and> n < length (split_on (CHR ''/'') (drop at path)) \<and>
    split_on (CHR ''/'') (drop k path) = drop n (split_on (CHR ''/'') (drop at path))
    \<and> (0 < n \<longrightarrow> 0 < k \<and> path ! (k - 1) = CHR ''/'')"
  using assms
proof (induction n at path rule: after_slashes.induct)
  case (2 n at path)
  then obtain j where j: "find_char (CHR ''/'') (drop at path) = Some j"
      "after_slashes n (at + j + 1) path = Some k"
    by (auto split: option.splits)
  have bound: "at + j + 1 \<le> length path" "path ! (at + j) = CHR ''/''"
    using j(1) 2(3) by (auto simp: find_char_Some)
  show ?case
    using 2(1) [OF j(1) j(2) bound(1)] split_on_drop [OF j(1)] j(2) bound(2)
    by (cases n) (auto simp: add.commute add.left_commute)
qed (auto simp: Suc_le_eq)

lemma after_slashes_None:
  assumes "after_slashes n at path = None" "at \<le> length path"
  shows "length (split_on (CHR ''/'') (drop at path)) \<le> n"
  using assms
proof (induction n at path rule: after_slashes.induct)
  case (2 n at path)
  show ?case
  proof (cases "find_char (CHR ''/'') (drop at path)")
    case None
    then show ?thesis by (simp add: find_char_None split_on_single)
  next
    case (Some j)
    then have "at + j + 1 \<le> length path" using 2(3) by (auto simp: find_char_Some)
    then show ?thesis
      using 2(1) [OF Some] 2(2) Some split_on_drop [OF Some] by (simp add: add.commute add.left_commute)
  qed
qed simp

lemma find_char_append: "c \<notin> set v \<Longrightarrow> find_char c (s @ v) = find_char c s"
proof (cases "find_char c s")
  case None
  assume "c \<notin> set v"
  with None have "find_char c (s @ v) = None" by (simp add: find_char_None)
  with None show ?thesis by simp
next
  case (Some k)
  then have "find_char c (s @ v) = Some k" by (auto simp: find_char_Some nth_append)
  with Some show ?thesis by simp
qed

lemma after_slashes_append:
  "CHR ''/'' \<notin> set v \<Longrightarrow> at \<le> length path \<Longrightarrow> after_slashes n at (path @ v) = after_slashes n at path"
proof (induction n at path rule: after_slashes.induct)
  case (2 n at path)
  have "at + k + 1 \<le> length path" if "find_char (CHR ''/'') (drop at path) = Some k" for k
    using that 2(3) by (auto simp: find_char_Some)
  then show ?case
    using 2 by (auto simp: find_char_append split: option.split)
qed simp

end
