(* ===== verification/Rule.thy ===== *)
theory Rule
  imports Prelude
begin

text \<open>
  \<open>transcode/rule.rs\<close> and \<open>transcode/select.rs\<close>: the HTTP bindings of an RPC, read from its
  \<open>google.api.http\<close> rule, and which RPCs are transcoded.

  The descriptors are those of the \<open>prost_reflect\<close> crate: a message is opaque, read by field
  name through an argument, and so is an RPC, with its rule, its name and its service. The
  check of a method token (\<open>Method::from_bytes\<close> of the \<open>http\<close> crate) is an argument too.
\<close>

section \<open>Bindings\<close>

text \<open>The method a binding answers; a method is its token.\<close>

datatype route_method = One string | Any

fun as_str :: "route_method \<Rightarrow> string" where
  "as_str (One m) = m"
| "as_str Any = ''*''"

text \<open>\<open>BodyMapping\<close> of \<open>transcode/request.rs\<close>.\<close>

datatype body_mapping = NoBody | RootBody | FieldBody string

definition body_mapping_parse :: "string \<Rightarrow> body_mapping" where
  "body_mapping_parse raw = (if raw = [] then NoBody else if raw = ''*'' then RootBody else FieldBody raw)"

record http_binding =
  hb_method :: route_method
  hb_path :: string
  hb_body :: body_mapping
  hb_response_body :: "string option"

text \<open>The values of \<open>prost_reflect\<close> the rules are read from.\<close>

datatype 'm pvalue = PString string | PMessage 'm | PList "'m pvalue list" | POther

type_synonym 'm fields = "'m \<Rightarrow> string \<Rightarrow> 'm pvalue option"

definition string_field :: "'m fields \<Rightarrow> 'm \<Rightarrow> string \<Rightarrow> string option" where
  "string_field get msg name =
     (case get msg name of Some (PString s) \<Rightarrow> if s \<noteq> [] then Some s else None | _ \<Rightarrow> None)"

fun find_map :: "('a \<Rightarrow> 'b option) \<Rightarrow> 'a list \<Rightarrow> 'b option" where
  "find_map f [] = None"
| "find_map f (x # xs) = (case f x of Some y \<Rightarrow> Some y | None \<Rightarrow> find_map f xs)"

definition standard_patterns :: "(string \<times> string) list" where
  "standard_patterns =
     [(''get'', ''GET''), (''put'', ''PUT''), (''post'', ''POST''), (''delete'', ''DELETE''), (''patch'', ''PATCH'')]"

definition standard_pattern :: "'m fields \<Rightarrow> 'm \<Rightarrow> (route_method \<times> string) option" where
  "standard_pattern get rule =
     find_map (\<lambda>(name, m). map_option (Pair (One m)) (string_field get rule name)) standard_patterns"

definition custom_pattern ::
  "'m fields \<Rightarrow> (string \<Rightarrow> bool) \<Rightarrow> 'm \<Rightarrow> (route_method \<times> string) option" where
  "custom_pattern get token rule =
     (case get rule ''custom'' of
        Some (PMessage custom) \<Rightarrow>
          do {
            kind \<leftarrow> string_field get custom ''kind'';
            path \<leftarrow> string_field get custom ''path'';
            m \<leftarrow> (if kind = ''*'' then Some Any else if token kind then Some (One kind) else None);
            Some (m, path)
          }
      | _ \<Rightarrow> None)"

definition parse_http_rule :: "'m fields \<Rightarrow> (string \<Rightarrow> bool) \<Rightarrow> 'm \<Rightarrow> http_binding option" where
  "parse_http_rule get token rule =
     (case (case standard_pattern get rule of Some p \<Rightarrow> Some p | None \<Rightarrow> custom_pattern get token rule) of
        None \<Rightarrow> None
      | Some (m, path) \<Rightarrow>
          Some \<lparr>hb_method = m, hb_path = path,
                hb_body = (case string_field get rule ''body'' of
                             Some body \<Rightarrow> body_mapping_parse body | None \<Rightarrow> NoBody),
                hb_response_body = string_field get rule ''response_body''\<rparr>)"

definition collect_bindings :: "'m fields \<Rightarrow> (string \<Rightarrow> bool) \<Rightarrow> 'm \<Rightarrow> http_binding list" where
  "collect_bindings get token rule =
     (case parse_http_rule get token rule of Some b \<Rightarrow> [b] | None \<Rightarrow> [])
     @ (case get rule ''additional_bindings'' of
          Some (PList items) \<Rightarrow>
            List.map_filter
              (\<lambda>item. case item of PMessage sub \<Rightarrow> parse_http_rule get token sub | _ \<Rightarrow> None) items
        | _ \<Rightarrow> [])"

text \<open>\<open>http_rule\<close> is the value of the extension, when the options of the RPC have it.\<close>

definition http_bindings ::
  "'m fields \<Rightarrow> (string \<Rightarrow> bool) \<Rightarrow> 'm pvalue option \<Rightarrow> http_binding list" where
  "http_bindings get token http_rule =
     (case http_rule of Some (PMessage rule) \<Rightarrow> collect_bindings get token rule | _ \<Rightarrow> [])"

section \<open>Selected RPCs\<close>

record selected_name =
  sel_service :: string
  sel_method :: "string option"

type_synonym rpc_selection = "selected_name list"

text \<open>A service of the pool, by its full name, with the names of its methods.\<close>

type_synonym pool = "(string \<times> string list) list"

definition select_name :: "pool \<Rightarrow> string \<Rightarrow> string + selected_name" where
  "select_name pool name =
     (let (service, m) = (case split_once (CHR ''/'') name of
                            Some (service, m) \<Rightarrow> (service, Some m) | None \<Rightarrow> (name, None));
          known = (case map_of pool service of
                     Some methods \<Rightarrow> (case m of None \<Rightarrow> True | Some m \<Rightarrow> m \<in> set methods)
                   | None \<Rightarrow> False)
      in if known then Inr \<lparr>sel_service = service, sel_method = m\<rparr> else Inl name)"

fun selection_new :: "pool \<Rightarrow> string list \<Rightarrow> string + rpc_selection" where
  "selection_new pool [] = Inr []"
| "selection_new pool (name # names) =
     (case select_name pool name of
        Inl e \<Rightarrow> Inl e
      | Inr n \<Rightarrow> (case selection_new pool names of Inl e \<Rightarrow> Inl e | Inr ns \<Rightarrow> Inr (n # ns)))"

definition is_all :: "rpc_selection \<Rightarrow> bool" where
  "is_all sel \<longleftrightarrow> sel = []"

definition selects :: "rpc_selection \<Rightarrow> string \<Rightarrow> string \<Rightarrow> bool" where
  "selects sel service m \<longleftrightarrow>
     is_all sel \<or>
     list_ex (\<lambda>name. sel_service name = service
                \<and> (case sel_method name of None \<Rightarrow> True | Some m' \<Rightarrow> m' = m)) sel"

section \<open>Properties\<close>

lemma string_field_nonempty: "string_field get msg name = Some s \<Longrightarrow> s \<noteq> []"
  by (auto simp: string_field_def split: option.splits pvalue.splits if_splits)

definition standard_methods :: "string list" where
  "standard_methods = map snd standard_patterns"

text \<open>A binding whose method is told apart by its name from the one that answers every method.\<close>

definition binding_wf :: "(string \<Rightarrow> bool) \<Rightarrow> http_binding \<Rightarrow> bool" where
  "binding_wf token b \<longleftrightarrow>
     (case hb_method b of One m \<Rightarrow> m \<noteq> ''*'' \<and> (token m \<or> m \<in> set standard_methods) | Any \<Rightarrow> True)
     \<and> hb_path b \<noteq> []
     \<and> (\<forall>f. hb_body b = FieldBody f \<longrightarrow> f \<noteq> [] \<and> f \<noteq> ''*'')
     \<and> hb_response_body b \<noteq> Some []"

lemma standard_pattern_wf:
  assumes "standard_pattern get rule = Some (m, path)"
  shows "path \<noteq> [] \<and> (\<exists>t \<in> set standard_methods. m = One t \<and> t \<noteq> ''*'')"
  using assms
  by (auto simp: standard_pattern_def standard_patterns_def standard_methods_def split: option.splits dest: string_field_nonempty)

lemma custom_pattern_wf:
  assumes "custom_pattern get token rule = Some (m, path)"
  shows "path \<noteq> [] \<and> (m = Any \<or> (\<exists>t. m = One t \<and> t \<noteq> ''*'' \<and> token t))"
  using assms
  by (auto simp: custom_pattern_def split: option.splits pvalue.splits if_splits bind_splits
           dest: string_field_nonempty)

lemma parse_http_rule_wf:
  assumes "parse_http_rule get token rule = Some b"
  shows "binding_wf token b"
proof -
  from assms obtain m path where pat: "standard_pattern get rule = Some (m, path) \<or> custom_pattern get token rule = Some (m, path)"
    and b: "b = \<lparr>hb_method = m, hb_path = path,
                hb_body = (case string_field get rule ''body'' of
                             Some body \<Rightarrow> body_mapping_parse body | None \<Rightarrow> NoBody),
                hb_response_body = string_field get rule ''response_body''\<rparr>"
    by (auto simp: parse_http_rule_def split: option.splits)
  have "path \<noteq> [] \<and> (m = Any \<or> (\<exists>t. m = One t \<and> t \<noteq> ''*'' \<and> (token t \<or> t \<in> set standard_methods)))"
    using pat standard_pattern_wf [of get rule m path] custom_pattern_wf [of get token rule m path] by blast
  then show ?thesis
    by (auto simp: b binding_wf_def body_mapping_parse_def dest: string_field_nonempty
        split: option.splits if_splits)
qed

lemma http_bindings_wf: "b \<in> set (http_bindings get token r) \<Longrightarrow> binding_wf token b"
  by (auto simp: http_bindings_def collect_bindings_def List.map_filter_def parse_http_rule_wf
           split: option.splits pvalue.splits dest!: sym [of "Some _"])

text \<open>
  C23. Whatever the rule of an RPC holds, each of its bindings has a path, a method that is a
  token of the \<open>http\<close> crate or one of the five of the rule, and a \<open>body\<close> that names a field
  only when it is neither empty nor \<open>*\<close>; and two bindings have the same method exactly when
  the names written in \<open>Allow\<close> are the same, the name \<open>*\<close> standing for every method alone.
\<close>

theorem rule_bindings_are_well_formed:
  assumes "b \<in> set (http_bindings get token r)" "c \<in> set (http_bindings get' token r')"
  shows "binding_wf token b \<and> (as_str (hb_method b) = as_str (hb_method c) \<longleftrightarrow> hb_method b = hb_method c)"
  using http_bindings_wf [OF assms(1)] http_bindings_wf [OF assms(2)]
  by (cases "hb_method b"; cases "hb_method c") (auto simp: binding_wf_def)

definition sample_rule :: "unit fields" where
  "sample_rule msg name =
     (if name = ''post'' then Some (PString ''/v1/books'')
      else if name = ''body'' then Some (PString ''book'') else None)"

theorem rule_bindings_are_well_formed_witness:
  "http_bindings sample_rule (\<lambda>m. False) (Some (PMessage ()))
     = [\<lparr>hb_method = One ''POST'', hb_path = ''/v1/books'', hb_body = FieldBody ''book'', hb_response_body = None\<rparr>]
   \<and> binding_wf (\<lambda>m. False)
       \<lparr>hb_method = One ''POST'', hb_path = ''/v1/books'', hb_body = FieldBody ''book'', hb_response_body = None\<rparr>"
proof -
  let ?b = "\<lparr>hb_method = One ''POST'', hb_path = ''/v1/books'', hb_body = FieldBody ''book'', hb_response_body = None\<rparr>"
  have "http_bindings sample_rule (\<lambda>m. False) (Some (PMessage ())) = [?b]"
    by (simp add: http_bindings_def collect_bindings_def parse_http_rule_def standard_pattern_def
        standard_patterns_def string_field_def sample_rule_def body_mapping_parse_def)
  then show ?thesis
    using rule_bindings_are_well_formed [of ?b sample_rule "\<lambda>m. False" "Some (PMessage ())" ?b sample_rule
        "Some (PMessage ())"]
    by simp
qed

text \<open>The names of a selection.\<close>

definition no_slash :: "pool \<Rightarrow> bool" where
  "no_slash pool \<longleftrightarrow> (\<forall>s \<in> fst ` set pool. CHR ''/'' \<notin> set s)"

definition names_rpc :: "string \<Rightarrow> string \<Rightarrow> string" where
  "names_rpc service m = service @ CHR ''/'' # m"

lemma select_name_service:
  assumes "no_slash pool" "map_of pool s = Some ms"
  shows "select_name pool s = Inr \<lparr>sel_service = s, sel_method = None\<rparr>"
    "m \<in> set ms \<Longrightarrow> select_name pool (names_rpc s m) = Inr \<lparr>sel_service = s, sel_method = Some m\<rparr>"
proof -
  have "CHR ''/'' \<notin> set s" using assms by (auto simp: no_slash_def dest!: map_of_SomeD)
  then show "select_name pool s = Inr \<lparr>sel_service = s, sel_method = None\<rparr>"
    "m \<in> set ms \<Longrightarrow> select_name pool (names_rpc s m) = Inr \<lparr>sel_service = s, sel_method = Some m\<rparr>"
    using assms by (simp_all add: select_name_def split_once_None split_once_Some names_rpc_def)
qed

lemma select_name_Inr:
  assumes "select_name pool name = Inr n"
  shows "n = \<lparr>sel_service = name, sel_method = None\<rparr> \<and> map_of pool name \<noteq> None
    \<or> (\<exists>s m. n = \<lparr>sel_service = s, sel_method = Some m\<rparr> \<and> name = names_rpc s m \<and> map_of pool s \<noteq> None)"
proof (cases "split_once (CHR ''/'') name")
  case None
  with assms show ?thesis by (auto simp: select_name_def split: if_splits option.splits)
next
  case (Some sm)
  obtain s m where "sm = (s, m)" by (cases sm)
  with Some assms show ?thesis
    by (auto simp: select_name_def names_rpc_def dest!: split_onceD split: if_splits option.splits)
qed

lemma select_name_Inl: "select_name pool name = Inl e \<Longrightarrow> e = name"
  by (auto simp: select_name_def Let_def split: if_splits prod.splits)

lemma selection_new_Inl:
  "selection_new pool names = Inl e \<Longrightarrow> e \<in> set names \<and> select_name pool e = Inl e"
  by (induction names) (auto split: sum.splits dest: select_name_Inl)

lemma selection_new_Inr:
  "selection_new pool names = Inr sel \<Longrightarrow> list_all2 (\<lambda>name n. select_name pool name = Inr n) names sel"
  by (induction names arbitrary: sel) (auto split: sum.splits)

lemma names_rpc_eq:
  "CHR ''/'' \<notin> set s \<Longrightarrow> CHR ''/'' \<notin> set t \<Longrightarrow> names_rpc s m = names_rpc t k \<longleftrightarrow> s = t \<and> m = k"
  by (metis names_rpc_def split_once_Some option.inject prod.inject)



end
