(* ===== verification/Table.thy ===== *)
theory Table
  imports Escapes Rule
begin

text \<open>
  The bindings of one router path (\<open>transcode/table.rs\<close>: \<open>PathTable\<close>, \<open>Binding\<close>, \<open>Verb\<close>,
  \<open>Template\<close>, \<open>Claim\<close>): which of them fit a request path, which of them answers a method,
  what \<open>Allow\<close> lists otherwise, and the path parameters of the one that answers.

  Percent-decoding is the \<open>percent_encoding\<close> crate's, an argument. A route entry has the
  fields the routes read; what the transcoder adds to it is the record's extension.
\<close>

unbundle bit_operations_syntax

section \<open>Bindings\<close>

record route_entry =
  http_path :: string
  http_method :: route_method
  grpc_path :: string
  streaming :: bool

record verb_text =
  v_raw :: string
  v_decoded :: string
  v_multi_segment :: string
  v_empty_ok :: bool

definition verb_new :: "(string \<Rightarrow> string) \<Rightarrow> string \<Rightarrow> bool \<Rightarrow> verb_text" where
  "verb_new percent_decode raw empty_ok =
     \<lparr>v_raw = normalize_escapes raw,
      v_decoded = from_utf8_lossy (percent_decode raw),
      v_multi_segment = normalize_escapes (from_utf8_lossy (decode_multi_segment percent_decode raw)),
      v_empty_ok = empty_ok\<rparr>"

record field_tmpl =
  t_raw :: "string list"
  t_segments :: "string list"
  t_start :: nat

definition template_of :: "mounted_path \<Rightarrow> field_tmpl option" where
  "template_of mount =
     map_option (\<lambda>raw. \<lparr>t_raw = raw, t_segments = map normalize_escapes raw, t_start = last_segment mount\<rparr>)
       (last_template mount)"

record 'e binding =
  b_entry :: "'e route_entry_scheme"
  b_names :: "string list option"
  b_verb :: "verb_text option"
  b_template :: "field_tmpl option"
  b_unbound :: "nat list"
  b_multi_segment :: "nat list"
  b_composites :: "composite list"
  b_literals :: "(nat \<times> string) list"

record 'e path_table =
  pt_path :: string
  pt_captures :: "string list"
  pt_bindings :: "'e binding list"
  pt_plain :: bool

definition constrained :: "'e binding \<Rightarrow> bool" where
  "constrained b \<longleftrightarrow> b_literals b \<noteq> [] \<or> b_template b \<noteq> None"

text \<open>The value from the capture at \<open>t_start\<close> up to \<open>end\<close> follows the template.\<close>

definition follows_upto :: "field_tmpl \<Rightarrow> string \<Rightarrow> nat \<Rightarrow> bool" where
  "follows_upto template path end \<longleftrightarrow>
     (case after_slashes (t_start template) 0 path of
        None \<Rightarrow> False
      | Some at \<Rightarrow>
          (case str_get path at end of
             None \<Rightarrow> False
           | Some v \<Rightarrow> follows (t_segments template) (if v \<noteq> [] then Some v else None)))"

definition fits :: "'e binding \<Rightarrow> string \<Rightarrow> bool" where
  "fits b path \<longleftrightarrow>
     literals_fit 0 (split_on (CHR ''/'') path) (b_literals b) \<and>
     (case b_template b of
        None \<Rightarrow> True
      | Some template \<Rightarrow>
          (case (b_verb b, split_verb path) of
             (Some _, Some (rest, _)) \<Rightarrow> follows_upto template path (length rest)
           | (Some _, None) \<Rightarrow> False
           | (None, _) \<Rightarrow> follows_upto template path (length path)))"

record claim =
  c_method :: route_method
  c_verb :: "string option"
  c_template :: "string list option"
  c_literals :: "(nat \<times> string) list"

definition normalized :: "string list option \<Rightarrow> string list option" where
  "normalized template = map_option (map normalize_escapes) template"

definition normalized_literals :: "(nat \<times> string) list \<Rightarrow> (nat \<times> string) list" where
  "normalized_literals ls = map (\<lambda>(at, literal). (at, normalize_escapes literal)) ls"

definition clash :: "claim \<Rightarrow> claim \<Rightarrow> bool" where
  "clash c d \<longleftrightarrow>
     map_option normalize_escapes (c_verb c) = map_option normalize_escapes (c_verb d)
     \<and> normalized (c_template c) = normalized (c_template d)
     \<and> length (c_literals c) = length (c_literals d)
     \<and> list_all (\<lambda>((at, a), (other_at, b)). at = other_at \<and> normalize_escapes a = normalize_escapes b)
         (zip (c_literals c) (c_literals d))
     \<and> (c_method c = c_method d \<or> c_method c = Any \<or> c_method d = Any)"

definition positions :: "bool list \<Rightarrow> nat list" where
  "positions marked = map fst (filter snd (List.enumerate 0 marked))"

section \<open>The table of a path\<close>

definition table_new ::
  "(string \<Rightarrow> string) \<Rightarrow> mounted_path \<Rightarrow> 'e route_entry_scheme \<Rightarrow> 'e path_table" where
  "table_new percent_decode mount entry =
     \<lparr>pt_path = axum mount, pt_captures = captures mount,
      pt_bindings =
        [\<lparr>b_entry = entry, b_names = None,
          b_verb = map_option (\<lambda>raw. verb_new percent_decode raw (empty_last mount)) (verb mount),
          b_template = template_of mount, b_unbound = positions (unbound mount),
          b_multi_segment = positions (multi_segment mount), b_composites = composites mount,
          b_literals = normalized_literals (literals mount)\<rparr>],
      pt_plain = (verb mount = None)\<rparr>"

definition mount_claim :: "mounted_path \<Rightarrow> 'e route_entry_scheme \<Rightarrow> claim" where
  "mount_claim mount entry =
     \<lparr>c_method = http_method entry, c_verb = verb mount, c_template = last_template mount,
      c_literals = literals mount\<rparr>"

definition binding_claim :: "'e binding \<Rightarrow> claim" where
  "binding_claim b =
     \<lparr>c_method = http_method (b_entry b), c_verb = map_option v_raw (b_verb b),
      c_template = map_option t_raw (b_template b), c_literals = b_literals b\<rparr>"

definition new_binding ::
  "(string \<Rightarrow> string) \<Rightarrow> mounted_path \<Rightarrow> 'e route_entry_scheme \<Rightarrow> 'e path_table \<Rightarrow> 'e binding" where
  "new_binding percent_decode mount entry t =
     \<lparr>b_entry = entry, b_names = (if captures mount \<noteq> pt_captures t then Some (captures mount) else None),
      b_verb = map_option (\<lambda>raw. verb_new percent_decode raw (empty_last mount)) (verb mount),
      b_template = template_of mount, b_unbound = positions (unbound mount),
      b_multi_segment = positions (multi_segment mount), b_composites = composites mount,
      b_literals = normalized_literals (literals mount)\<rparr>"

text \<open>A constrained binding goes before the first open one.\<close>

definition insert_at :: "'e binding \<Rightarrow> 'e binding list \<Rightarrow> nat" where
  "insert_at b bs = (if constrained b then length (takeWhile constrained bs) else length bs)"

definition table_add ::
  "(string \<Rightarrow> string) \<Rightarrow> mounted_path \<Rightarrow> 'e route_entry_scheme \<Rightarrow> 'e path_table \<Rightarrow> 'e path_table" where
  "table_add percent_decode mount entry t =
     (if list_ex (\<lambda>existing. clash (binding_claim existing) (mount_claim mount entry)) (pt_bindings t) then t
      else
        let b = new_binding percent_decode mount entry t;
            at = insert_at b (pt_bindings t)
        in t\<lparr>pt_plain := pt_plain t \<or> b_verb b = None,
             pt_bindings := take at (pt_bindings t) @ b # drop at (pt_bindings t)\<rparr>)"

definition binds_head :: "'e path_table \<Rightarrow> bool" where
  "binds_head t \<longleftrightarrow> list_ex (\<lambda>b. http_method (b_entry b) = One ''HEAD'') (pt_bindings t)"

definition literal_end :: "'e path_table \<Rightarrow> bool" where
  "literal_end t \<longleftrightarrow> \<not> ends_with ''}'' (pt_path t)"

section \<open>The choice among the bindings of a path\<close>

datatype choice = Route nat nat | MethodNotAllowed nat string | NotFound

text \<open>\<open>PathTable::allow\<close>.\<close>

definition method_name :: "'e path_table \<Rightarrow> nat \<Rightarrow> string" where
  "method_name t i = as_str (http_method (b_entry (pt_bindings t ! i)))"

definition allow_step ::
  "'e path_table \<Rightarrow> (nat \<Rightarrow> bool) \<Rightarrow> nat \<Rightarrow> string \<times> bool \<times> bool \<Rightarrow> string \<times> bool \<times> bool" where
  "allow_step t admitted i acc =
     (case acc of (text, get, head) \<Rightarrow>
        if \<not> admitted i then acc
        else let m = method_name t i;
                 listed = list_ex (\<lambda>earlier. method_name t earlier = m \<and> admitted earlier) [0..<i]
             in if listed then acc
                else ((if text \<noteq> [] then text @ '', '' else text) @ m, get \<or> m = ''GET'', head \<or> m = ''HEAD''))"

definition allow :: "'e path_table \<Rightarrow> (nat \<Rightarrow> bool) \<Rightarrow> string" where
  "allow t admitted =
     (case fold (allow_step t admitted) [0..<length (pt_bindings t)] ([], False, False) of
        (text, get, head) \<Rightarrow> if get \<and> \<not> head then text @ '', HEAD'' else text)"

text \<open>
  \<open>PathTable::choose\<close>: the loop with the first GET that may answer HEAD, the mask of the
  bindings admitted among the first 64, and whether one was admitted. \<open>Inl\<close> is the early return.
\<close>

fun choose_loop ::
  "string \<Rightarrow> ('e binding \<Rightarrow> bool) \<Rightarrow> nat \<Rightarrow> 'e binding list \<Rightarrow> nat option \<Rightarrow> 64 word \<Rightarrow> bool
   \<Rightarrow> nat + nat option \<times> 64 word \<times> bool" where
  "choose_loop m answers i [] head admitted answered = Inr (head, admitted, answered)"
| "choose_loop m answers i (b # bs) head admitted answered =
     (if \<not> answers b then choose_loop m answers (Suc i) bs head admitted answered
      else
        let admitted = (if i < 64 then admitted OR push_bit i 1 else admitted)
        in case http_method (b_entry b) of
             Any \<Rightarrow> Inl i
           | One bound \<Rightarrow>
               if bound = m then Inl i
               else if bound = ''GET'' \<and> m = ''HEAD''
               then choose_loop m answers (Suc i) bs (case head of None \<Rightarrow> Some i | Some h \<Rightarrow> Some h) admitted True
               else choose_loop m answers (Suc i) bs head admitted True)"

definition table_choose ::
  "'e path_table \<Rightarrow> nat \<Rightarrow> string \<Rightarrow> ('e binding \<Rightarrow> bool) \<Rightarrow> choice option" where
  "table_choose t table m answers =
     (case choose_loop m answers 0 (pt_bindings t) None 0 False of
        Inl i \<Rightarrow> Some (Route table i)
      | Inr (Some i, _, _) \<Rightarrow> Some (Route table i)
      | Inr (None, admitted, answered) \<Rightarrow>
          if answered
          then Some (MethodNotAllowed table
                 (allow t (\<lambda>i. if i < 64 then admitted AND push_bit i 1 \<noteq> 0 else answers (pt_bindings t ! i))))
          else None)"

section \<open>The path parameters of a binding\<close>

type_synonym path_params = "(string \<times> string) list"

text \<open>The value of the last capture without the verb, when it ends in it.\<close>

definition without_verb :: "verb_text \<Rightarrow> bool \<Rightarrow> string \<Rightarrow> string option" where
  "without_verb v multi val =
     (if multi then
        (if length (v_multi_segment v) \<le> length val then
           let start = length val - length (v_multi_segment v)
           in case str_get val start (length val) of
                Some tail \<Rightarrow> if same_octets tail (v_multi_segment v) then Some (take start val) else None
              | None \<Rightarrow> None
         else None)
      else strip_suffix (v_decoded v) val)"

definition strip_verb :: "'e path_table \<Rightarrow> 'e binding \<Rightarrow> nat \<Rightarrow> path_params \<Rightarrow> path_params" where
  "strip_verb t b base params =
     (case b_verb b of
        Some v \<Rightarrow>
          if pt_captures t \<noteq> [] then
            let end = length (pt_captures t) - 1; at = base + end
            in case without_verb v (end \<in> set (b_multi_segment b)) (snd (params ! at)) of
                 Some val \<Rightarrow> params[at := (fst (params ! at), val)]
               | None \<Rightarrow> params
          else params
      | None \<Rightarrow> params)"

text \<open>A panic on an index out of range is \<open>None\<close>.\<close>

definition param_at :: "path_params \<Rightarrow> nat \<Rightarrow> string option" where
  "param_at params at = (if at < length params then Some (snd (params ! at)) else None)"

fun composite_texts :: "path_params \<Rightarrow> nat \<Rightarrow> part list \<Rightarrow> string list option" where
  "composite_texts params base [] = Some []"
| "composite_texts params base (p # ps) =
     do {
       text \<leftarrow> (case p of PLiteral literal \<Rightarrow> Some literal | PCapture position \<Rightarrow> param_at params (base + position));
       texts \<leftarrow> composite_texts params base ps;
       Some (text # texts)
     }"

fun push_composites :: "nat \<Rightarrow> composite list \<Rightarrow> path_params \<Rightarrow> path_params option" where
  "push_composites base [] params = Some params"
| "push_composites base (c # cs) params =
     do {
       texts \<leftarrow> composite_texts params base (parts c);
       push_composites base cs (params @ [(field c, join_with ''/'' texts)])
     }"

definition swap :: "nat \<Rightarrow> nat \<Rightarrow> 'a list \<Rightarrow> 'a list" where
  "swap i j xs = xs[i := xs ! j, j := xs ! i]"

definition own_name :: "'e path_table \<Rightarrow> 'e binding \<Rightarrow> nat \<Rightarrow> string option" where
  "own_name t b position =
     (let names = (case b_names b of None \<Rightarrow> pt_captures t | Some names \<Rightarrow> names)
      in if position < length names then Some (names ! position) else None)"

text \<open>One turn of the loop that renames the captures in place and drops the unbound ones.\<close>

definition keep_step ::
  "'e path_table \<Rightarrow> 'e binding \<Rightarrow> nat \<Rightarrow> nat \<Rightarrow> path_params \<times> nat \<Rightarrow> (path_params \<times> nat) option" where
  "keep_step t b base at acc =
     (case acc of (params, kept) \<Rightarrow>
        if at < base then Some (swap kept at params, Suc kept)
        else if at - base \<in> set (b_unbound b) then Some (params, kept)
        else map_option (\<lambda>name. (swap kept at (params[at := (name, snd (params ! at))]), Suc kept))
               (own_name t b (at - base)))"

fun keep_loop ::
  "'e path_table \<Rightarrow> 'e binding \<Rightarrow> nat \<Rightarrow> nat list \<Rightarrow> path_params \<times> nat \<Rightarrow> (path_params \<times> nat) option" where
  "keep_loop t b base [] acc = Some acc"
| "keep_loop t b base (at # ats) acc = Option.bind (keep_step t b base at acc) (keep_loop t b base ats)"

definition bind_params :: "'e path_table \<Rightarrow> nat \<Rightarrow> path_params \<Rightarrow> path_params option" where
  "bind_params t i params =
     (if length (pt_captures t) \<le> length params then
        let b = pt_bindings t ! i;
            base = length params - length (pt_captures t);
            params = strip_verb t b base params;
            matched = length params
        in do {
             params \<leftarrow> push_composites base (b_composites b) params;
             (params, kept) \<leftarrow> keep_loop t b base [0..<matched] (params, 0);
             Some (take kept params @ drop matched params)
           }
      else None)"

section \<open>Fitting a path is exact\<close>

text \<open>The part of a request path that a binding's template covers: without the verb.\<close>

definition covered_part :: "'e binding \<Rightarrow> string \<Rightarrow> string option" where
  "covered_part b path = (case b_verb b of None \<Rightarrow> Some path | Some _ \<Rightarrow> map_option fst (split_verb path))"

definition template_fits :: "field_tmpl \<Rightarrow> string \<Rightarrow> bool" where
  "template_fits template base \<longleftrightarrow>
     (let segs = drop (t_start template) (split_on (CHR ''/'') base)
      in segs \<noteq> [] \<and> template_matches (t_segments template) (if segs = [[]] then [] else segs))"

lemma split_on_nil_drop: "split_on c (drop k s) = [[]] \<longleftrightarrow> drop k s = []"
  by (rule split_on_blank)

lemma follows_upto_iff:
  assumes "utf8_valid (base @ v)" "CHR ''/'' \<notin> set v" "v = [] \<or> (\<exists>w. v = CHR '':'' # w)"
  shows "follows_upto template (base @ v) (length base) \<longleftrightarrow> template_fits template base"
proof (cases "after_slashes (t_start template) 0 base")
  case None
  then show ?thesis
    using after_slashes_None [OF None]
    by (simp add: after_slashes_append [OF assms(2)] follows_upto_def template_fits_def)
next
  case (Some at)
  note at = after_slashes_Some [OF Some, simplified]
  have "is_char_boundary (base @ v) at"
  proof (cases "t_start template")
    case 0
    then show ?thesis using Some by (simp add: is_char_boundary_def)
  next
    case (Suc k)
    then have slash: "0 < at" "base ! (at - 1) = CHR ''/''" using at by auto
    then have "at - 1 < length base" using at by linarith
    with slash show ?thesis
      using utf8_boundary [OF assms(1), of "at - 1"] by (simp add: nth_append byte_def)
  qed
  moreover have "is_char_boundary (base @ v) (length base)"
    using assms(3) by (auto simp: is_char_boundary_def is_continuation_def byte_def)
  ultimately have "str_get (base @ v) at (length base) = Some (drop at base)"
    using at by (simp add: str_get_def)
  then show ?thesis
    using at split_on_nil_drop [of "CHR ''/''" at base] Some
    by (auto simp: after_slashes_append [OF assms(2)] follows_template_matches rest_segments_def Let_def
        follows_upto_def template_fits_def)
qed

text \<open>
  C25. A binding fits a request path exactly when each of its literals mounted as captures is
  the segment at its place up to the case of percent-escapes, and the segments from its last
  capture on, without the verb, are in the language of its field template: a literal takes
  the same segment, \<open>*\<close> one that is not empty, \<open>**\<close> any number. A value that is empty counts
  as no segment.
\<close>

theorem fits_is_exact:
  assumes "sorted_wrt (<) (map fst (b_literals b))" and utf8: "utf8_valid path"
  shows "fits b path \<longleftrightarrow>
    (\<forall>(at, literal) \<in> set (b_literals b).
       at < length (split_on (CHR ''/'') path) \<and> normalize_escapes (split_on (CHR ''/'') path ! at) = literal)
    \<and> (case b_template b of
         None \<Rightarrow> True
       | Some template \<Rightarrow>
           (case covered_part b path of None \<Rightarrow> False | Some base \<Rightarrow> template_fits template base))"
proof -
  have lits: "literals_fit 0 (split_on (CHR ''/'') path) (b_literals b) \<longleftrightarrow>
      (\<forall>(at, literal) \<in> set (b_literals b).
       at < length (split_on (CHR ''/'') path) \<and> normalize_escapes (split_on (CHR ''/'') path ! at) = literal)"
    using literals_fit_iff [OF assms(1), of 0 "split_on (CHR ''/'') path"] by auto
  have "follows_upto template path (length path) \<longleftrightarrow> template_fits template path" for template
    using follows_upto_iff [where base = path and v = "[]"] utf8 by simp
  moreover have "follows_upto template path (length rest) \<longleftrightarrow> template_fits template rest"
    if "split_verb path = Some (rest, v)" for rest v template
    using follows_upto_iff [where base = rest and v = v] split_verb_Some [OF that] utf8 by simp
  ultimately show ?thesis
    by (simp add: fits_def lits covered_part_def split: option.split)
qed

section \<open>The choice is exact\<close>

definition serves :: "string \<Rightarrow> 'e binding \<Rightarrow> bool" where
  "serves m b \<longleftrightarrow> http_method (b_entry b) = Any \<or> http_method (b_entry b) = One m"

definition gets :: "'e binding \<Rightarrow> bool" where
  "gets b \<longleftrightarrow> http_method (b_entry b) = One ''GET''"

definition admitted_from :: "nat \<Rightarrow> ('e binding \<Rightarrow> bool) \<Rightarrow> 'e binding list \<Rightarrow> (nat \<times> 'e binding) list" where
  "admitted_from i answers bs = filter (answers \<circ> snd) (List.enumerate i bs)"

text \<open>The methods in order, each once.\<close>

definition firsts :: "'a list \<Rightarrow> 'a list" where
  "firsts xs = rev (remdups (rev xs))"

definition allow_of :: "string list \<Rightarrow> string" where
  "allow_of ms =
     join_with '', '' (firsts ms @ (if ''GET'' \<in> set ms \<and> ''HEAD'' \<notin> set ms then [''HEAD''] else []))"

lemma firsts_snoc [simp]: "firsts [] = []" "firsts (xs @ [x]) = (if x \<in> set xs then firsts xs else firsts xs @ [x])"
  by (simp_all add: firsts_def)

lemma set_firsts [simp]: "set (firsts xs) = set xs"
  by (simp add: firsts_def)

lemma firsts_empty [simp]: "firsts xs = [] \<longleftrightarrow> xs = []"
  by (simp add: firsts_def)

lemma join_with_empty: "(\<forall>x \<in> set xs. x \<noteq> []) \<Longrightarrow> join_with sep xs = [] \<longleftrightarrow> xs = []"
  by (cases xs rule: rev_cases) (auto simp: join_with_snoc)

definition first_of :: "nat option \<Rightarrow> nat option \<Rightarrow> nat option" where
  "first_of a b = (case a of Some x \<Rightarrow> Some x | None \<Rightarrow> b)"

lemma admitted_from_simps [simp]:
  "admitted_from i answers [] = []"
  "admitted_from i answers (b # bs) =
     (if answers b then (i, b) # admitted_from (Suc i) answers bs else admitted_from (Suc i) answers bs)"
  by (simp_all add: admitted_from_def)

text \<open>What the loop returns, from the bindings \<open>bs\<close> at the positions from \<open>i\<close> on.\<close>

definition loop_result ::
  "string \<Rightarrow> ('e binding \<Rightarrow> bool) \<Rightarrow> nat \<Rightarrow> 'e binding list \<Rightarrow> nat option \<Rightarrow> 64 word \<Rightarrow> bool
   \<Rightarrow> nat + nat option \<times> 64 word \<times> bool \<Rightarrow> bool" where
  "loop_result m answers i bs head admitted answered r \<longleftrightarrow>
     (let adm = admitted_from i answers bs
      in case r of
           Inl j \<Rightarrow> \<exists>b. find (serves m \<circ> snd) adm = Some (j, b)
         | Inr (h, msk, a) \<Rightarrow>
             find (serves m \<circ> snd) adm = None
             \<and> h = first_of head (if m = ''HEAD'' then map_option fst (find (gets \<circ> snd) adm) else None)
             \<and> (a \<longleftrightarrow> answered \<or> adm \<noteq> [])
             \<and> (\<forall>j < 64. bit msk j \<longleftrightarrow>
                  bit admitted j \<or> i \<le> j \<and> j < i + length bs \<and> answers (bs ! (j - i))))"

lemma shift_nth:
  "(i \<le> j \<and> j < i + length (b # bs) \<and> P ((b # bs) ! (j - i))) \<longleftrightarrow>
     (j = i \<and> P b) \<or> (Suc i \<le> j \<and> j < Suc i + length bs \<and> P (bs ! (j - Suc i)))"
  by (cases "i < j") (auto simp: nth_Cons' Suc_le_eq)

lemma bit_push_one: "i < 64 \<Longrightarrow> bit (push_bit i (1 :: 64 word)) j \<longleftrightarrow> j = i"
  by (auto simp: bit_push_bit_iff bit_1_iff simp del: push_bit_of_1)

lemma and_push_one: "i < 64 \<Longrightarrow> (msk :: 64 word) AND push_bit i 1 \<noteq> 0 \<longleftrightarrow> bit msk i"
  by (auto simp: bit_eq_iff [of "msk AND _"] bit_and_iff bit_push_one simp del: push_bit_of_1)

lemma loop_result_skip:
  "\<not> answers b \<Longrightarrow> loop_result m answers (Suc i) bs head admitted answered r \<Longrightarrow>
   loop_result m answers i (b # bs) head admitted answered r"
  unfolding loop_result_def Let_def shift_nth by (cases r) auto

lemma loop_result_step:
  assumes "answers b" "\<not> serves m b"
    and "head' = (if gets b \<and> m = ''HEAD'' then first_of head (Some i) else head)"
    and "loop_result m answers (Suc i) bs head' (if i < 64 then admitted OR push_bit i 1 else admitted) True r"
  shows "loop_result m answers i (b # bs) head admitted answered r"
proof -
  have "bit (if i < 64 then admitted OR push_bit i 1 else admitted) j \<longleftrightarrow> bit admitted j \<or> j = i"
    if "j < 64" for j
    using that by (auto simp: bit_or_iff bit_push_one simp del: push_bit_of_1)
  then show ?thesis
    using assms unfolding loop_result_def Let_def shift_nth
    by (cases r) (auto simp: first_of_def split: option.split)
qed

lemma choose_loop_result:
  "loop_result m answers i bs head admitted answered (choose_loop m answers i bs head admitted answered)"
proof (induction m answers i bs head admitted answered rule: choose_loop.induct)
  case (1 m answers i head admitted answered)
  then show ?case by (auto simp: loop_result_def first_of_def split: option.split)
next
  case (2 m answers i b bs head admitted answered)
  show ?case
  proof (cases "answers b")
    case False
    then show ?thesis using 2(1) [OF False] by (simp add: loop_result_skip)
  next
    case True
    then have yes: "\<not> \<not> answers b" by simp
    show ?thesis
    proof (cases "http_method (b_entry b)")
      case Any
      then show ?thesis using True by (simp add: loop_result_def serves_def)
    next
      case (One bound)
      consider "bound = m" | "bound \<noteq> m" "bound = ''GET'' \<and> m = ''HEAD''"
        | "bound \<noteq> m" "\<not> (bound = ''GET'' \<and> m = ''HEAD'')" by blast
      then show ?thesis
      proof cases
        case 1
        then show ?thesis using One True by (simp add: loop_result_def serves_def)
      next
        case c: 2
        show ?thesis
          using 2(2) [OF yes refl One c] True One c
          by (intro loop_result_step [where head' = "case head of None \<Rightarrow> Some i | Some h \<Rightarrow> Some h"])
            (auto simp: serves_def gets_def first_of_def split: option.split)
      next
        case c: 3
        show ?thesis
          using 2(3) [OF yes refl One c] True One c
          by (intro loop_result_step [where head' = head]) (auto simp: serves_def gets_def)
      qed
    qed
  qed
qed

lemma allow_exact:
  assumes names: "\<forall>b \<in> set (pt_bindings t). as_str (http_method (b_entry b)) \<noteq> []"
  shows "allow t admitted = allow_of (map (method_name t) (filter admitted [0..<length (pt_bindings t)]))"
proof -
  let ?ms = "\<lambda>n. map (method_name t) (filter admitted [0..<n])"
  have "fold (allow_step t admitted) [0..<n] ([], False, False)
      = (join_with '', '' (firsts (?ms n)), ''GET'' \<in> set (?ms n), ''HEAD'' \<in> set (?ms n))"
    if "n \<le> length (pt_bindings t)" for n
    using that
  proof (induction n)
    case (Suc n)
    have ne: "join_with '', '' (firsts (?ms n)) = [] \<longleftrightarrow> firsts (?ms n) = []"
      using names Suc.prems by (intro join_with_empty) (auto simp: method_name_def)
    have listed: "list_ex (\<lambda>e. method_name t e = method_name t n \<and> admitted e) [0..<n]
        \<longleftrightarrow> method_name t n \<in> set (?ms n)"
      by (auto simp: list_ex_iff image_iff)
    show ?case
      using Suc ne listed by (auto simp: allow_step_def Let_def join_with_snoc)
  qed simp
  note run = this [OF order.refl]
  define ms where "ms = ?ms (length (pt_bindings t))"
  have "''GET'' \<in> set ms \<Longrightarrow> ms \<noteq> []" by auto
  then show ?thesis
    unfolding allow_def allow_of_def run ms_def [symmetric] prod.case by (simp add: join_with_snoc)
qed

lemma admitted_from_index:
  "admitted_from 0 answers bs = map (\<lambda>i. (i, bs ! i)) (filter (\<lambda>i. answers (bs ! i)) [0..<length bs])"
proof -
  have "List.enumerate 0 bs = map (\<lambda>i. (i, bs ! i)) [0..<length bs]"
    by (rule nth_equalityI) (simp_all add: nth_enumerate_eq)
  then show ?thesis by (simp add: admitted_from_def filter_map comp_def)
qed

text \<open>
  C26. Among the bindings admitted for a request, the one that serves it is the first whose
  method is the request's or every one, else, for a HEAD, the first GET. When one is
  admitted and none serves, the answer is 405 with exactly the methods of the admitted
  bindings in \<open>Allow\<close>, in binding order and each once, HEAD added after a GET; the mask
  of 64 bits that remembers the admitted bindings loses none. No answer means none is admitted.
\<close>

theorem table_choice_is_exact:
  assumes "\<forall>b \<in> set (pt_bindings t). as_str (http_method (b_entry b)) \<noteq> []"
  shows "table_choose t table m answers =
    (let adm = admitted_from 0 answers (pt_bindings t)
     in case find (serves m \<circ> snd) adm of
          Some (i, b) \<Rightarrow> Some (Route table i)
        | None \<Rightarrow>
            (case (if m = ''HEAD'' then find (gets \<circ> snd) adm else None) of
               Some (i, b) \<Rightarrow> Some (Route table i)
             | None \<Rightarrow>
                 if adm = [] then None
                 else Some (MethodNotAllowed table (allow_of (map (as_str \<circ> http_method \<circ> b_entry \<circ> snd) adm)))))"
proof (cases "choose_loop m answers 0 (pt_bindings t) None 0 False")
  case (Inl j)
  then show ?thesis
    using choose_loop_result [where m = m and answers = answers and i = 0 and bs = "pt_bindings t" and head = None
        and admitted = 0 and answered = False]
    by (auto simp: table_choose_def loop_result_def Let_def)
next
  case (Inr r)
  obtain h msk a where r: "r = (h, msk, a)" by (cases r)
  let ?bs = "pt_bindings t" and ?adm = "admitted_from 0 answers (pt_bindings t)"
  note res = choose_loop_result [where m = m and answers = answers and i = 0 and bs = "?bs" and head = None
      and admitted = 0 and answered = False, unfolded Inr r loop_result_def Let_def, simplified]
  have bits: "(if i < 64 then msk AND push_bit i 1 \<noteq> 0 else answers (?bs ! i)) \<longleftrightarrow> answers (?bs ! i)"
    if "i < length ?bs" for i
    using res that by (auto simp: and_push_one simp del: push_bit_of_1)
  have enum: "map (as_str \<circ> http_method \<circ> b_entry \<circ> snd) ?adm
      = map (method_name t) (filter (\<lambda>i. answers (?bs ! i)) [0..<length ?bs])"
    by (simp add: admitted_from_index method_name_def)
  have "filter (\<lambda>i. if i < 64 then msk AND push_bit i 1 \<noteq> 0 else answers (?bs ! i)) [0..<length ?bs]
      = filter (\<lambda>i. answers (?bs ! i)) [0..<length ?bs]"
    using bits by (intro filter_cong) auto
  then have allow: "allow t (\<lambda>i. if i < 64 then msk AND push_bit i 1 \<noteq> 0 else answers (?bs ! i))
      = allow_of (map (as_str \<circ> http_method \<circ> b_entry \<circ> snd) ?adm)"
    by (simp only: allow_exact [OF assms] enum)
  show ?thesis
    using res unfolding table_choose_def Inr r sum.case prod.case allow
    by (auto simp: first_of_def Let_def split: option.split)
qed

section \<open>The parameters are exact\<close>

text \<open>The well-formedness of a table's bindings: every position is one of a capture.\<close>

definition binding_ok :: "nat \<Rightarrow> 'e binding \<Rightarrow> bool" where
  "binding_ok n b \<longleftrightarrow>
     (case b_names b of None \<Rightarrow> True | Some names \<Rightarrow> length names = n)
     \<and> (\<forall>c \<in> set (b_composites b). \<forall>i. PCapture i \<in> set (parts c) \<longrightarrow> i < n \<and> i \<in> set (b_unbound b))
     \<and> sorted_wrt (<) (map fst (b_literals b))"

definition part_text :: "(nat \<Rightarrow> string) \<Rightarrow> part \<Rightarrow> string" where
  "part_text val p = (case p of PLiteral literal \<Rightarrow> literal | PCapture i \<Rightarrow> val i)"

definition composite_param :: "(nat \<Rightarrow> string) \<Rightarrow> composite \<Rightarrow> string \<times> string" where
  "composite_param val c = (field c, join_with ''/'' (map (part_text val) (parts c)))"

text \<open>The value of a capture for a binding: the last one without the verb.\<close>

definition capture_value :: "'e path_table \<Rightarrow> 'e binding \<Rightarrow> path_params \<Rightarrow> nat \<Rightarrow> string" where
  "capture_value t b own i =
     (let val = snd (own ! i)
      in case b_verb b of
           Some v \<Rightarrow> if Suc i = length (pt_captures t)
                      then case without_verb v (i \<in> set (b_multi_segment b)) val of Some w \<Rightarrow> w | None \<Rightarrow> val
                      else val
         | None \<Rightarrow> val)"

lemma strip_verb_params:
  assumes "length own = length (pt_captures t)"
  shows "strip_verb t b (length pre) (pre @ own)
    = pre @ map (\<lambda>i. (fst (own ! i), capture_value t b own i)) [0..<length own]"
proof -
  have plain: "own = map (\<lambda>i. (fst (own ! i), snd (own ! i))) [0..<length own]"
    by (simp add: map_nth)
  show ?thesis
  proof (cases "b_verb b")
    case None
    then show ?thesis using plain by (simp add: strip_verb_def capture_value_def)
  next
    case (Some v)
    show ?thesis
    proof (cases "own = []")
      case True
      then show ?thesis using assms Some by (simp add: strip_verb_def)
    next
      case False
      let ?e = "length own - 1"
      have e: "Suc ?e = length own" using False by simp
      have ne: "pt_captures t \<noteq> []" using False assms by auto
      have upd: "own[?e := (fst (own ! ?e), w)]
          = map (\<lambda>i. (fst (own ! i), if Suc i = length own then w else snd (own ! i))) [0..<length own]" for w
        using e by (intro nth_equalityI) (auto simp: nth_list_update)
      have at: "(pre @ own) ! (length pre + ?e) = own ! ?e" by (simp add: nth_append)
      show ?thesis
      proof (cases "without_verb v (?e \<in> set (b_multi_segment b)) (snd (own ! ?e))")
        case None
        then have "capture_value t b own i = snd (own ! i)" if "i < length own" for i
          using that e assms Some by (auto simp: capture_value_def Let_def) (metis diff_Suc_1 option.simps(4))
        then have "map (\<lambda>i. (fst (own ! i), capture_value t b own i)) [0..<length own] = own"
          by (subst (3) plain) (auto intro: map_cong)
        then show ?thesis using Some None ne assms by (simp add: strip_verb_def at)
      next
        case w: (Some w)
        then have "capture_value t b own i = (if Suc i = length own then w else snd (own ! i))"
          if "i < length own" for i
          using that e assms Some by (auto simp: capture_value_def Let_def) (metis diff_Suc_1 option.simps(5))
        then have "map (\<lambda>i. (fst (own ! i), capture_value t b own i)) [0..<length own]
            = own[?e := (fst (own ! ?e), w)]"
          unfolding upd by (auto intro: map_cong)
        then show ?thesis using Some w ne assms by (simp add: strip_verb_def at list_update_append Let_def)
      qed
    qed
  qed
qed

lemma composite_texts_Some:
  assumes "\<forall>i. PCapture i \<in> set ps \<longrightarrow> base + i < length params"
  shows "composite_texts params base ps = Some (map (part_text (\<lambda>i. snd (params ! (base + i)))) ps)"
  using assms by (induction ps) (auto simp: part_text_def param_at_def split: part.split)

lemma push_composites_Some:
  assumes "\<forall>c \<in> set cs. \<forall>i. PCapture i \<in> set (parts c) \<longrightarrow> base + i < length params"
  shows "push_composites base cs (params @ done)
    = Some (params @ done @ map (composite_param (\<lambda>i. snd (params ! (base + i)))) cs)"
  using assms
proof (induction cs arbitrary: "done")
  case (Cons c cs)
  have "map (part_text (\<lambda>i. snd ((params @ done) ! (base + i)))) (parts c)
      = map (part_text (\<lambda>i. snd (params ! (base + i)))) (parts c)"
    using Cons.prems by (auto simp: part_text_def nth_append split: part.split)
  moreover have "composite_texts (params @ done) base (parts c)
      = Some (map (part_text (\<lambda>i. snd ((params @ done) ! (base + i)))) (parts c))"
    using Cons.prems by (intro composite_texts_Some) (auto simp: trans_less_add1)
  ultimately have "composite_texts (params @ done) base (parts c)
      = Some (map (part_text (\<lambda>i. snd (params ! (base + i)))) (parts c))" by (simp only:)
  then show ?case
    using Cons.IH [of "done @ [(field c, join_with ''/'' (map (part_text (\<lambda>i. snd (params ! (base + i)))) (parts c)))]"]
      Cons.prems
    by (simp add: composite_param_def)
qed simp

lemma keep_loop_append:
  "keep_loop t b base (xs @ ys) acc = Option.bind (keep_loop t b base xs acc) (keep_loop t b base ys)"
  by (induction xs arbitrary: acc) (simp_all split: Option.bind_splits)

lemma swap_kept:
  assumes "kept \<le> n" "n < length qs"
  shows "take (Suc kept) (swap kept n qs) = take kept qs @ [qs ! n]"
    "drop (Suc n) (swap kept n qs) = drop (Suc n) qs" "length (swap kept n qs) = length qs"
  using assms
  by (auto simp: swap_def take_Suc_conv_app_nth nth_list_update take_update_cancel)

text \<open>The parameters kept after \<open>n\<close> turns.\<close>

definition kept_params ::
  "nat \<Rightarrow> nat list \<Rightarrow> (nat \<Rightarrow> string) \<Rightarrow> path_params \<Rightarrow> nat \<Rightarrow> path_params" where
  "kept_params base drops nm ps n =
     map (\<lambda>at. if at < base then ps ! at else (nm (at - base), snd (ps ! at)))
       (filter (\<lambda>at. at < base \<or> at - base \<notin> set drops) [0..<n])"

lemma keep_loop_Some:
  assumes "n \<le> length ps"
    and "\<forall>j < n - base. j \<notin> set (b_unbound b) \<longrightarrow> own_name t b j = Some (nm j)"
  shows "\<exists>qs. keep_loop t b base [0..<n] (ps, 0) = Some (qs, length (kept_params base (b_unbound b) nm ps n))
    \<and> take (length (kept_params base (b_unbound b) nm ps n)) qs = kept_params base (b_unbound b) nm ps n
    \<and> drop n qs = drop n ps \<and> length qs = length ps"
  using assms
proof (induction n)
  case 0
  then show ?case by (simp add: kept_params_def)
next
  case (Suc n)
  let ?k = "kept_params base (b_unbound b) nm ps"
  from Suc obtain qs where qs: "keep_loop t b base [0..<n] (ps, 0) = Some (qs, length (?k n))"
      "take (length (?k n)) qs = ?k n" "drop n qs = drop n ps" "length qs = length ps"
    by (auto simp: less_diff_conv)
  have kn: "length (?k n) \<le> n"
    unfolding kept_params_def length_map using length_filter_le [of _ "[0..<n]"] by simp
  have n: "n < length qs" using Suc.prems(1) qs(4) by simp
  have at: "qs ! n = ps ! n" using qs(3) n qs(4) by (metis hd_drop_conv_nth)
  have rest: "drop (Suc n) qs = drop (Suc n) ps" using qs(3) by (metis drop_Suc drop_tl tl_drop)
  consider "n < base" | "\<not> n < base" "n - base \<in> set (b_unbound b)"
    | "\<not> n < base" "n - base \<notin> set (b_unbound b)" by blast
  then show ?case
  proof cases
    case 1
    then show ?thesis
      using qs swap_kept [OF kn n] at rest
      by (auto simp: keep_loop_append keep_step_def kept_params_def)
  next
    case 2
    then show ?thesis
      using qs rest by (auto simp: keep_loop_append keep_step_def kept_params_def)
  next
    case 3
    then have name: "own_name t b (n - base) = Some (nm (n - base))" using Suc.prems(2) by auto
    let ?qs = "qs[n := (nm (n - base), snd (ps ! n))]"
    have "take (length (?k n)) ?qs = ?k n" using qs(2) kn by (simp add: take_update_cancel)
    then show ?thesis
      using 3 qs name swap_kept [OF kn, of ?qs] n at rest
      by (auto simp: keep_loop_append keep_step_def kept_params_def)
  qed
qed

lemma kept_params_split:
  assumes "length pre = base" "length own = n"
  shows "kept_params base drops nm (pre @ own @ xs) (base + n)
    = pre @ map (\<lambda>i. (nm i, snd (own ! i))) (filter (\<lambda>i. i \<notin> set drops) [0..<n])"
proof -
  have "[0..<base + n] = [0..<base] @ map (\<lambda>i. i + base) [0..<n]"
    by (metis add_0 map_add_upt upt_add_eq_append zero_le add.commute)
  then show ?thesis
    using assms
    by (auto simp: kept_params_def filter_map comp_def nth_append intro!: nth_equalityI)
qed

text \<open>
  C27. The path parameters of the binding that answers are exactly: those of the prefixes
  the router is nested under, as they came; then each capture that binds a field, under
  the binding's own name for it and in path order, the last one without the verb; then each
  field spelled out over several segments, put together from the captures. Renaming and
  dropping in place mixes none up, whatever the names are, and no index is out of range.
\<close>

theorem bind_params_is_exact:
  assumes "length own = length (pt_captures t)"
    and ok: "binding_ok (length (pt_captures t)) (pt_bindings t ! i)"
  shows "bind_params t i (pre @ own) =
    (let b = pt_bindings t ! i;
         names = (case b_names b of None \<Rightarrow> pt_captures t | Some names \<Rightarrow> names);
         val = capture_value t b own
     in Some (pre
          @ map (\<lambda>j. (names ! j, val j)) (filter (\<lambda>j. j \<notin> set (b_unbound b)) [0..<length own])
          @ map (composite_param val) (b_composites b)))"
proof -
  let ?b = "pt_bindings t ! i" and ?n = "length own"
  let ?names = "case b_names ?b of None \<Rightarrow> pt_captures t | Some names \<Rightarrow> names"
  let ?val = "capture_value t ?b own"
  define own' where "own' = map (\<lambda>i. (fst (own ! i), ?val i)) [0..<?n]"
  let ?comps = "map (composite_param ?val) (b_composites ?b)"
  have len: "length own' = ?n" and val: "snd (own' ! j) = ?val j" if "j < ?n" for j
    using that by (simp_all add: own'_def)
  have len: "length own' = ?n" by (simp add: own'_def)
  have strip: "strip_verb t ?b (length pre) (pre @ own) = pre @ own'"
    unfolding own'_def by (rule strip_verb_params [OF assms(1)])
  have below: "\<forall>c \<in> set (b_composites ?b). \<forall>i. PCapture i \<in> set (parts c) \<longrightarrow> i < ?n"
    using ok assms(1) by (auto simp: binding_ok_def)
  then have texts: "map (part_text (\<lambda>i. snd ((pre @ own') ! (length pre + i)))) (parts c) = map (part_text ?val) (parts c)"
    if "c \<in> set (b_composites ?b)" for c
    using that val by (auto simp: part_text_def nth_append split: part.split)
  have comps: "push_composites (length pre) (b_composites ?b) (pre @ own') = Some (pre @ own' @ ?comps)"
    using push_composites_Some [of "b_composites ?b" "length pre" "pre @ own'" "[]"] below len texts
    by (simp add: composite_param_def cong: map_cong)
  have names: "\<forall>j < ?n. j \<notin> set (b_unbound ?b) \<longrightarrow> own_name t ?b j = Some (?names ! j)"
    using ok assms(1) by (auto simp: own_name_def binding_ok_def split: option.split)
  obtain qs where loop:
      "keep_loop t ?b (length pre) [0..<length pre + ?n] (pre @ own' @ ?comps, 0)
       = Some (qs, length (kept_params (length pre) (b_unbound ?b) ((!) ?names) (pre @ own' @ ?comps) (length pre + ?n)))"
      "take (length (kept_params (length pre) (b_unbound ?b) ((!) ?names) (pre @ own' @ ?comps) (length pre + ?n))) qs
       = kept_params (length pre) (b_unbound ?b) ((!) ?names) (pre @ own' @ ?comps) (length pre + ?n)"
      "drop (length pre + ?n) qs = drop (length pre + ?n) (pre @ own' @ ?comps)"
    using keep_loop_Some [of "length pre + ?n" "pre @ own' @ ?comps" "length pre" ?b t "(!) ?names"] names len by auto
  have kept: "kept_params (length pre) (b_unbound ?b) ((!) ?names) (pre @ own' @ ?comps) (length pre + ?n)
      = pre @ map (\<lambda>j. (?names ! j, ?val j)) (filter (\<lambda>j. j \<notin> set (b_unbound ?b)) [0..<?n])"
    using kept_params_split [OF refl len] val by (simp cong: map_cong)
  show ?thesis
    unfolding bind_params_def Let_def
    using loop len by (simp add: strip comps kept assms(1) [symmetric])
qed

section \<open>The invariant of a table\<close>

definition table_ok :: "'e path_table \<Rightarrow> bool" where
  "table_ok t \<longleftrightarrow>
     pt_bindings t \<noteq> []
     \<and> (\<forall>b \<in> set (pt_bindings t). binding_ok (length (pt_captures t)) b)
     \<and> (pt_plain t \<longleftrightarrow> (\<exists>b \<in> set (pt_bindings t). b_verb b = None))
     \<and> sorted_wrt (\<lambda>a b. \<not> clash (binding_claim a) (binding_claim b)) (pt_bindings t)
     \<and> sorted_wrt (\<lambda>a b. constrained b \<longrightarrow> constrained a) (pt_bindings t)"

lemma clash_iff:
  "clash c d \<longleftrightarrow>
     map_option normalize_escapes (c_verb c) = map_option normalize_escapes (c_verb d)
     \<and> normalized (c_template c) = normalized (c_template d)
     \<and> normalized_literals (c_literals c) = normalized_literals (c_literals d)
     \<and> (c_method c = c_method d \<or> c_method c = Any \<or> c_method d = Any)"
proof -
  have "length xs = length ys \<and>
      list_all (\<lambda>((at, a), (other_at, b)). at = other_at \<and> normalize_escapes a = normalize_escapes b) (zip xs ys)
      \<longleftrightarrow> normalized_literals xs = normalized_literals ys" for xs ys
    by (induction xs ys rule: list_induct2') (auto simp: normalized_literals_def)
  then show ?thesis unfolding clash_def by blast
qed

lemma clash_sym: "clash c d \<longleftrightarrow> clash d c"
  by (auto simp: clash_iff)

lemma clash_refl: "clash c c"
  by (simp add: clash_iff)

lemma normalized_literals_idem: "normalized_literals (normalized_literals ls) = normalized_literals ls"
  by (simp add: normalized_literals_def case_prod_beta')

lemma new_binding_claim:
  "clash c (binding_claim (new_binding pd mount entry t)) \<longleftrightarrow> clash c (mount_claim mount entry)"
  by (simp add: clash_iff new_binding_def binding_claim_def mount_claim_def verb_new_def template_of_def
      option.map_comp comp_def option.map_ident normalized_literals_idem)

lemma in_positions: "i \<in> set (positions marked) \<longleftrightarrow> i < length marked \<and> marked ! i"
  by (auto simp: positions_def in_set_enumerate_eq image_iff)

lemma mount_binding_ok:
  assumes "mount = mounted_path_new tmpl"
    and "b_names b = None \<or> b_names b = Some (captures mount)"
    and "b_composites b = composites mount" "b_unbound b = positions (unbound mount)"
    and "b_literals b = normalized_literals (literals mount)"
  shows "binding_ok (length (captures mount)) b"
proof -
  obtain n where "mount_ok (mount, n)" "lits_ok (mount, n)" using mounted_path_ok assms(1) by blast
  moreover have "map fst (normalized_literals ls) = map fst ls" for ls
    by (simp add: normalized_literals_def case_prod_beta' comp_def)
  ultimately show ?thesis
    using assms
    by (auto simp: binding_ok_def mount_ok_def lits_ok_def writes_def composites_ok_def parts_ok_def in_positions
        split: option.split)
qed

lemma table_new_ok: "table_ok (table_new pd (mounted_path_new tmpl) entry)"
  by (auto simp: table_ok_def table_new_def intro!: mount_binding_ok)

lemma set_insert_at: "set (take k xs @ x # drop k xs) = insert x (set xs)"
  by (metis Un_insert_right append_take_drop_id list.simps(15) set_append)

lemma sorted_wrt_insert:
  assumes "sorted_wrt R xs" "\<forall>y \<in> set (take k xs). R y x" "\<forall>y \<in> set (drop k xs). R x y"
  shows "sorted_wrt R (take k xs @ x # drop k xs)"
proof -
  have "sorted_wrt R (take k xs @ drop k xs)" using assms(1) by simp
  then show ?thesis using assms(2,3) by (auto simp: sorted_wrt_append simp del: append_take_drop_id)
qed

lemma open_after_takeWhile:
  assumes "sorted_wrt (\<lambda>a b. P b \<longrightarrow> P a) xs" "y \<in> set (drop (length (takeWhile P xs)) xs)"
  shows "\<not> P y"
  using assms
proof (induction xs)
  case (Cons x xs)
  then show ?case by (cases "P x") auto
qed simp

lemma table_add_ok:
  assumes ok: "table_ok t" and mount: "mount = mounted_path_new tmpl"
    and len: "length (captures mount) = length (pt_captures t)"
  shows "table_ok (table_add pd mount entry t)"
proof (cases "list_ex (\<lambda>b. clash (binding_claim b) (mount_claim mount entry)) (pt_bindings t)")
  case True
  then show ?thesis using ok by (simp add: table_add_def)
next
  case False
  let ?b = "new_binding pd mount entry t" and ?bs = "pt_bindings t"
  let ?k = "insert_at ?b ?bs"
  have fresh: "\<not> clash (binding_claim b) (binding_claim ?b)" if "b \<in> set ?bs" for b
    using False that by (auto simp: list_ex_iff new_binding_claim)
  have bok: "binding_ok (length (pt_captures t)) ?b"
    using mount_binding_ok [OF mount, of ?b] len by (auto simp: new_binding_def)
  have sub: "set (take ?k ?bs) \<subseteq> set ?bs" "set (drop ?k ?bs) \<subseteq> set ?bs"
    by (auto dest: in_set_takeD in_set_dropD)
  have s1: "sorted_wrt (\<lambda>a b. \<not> clash (binding_claim a) (binding_claim b)) (take ?k ?bs @ ?b # drop ?k ?bs)"
    using ok fresh sub clash_sym by (intro sorted_wrt_insert) (auto simp: table_ok_def)
  have order: "sorted_wrt (\<lambda>a b. constrained b \<longrightarrow> constrained a) ?bs" using ok by (simp add: table_ok_def)
  have s2: "sorted_wrt (\<lambda>a b. constrained b \<longrightarrow> constrained a) (take ?k ?bs @ ?b # drop ?k ?bs)"
  proof (cases "constrained ?b")
    case True
    then have k: "?k = length (takeWhile constrained ?bs)" by (simp add: insert_at_def)
    have "take ?k ?bs = takeWhile constrained ?bs" unfolding k by (metis takeWhile_eq_take)
    moreover have "\<forall>y \<in> set (drop ?k ?bs). \<not> constrained y"
      using open_after_takeWhile [OF order] unfolding k by blast
    ultimately show ?thesis
      using True order by (intro sorted_wrt_insert) (auto dest: set_takeWhileD)
  next
    case False
    then show ?thesis
      using order by (intro sorted_wrt_insert) (auto simp: insert_at_def)
  qed
  define bs' where "bs' = take ?k ?bs @ ?b # drop ?k ?bs"
  have set: "set bs' = insert ?b (set ?bs)" unfolding bs'_def by (rule set_insert_at)
  then have ne: "bs' \<noteq> []" by auto
  have add: "table_add pd mount entry t = t\<lparr>pt_plain := pt_plain t \<or> b_verb ?b = None, pt_bindings := bs'\<rparr>"
    using False by (simp add: table_add_def Let_def bs'_def)
  show ?thesis
    unfolding add using ok bok s1 s2 ne by (auto simp: table_ok_def set bs'_def [symmetric])
qed

lemma table_add_bindings:
  "set (pt_bindings t) \<subseteq> set (pt_bindings (table_add pd mount entry t))"
  "\<exists>b \<in> set (pt_bindings (table_add pd mount entry t)). clash (binding_claim b) (mount_claim mount entry)"
  "pt_captures (table_add pd mount entry t) = pt_captures t"
  "pt_path (table_add pd mount entry t) = pt_path t"
  using new_binding_claim [of "binding_claim (new_binding pd mount entry t)" pd mount entry t] clash_refl
  by (auto simp: table_add_def Let_def list_ex_iff dest: in_set_takeD in_set_dropD)
    (metis append_take_drop_id in_set_conv_decomp_first Un_iff set_append)+

text \<open>The table of several bindings of one path.\<close>

definition add_all ::
  "(string \<Rightarrow> string) \<Rightarrow> (string \<times> 'e route_entry_scheme) list \<Rightarrow> 'e path_table \<Rightarrow> 'e path_table" where
  "add_all pd bs t = fold (\<lambda>(tmpl, entry) t. table_add pd (mounted_path_new tmpl) entry t) bs t"

definition table_of ::
  "(string \<Rightarrow> string) \<Rightarrow> string \<times> 'e route_entry_scheme \<Rightarrow> (string \<times> 'e route_entry_scheme) list \<Rightarrow> 'e path_table" where
  "table_of pd first bs = add_all pd bs (table_new pd (mounted_path_new (fst first)) (snd first))"

text \<open>A binding of the table answers the requests of the template's.\<close>

definition answers_for :: "'e path_table \<Rightarrow> string \<times> 'e route_entry_scheme \<Rightarrow> bool" where
  "answers_for t x \<longleftrightarrow>
     (\<exists>b \<in> set (pt_bindings t). clash (binding_claim b) (mount_claim (mounted_path_new (fst x)) (snd x)))"

lemma answers_for_add:
  "answers_for (table_add pd (mounted_path_new tmpl) entry t) (tmpl, entry)"
  "answers_for t x \<Longrightarrow> answers_for (table_add pd mount entry t) x"
  using table_add_bindings(2) table_add_bindings(1) unfolding answers_for_def by fastforce+

lemma add_all_ok:
  assumes "table_ok t" "\<forall>x \<in> set bs. length (captures (mounted_path_new (fst x))) = length (pt_captures t)"
  shows "table_ok (add_all pd bs t)"
    and "\<forall>x. answers_for t x \<or> x \<in> set bs \<longrightarrow> answers_for (add_all pd bs t) x"
proof -
  have "table_ok (add_all pd bs t) \<and> (\<forall>x. answers_for t x \<or> x \<in> set bs \<longrightarrow> answers_for (add_all pd bs t) x)"
    using assms
  proof (induction bs arbitrary: t)
    case Nil
    then show ?case by (simp add: add_all_def)
  next
    case (Cons x bs)
    let ?t = "table_add pd (mounted_path_new (fst x)) (snd x) t"
    have step: "add_all pd (x # bs) t = add_all pd bs ?t" by (simp add: add_all_def case_prod_beta')
    have "table_ok ?t" using Cons.prems by (intro table_add_ok) auto
    moreover have "pt_captures ?t = pt_captures t" by (rule table_add_bindings)
    ultimately have "table_ok (add_all pd bs ?t) \<and>
        (\<forall>y. answers_for ?t y \<or> y \<in> set bs \<longrightarrow> answers_for (add_all pd bs ?t) y)"
      using Cons.prems(2) by (intro Cons.IH) auto
    moreover have "answers_for ?t x" using answers_for_add(1) [where tmpl = "fst x" and entry = "snd x"] by simp
    ultimately show ?case unfolding step using answers_for_add(2) by (metis set_ConsD)
  qed
  then show "table_ok (add_all pd bs t)"
    "\<forall>x. answers_for t x \<or> x \<in> set bs \<longrightarrow> answers_for (add_all pd bs t) x" by auto
qed


section \<open>Examples\<close>

definition sample_entry :: "string \<Rightarrow> route_entry" where
  "sample_entry m = \<lparr>http_path = ''/v1/{name}'', http_method = One m, grpc_path = ''/p.S/M'', streaming = False\<rparr>"

definition sample_binding :: "string \<Rightarrow> unit binding" where
  "sample_binding m =
     \<lparr>b_entry = sample_entry m, b_names = None, b_verb = None,
      b_template = Some \<lparr>t_raw = [''a'', ''*''], t_segments = [''a'', ''*''], t_start = 2\<rparr>,
      b_unbound = [], b_multi_segment = [], b_composites = [], b_literals = [(1, ''v%2F'')]\<rparr>"

definition sample_table :: "unit path_table" where
  "sample_table =
     \<lparr>pt_path = ''/{v}/{*name}'', pt_captures = [''v'', ''name''],
      pt_bindings = [sample_binding ''GET'', sample_binding ''POST''], pt_plain = True\<rparr>"

theorem table_choice_is_exact_witness:
  "table_choose sample_table 3 ''PUT'' (\<lambda>b. True) = Some (MethodNotAllowed 3 ''GET, POST, HEAD'')
   \<and> table_choose sample_table 3 ''HEAD'' (\<lambda>b. True) = Some (Route 3 0)"
proof -
  have names: "\<forall>b \<in> set (pt_bindings sample_table). as_str (http_method (b_entry b)) \<noteq> []"
    by (simp add: sample_table_def sample_binding_def sample_entry_def)
  show ?thesis
    unfolding table_choice_is_exact [OF names]
    by (simp add: sample_table_def sample_binding_def sample_entry_def serves_def gets_def allow_of_def firsts_def)
qed

theorem fits_is_exact_witness:
  "fits (sample_binding ''GET'') ''/v%2f/a/b'' \<and> \<not> fits (sample_binding ''GET'') ''/v%2f/a/''"
proof -
  have lits: "sorted_wrt (<) (map fst (b_literals (sample_binding ''GET'')))" by (simp add: sample_binding_def)
  have utf8: "utf8_valid ''/v%2f/a/b''" "utf8_valid ''/v%2f/a/''"
    by (rule utf8_valid_ascii; simp add: byte_def)+
  have no: "\<not> template_matches [''a'', ''*''] [''a'', []]" "template_matches [''a'', ''*''] [''a'', ''b'']"
    by (auto simp: template_matches_one template_matches_Nil normalize_escapes_bytes normalized_bytes_def)
  show ?thesis
    unfolding fits_is_exact [OF lits utf8(1)] fits_is_exact [OF lits utf8(2)]
    using no
    by (simp add: sample_binding_def covered_part_def template_fits_def normalize_escapes_bytes normalized_bytes_def
        is_ascii_hexdigit_def byte_def upper_byte_def char_of_def)
qed

theorem bind_params_is_exact_witness:
  "bind_params sample_table 1 [(''tenant'', ''t''), (''v'', ''1''), (''name'', ''a/b'')]
   = Some [(''tenant'', ''t''), (''v'', ''1''), (''name'', ''a/b'')]"
proof -
  have "binding_ok (length (pt_captures sample_table)) (pt_bindings sample_table ! 1)"
    by (simp add: sample_table_def sample_binding_def binding_ok_def)
  from bind_params_is_exact [OF _ this, where own = "[(''v'', ''1''), (''name'', ''a/b'')]" and pre = "[(''tenant'', ''t'')]"]
  show ?thesis
    by (simp add: sample_table_def sample_binding_def capture_value_def Let_def numeral_2_eq_2 del: upt_Suc)
      (simp add: upt_rec)
qed


end
