(* ===== verification/Routes.thy ===== *)
theory Routes
  imports Table
begin

text \<open>
  Every transcoded route (\<open>transcode/table.rs\<close>: \<open>Routes\<close> and \<open>Ranked\<close>) and the choice of the
  binding that answers a request (\<open>Routes::choose_ranked\<close>, and \<open>choose\<close> and \<open>Direct::takes\<close> of
  \<open>transcode/mod.rs\<close>).

  The router is the \<open>matchit\<close> crate; whether its version lets a variable match an empty last
  segment is the argument \<open>el\<close>. The routers of single paths are held by those paths, and
  matching one of them is an argument of \<open>params_of\<close>.
\<close>

section \<open>The routes\<close>

record 'e routes =
  r_tables :: "'e path_table list"
  r_verbs :: "(string \<times> index) list"
  r_plain :: index
  r_by_path :: "(string \<times> nat) list"

text \<open>The verbs of a table, each once, into the index of each.\<close>

definition bound_verbs :: "'e path_table \<Rightarrow> string list" where
  "bound_verbs t = map v_raw (List.map_filter b_verb (pt_bindings t))"

definition verb_step ::
  "bool \<Rightarrow> string \<Rightarrow> nat \<Rightarrow> string \<Rightarrow> string list \<times> (string \<times> index) list \<Rightarrow> string list \<times> (string \<times> index) list" where
  "verb_step el path i raw acc =
     (case acc of (seen, verbs) \<Rightarrow>
        if raw \<in> set seen then acc
        else let ix = (case map_of verbs raw of Some ix \<Rightarrow> ix | None \<Rightarrow> index_new el)
             in (seen @ [raw], AList.update raw (index_insert path i ix) verbs))"

definition routes_step :: "bool \<Rightarrow> nat \<times> 'e path_table \<Rightarrow> 'e routes \<Rightarrow> 'e routes" where
  "routes_step el it r =
     (case it of (i, t) \<Rightarrow>
        r\<lparr>r_by_path := AList.update (pt_path t) i (r_by_path r),
          r_plain := (if pt_plain t then index_insert (pt_path t) i (r_plain r) else r_plain r),
          r_verbs := snd (fold (verb_step el (pt_path t) i) (bound_verbs t) ([], r_verbs r))\<rparr>)"

definition routes_new :: "bool \<Rightarrow> 'e path_table list \<Rightarrow> 'e routes" where
  "routes_new el tables =
     fold (routes_step el) (List.enumerate 0 tables)
       \<lparr>r_tables = tables, r_verbs = [], r_plain = index_new el, r_by_path = []\<rparr>"

definition table_at :: "'e routes \<Rightarrow> string \<Rightarrow> nat option" where
  "table_at r router_path = map_of (r_by_path r) router_path"

definition params_of ::
  "(string \<Rightarrow> string \<Rightarrow> path_params option) \<Rightarrow> 'e routes \<Rightarrow> nat \<Rightarrow> string \<Rightarrow> path_params option" where
  "params_of match_path r table path = match_path (pt_path (r_tables r ! table)) path"

section \<open>The choice\<close>

text \<open>
  \<open>Routes::answer\<close>: the tables of the index after \<open>first\<close>, the closure's breaks ending the loop.
\<close>

fun answer_rest ::
  "'e path_table list \<Rightarrow> string \<Rightarrow> ('e binding \<Rightarrow> bool) \<Rightarrow> (nat \<Rightarrow> bool) \<Rightarrow> nat \<Rightarrow> nat list \<Rightarrow> choice option
   \<Rightarrow> choice option" where
  "answer_rest tables m admits ranks first [] not_allowed = not_allowed"
| "answer_rest tables m admits ranks first (table # ts) not_allowed =
     (if table = first then answer_rest tables m admits ranks first ts not_allowed
      else if \<not> ranks table then not_allowed
      else case table_choose (tables ! table) table m admits of
             Some (MethodNotAllowed t a) \<Rightarrow>
               answer_rest tables m admits ranks first ts
                 (case not_allowed of None \<Rightarrow> Some (MethodNotAllowed t a) | Some c \<Rightarrow> Some c)
           | Some c \<Rightarrow> Some c
           | None \<Rightarrow> answer_rest tables m admits ranks first ts not_allowed)"

definition answer ::
  "'e routes \<Rightarrow> index \<Rightarrow> nat \<Rightarrow> string \<Rightarrow> string \<Rightarrow> ('e binding \<Rightarrow> bool) \<Rightarrow> (nat \<Rightarrow> bool) \<Rightarrow> choice option" where
  "answer r ix first m path admits ranks =
     (case table_choose (r_tables r ! first) first m admits of
        Some (MethodNotAllowed t a) \<Rightarrow>
          answer_rest (r_tables r) m admits ranks first (each ix path) (Some (MethodNotAllowed t a))
      | Some c \<Rightarrow> Some c
      | None \<Rightarrow> answer_rest (r_tables r) m admits ranks first (each ix path) None)"

definition plain_at :: "string \<Rightarrow> 'e binding \<Rightarrow> bool" where
  "plain_at path b \<longleftrightarrow> b_verb b = None \<and> fits b path"

definition bound_at :: "string \<Rightarrow> string \<Rightarrow> string \<Rightarrow> 'e binding \<Rightarrow> bool" where
  "bound_at path rest v b \<longleftrightarrow>
     (case b_verb b of
        Some own \<Rightarrow> v_raw own = v \<and> (v_empty_ok own \<or> \<not> ends_with ''/'' rest)
      | None \<Rightarrow> False) \<and> fits b path"

text \<open>The answer of the bindings of the request's verb, when some table binds it.\<close>

definition verb_answer ::
  "'e routes \<Rightarrow> nat \<Rightarrow> string \<Rightarrow> string \<Rightarrow> (nat \<Rightarrow> bool) \<Rightarrow> choice option" where
  "verb_answer r table m path ranks =
     (case split_verb path of
        None \<Rightarrow> None
      | Some (rest, raw) \<Rightarrow>
          let v = normalize_escapes raw
          in case map_of (r_verbs r) v of
               None \<Rightarrow> None
             | Some ix \<Rightarrow>
                 (case index_first ix path of
                    None \<Rightarrow> None
                  | Some first \<Rightarrow>
                      if first = table \<or> ranks first
                      then answer r ix first m path (bound_at path rest v) ranks else None))"

definition plain_answer ::
  "'e routes \<Rightarrow> nat \<Rightarrow> string \<Rightarrow> string \<Rightarrow> (nat \<Rightarrow> bool) \<Rightarrow> choice" where
  "plain_answer r table m path ranks =
     (case (if pt_plain (r_tables r ! table) then Some table
            else case index_first (r_plain r) path of
                   Some first \<Rightarrow> if ranks first then Some first else None
                 | None \<Rightarrow> None) of
        None \<Rightarrow> NotFound
      | Some first \<Rightarrow>
          (case answer r (r_plain r) first m path (plain_at path) ranks of Some c \<Rightarrow> c | None \<Rightarrow> NotFound))"

definition choose_ranked ::
  "'e routes \<Rightarrow> nat \<Rightarrow> string \<Rightarrow> string \<Rightarrow> (nat \<Rightarrow> bool) \<Rightarrow> choice" where
  "choose_ranked r table m path ranks =
     (case (if literal_end (r_tables r ! table)
            then table_choose (r_tables r ! table) table m (plain_at path) else None) of
        Some c \<Rightarrow> c
      | None \<Rightarrow>
          (case verb_answer r table m path ranks of
             Some c \<Rightarrow> c
           | None \<Rightarrow> plain_answer r table m path ranks))"

definition routes_choose :: "'e routes \<Rightarrow> nat \<Rightarrow> string \<Rightarrow> string \<Rightarrow> choice" where
  "routes_choose r table m path = choose_ranked r table m path (\<lambda>t. True)"

section \<open>Among the other routes\<close>

record ranked =
  rk_index :: index
  rk_tables :: nat
  rk_shared :: "string list list"
  rk_head :: "bool list"

text \<open>One other route into the ranking; \<open>None\<close> when it cannot be held.\<close>

definition rank_other ::
  "nat \<Rightarrow> string option \<times> string \<Rightarrow> index \<times> string list list \<Rightarrow> (index \<times> string list list) option" where
  "rank_other tables other acc =
     (case (other, acc) of ((m, path), (ix, shared)) \<Rightarrow>
        if \<not> holds path then None
        else case slot path ix of (ix, node, rest) \<Rightarrow>
          (case (slot_get ix node rest, m) of
             (None, _) \<Rightarrow> Some (slot_set ix node rest tables, shared)
           | (Some table, Some m) \<Rightarrow>
               if table < tables then Some (ix, shared[table := shared ! table @ [m]]) else Some (ix, shared)
           | (Some table, None) \<Rightarrow> if table < tables then None else Some (ix, shared)))"

fun rank_others ::
  "nat \<Rightarrow> (string option \<times> string) list \<Rightarrow> index \<times> string list list \<Rightarrow> (index \<times> string list list) option" where
  "rank_others tables [] acc = Some acc"
| "rank_others tables (other # others) acc = Option.bind (rank_other tables other acc) (rank_others tables others)"

definition table_routes :: "'e path_table list \<Rightarrow> (string \<times> nat) list" where
  "table_routes tables = map (\<lambda>(i, t). (pt_path t, i)) (List.enumerate 0 tables)"

definition ranked_new :: "bool \<Rightarrow> 'e routes \<Rightarrow> (string option \<times> string) list \<Rightarrow> ranked option" where
  "ranked_new el r others =
     (let tables = length (r_tables r);
          ix = fold (\<lambda>(path, i). index_insert path i) (table_routes (r_tables r)) (index_new el)
      in map_option
           (\<lambda>(ix, shared). \<lparr>rk_index = ix, rk_tables = tables, rk_shared = shared, rk_head = map binds_head (r_tables r)\<rparr>)
           (rank_others tables others (ix, replicate tables [])))"

definition theirs :: "ranked \<Rightarrow> nat \<Rightarrow> string \<Rightarrow> bool" where
  "theirs rk table m \<longleftrightarrow>
     (let shared = rk_shared rk ! table
      in m \<in> set shared \<or> m = ''HEAD'' \<and> \<not> rk_head rk ! table \<and> ''GET'' \<in> set shared)"

definition ranked_table :: "ranked \<Rightarrow> string \<Rightarrow> string \<Rightarrow> nat option" where
  "ranked_table rk m path =
     (case index_first (rk_index rk) path of
        None \<Rightarrow> None
      | Some table \<Rightarrow>
          if rk_tables rk \<le> table then None
          else if theirs rk table m then None else Some table)"

text \<open>\<open>Ranked::allow\<close>: a method is added when the list does not name it.\<close>

fun split_comma :: "string \<Rightarrow> string list" where
  "split_comma [] = [[]]"
| "split_comma [c] = [[c]]"
| "split_comma (c # d # s) =
     (if c = CHR '','' \<and> d = CHR '' '' then [] # split_comma s
      else case split_comma (d # s) of [] \<Rightarrow> [[c]] | w # ws \<Rightarrow> (c # w) # ws)"

definition allow_add :: "string \<Rightarrow> string \<Rightarrow> string" where
  "allow_add m text =
     (if m \<in> set (split_comma text) then text else (if text \<noteq> [] then text @ '', '' else text) @ m)"

definition ranked_allow :: "ranked \<Rightarrow> nat \<Rightarrow> string \<Rightarrow> string" where
  "ranked_allow rk table own =
     (let shared = rk_shared rk ! table
      in if shared = [] then own
         else let text = fold allow_add shared (case to_str own of Some text \<Rightarrow> text | None \<Rightarrow> [])
              in if ''GET'' \<in> set shared then allow_add ''HEAD'' text else text)"

fun rank_visit :: "ranked \<Rightarrow> nat \<Rightarrow> string \<Rightarrow> nat list \<Rightarrow> bool" where
  "rank_visit rk table m [] \<longleftrightarrow> False"
| "rank_visit rk table m (i # is) \<longleftrightarrow>
     (if rk_tables rk \<le> i \<or> theirs rk i m then False
      else if i = table then True else rank_visit rk table m is)"

definition ranks_first :: "ranked \<Rightarrow> nat \<Rightarrow> string \<Rightarrow> string \<Rightarrow> bool" where
  "ranks_first rk table m path \<longleftrightarrow> rank_visit rk table m (each (rk_index rk) path)"

text \<open>\<open>choose\<close> of \<open>transcode/mod.rs\<close>: the choice that rides on the request, if any.\<close>

definition choose_binding :: "'e routes \<Rightarrow> ranked option \<Rightarrow> nat \<Rightarrow> string \<Rightarrow> string \<Rightarrow> choice option" where
  "choose_binding r ranked table m path =
     (let c = (case ranked of
                 Some rk \<Rightarrow>
                   (case choose_ranked r table m path (\<lambda>other. ranks_first rk other m path) of
                      MethodNotAllowed t a \<Rightarrow> MethodNotAllowed t (ranked_allow rk t a)
                    | c \<Rightarrow> c)
               | None \<Rightarrow> routes_choose r table m path)
      in case c of NotFound \<Rightarrow> None | c \<Rightarrow> Some c)"

text \<open>\<open>Direct::takes\<close>.\<close>

definition takes :: "'e routes \<Rightarrow> ranked \<Rightarrow> string \<Rightarrow> string \<Rightarrow> choice option" where
  "takes r rk m path =
     (case ranked_table rk m path of Some table \<Rightarrow> choose_binding r (Some rk) table m path | None \<Rightarrow> None)"

section \<open>The routes index their tables\<close>

lemma table_routes_index: "table_routes tables = map (\<lambda>i. (pt_path (tables ! i), i)) [0..<length tables]"
proof -
  have "List.enumerate 0 tables = map (\<lambda>i. (i, tables ! i)) [0..<length tables]"
    by (rule nth_equalityI) (simp_all add: nth_enumerate_eq)
  then show ?thesis by (simp add: table_routes_def)
qed

text \<open>The index of the tables that satisfy \<open>Q\<close>.\<close>

definition some_tables :: "bool \<Rightarrow> ('e path_table \<Rightarrow> bool) \<Rightarrow> 'e path_table list \<Rightarrow> index" where
  "some_tables el Q tables = ranked_index el (filter (\<lambda>(path, i). Q (tables ! i)) (table_routes tables))"

definition patterns_distinct :: "'e path_table list \<Rightarrow> bool" where
  "patterns_distinct tables \<longleftrightarrow> distinct (map (pattern_of \<circ> pt_path) tables)"

lemma some_tables_lookup:
  assumes "patterns_distinct tables"
  shows "index_lookup (some_tables el Q tables) p = Some i
    \<longleftrightarrow> i < length tables \<and> p = pattern_of (pt_path (tables ! i)) \<and> Q (tables ! i)"
proof -
  let ?rs = "map (\<lambda>(p, t). (pattern_of p, t)) (filter (\<lambda>(path, i). Q (tables ! i)) (table_routes tables))"
  have rs: "?rs = map (\<lambda>i. (pattern_of (pt_path (tables ! i)), i)) (filter (\<lambda>i. Q (tables ! i)) [0..<length tables])"
    by (simp add: table_routes_index filter_map comp_def)
  have "inj_on (\<lambda>i. pattern_of (pt_path (tables ! i))) {0..<length tables}"
    using assms by (auto simp: patterns_distinct_def inj_on_def distinct_conv_nth) blast
  then have "distinct (map fst ?rs)"
    unfolding rs by (auto simp: distinct_map comp_def intro: inj_on_subset)
  then have "index_lookup (some_tables el Q tables) p = Some i \<longleftrightarrow> (p, i) \<in> set ?rs"
    unfolding some_tables_def ranked_index_ok(3) by (rule map_of_rev_distinct)
  then show ?thesis unfolding rs by auto
qed

lemma some_tables_each:
  assumes "patterns_distinct tables"
  shows "each (some_tables el Q tables) path
    = filter (\<lambda>i. Q (tables ! i)) (each (some_tables el (\<lambda>t. True) tables) path)"
proof (rule each_restrict)
  show "empty_last_ok (some_tables el Q tables) = empty_last_ok (some_tables el (\<lambda>t. True) tables)"
    by (simp add: some_tables_def ranked_index_ok(2))
qed (auto simp: some_tables_lookup [OF assms])

text \<open>The tables a path matches, in rank order.\<close>

definition matched_tables :: "bool \<Rightarrow> 'e path_table list \<Rightarrow> string \<Rightarrow> nat list" where
  "matched_tables el tables path = each (ranked_index el (table_routes tables)) path"

lemma matched_tables_each: "matched_tables el tables path = each (some_tables el (\<lambda>t. True) tables) path"
  by (simp add: matched_tables_def some_tables_def)

lemma matched_tables_bound:
  assumes "patterns_distinct tables"
  shows "distinct (matched_tables el tables path)" "i \<in> set (matched_tables el tables path) \<Longrightarrow> i < length tables"
  using each_distinct [of "some_tables el (\<lambda>t. True) tables"] each_member [of i "some_tables el (\<lambda>t. True) tables"]
  by (auto simp: matched_tables_each some_tables_lookup [OF assms])

lemma fold_verb_step:
  "map_of (snd (fold (verb_step el path i) raws (seen, verbs))) v =
     (if v \<in> set raws \<and> v \<notin> set seen
      then Some (index_insert path i (case map_of verbs v of Some ix \<Rightarrow> ix | None \<Rightarrow> index_new el))
      else map_of verbs v)"
  by (induction raws arbitrary: seen verbs)
    (auto simp: verb_step_def Let_def update_conv' split: option.split)

definition with_verb :: "string \<Rightarrow> 'e path_table \<Rightarrow> bool" where
  "with_verb v t \<longleftrightarrow> v \<in> set (bound_verbs t)"

lemma fold_routes_step:
  "r_tables (fold (routes_step el) its r) = r_tables r"
  "r_plain (fold (routes_step el) its r)
    = fold (\<lambda>(i, t). index_insert (pt_path t) i) (filter (\<lambda>(i, t). pt_plain t) its) (r_plain r)"
  "map_of (r_verbs (fold (routes_step el) its r)) v =
    (if filter (\<lambda>(i, t). with_verb v t) its = [] then map_of (r_verbs r) v
     else Some (fold (\<lambda>(i, t). index_insert (pt_path t) i) (filter (\<lambda>(i, t). with_verb v t) its)
            (case map_of (r_verbs r) v of Some ix \<Rightarrow> ix | None \<Rightarrow> index_new el)))"
  by (induction its arbitrary: r)
    (auto simp: routes_step_def fold_verb_step with_verb_def split: option.split)

lemma routes_new_fields:
  "r_tables (routes_new el tables) = tables"
  "r_plain (routes_new el tables) = some_tables el pt_plain tables"
  "map_of (r_verbs (routes_new el tables)) v =
     (if \<exists>t \<in> set tables. with_verb v t then Some (some_tables el (with_verb v) tables) else None)"
proof -
  have enum: "List.enumerate 0 tables = map (\<lambda>i. (i, tables ! i)) [0..<length tables]"
    by (rule nth_equalityI) (simp_all add: nth_enumerate_eq)
  have some: "fold (\<lambda>(i, t). index_insert (pt_path t) i) (filter (\<lambda>(i, t). Q t) (List.enumerate 0 tables)) (index_new el)
      = some_tables el Q tables" for Q :: "'a path_table \<Rightarrow> bool"
    unfolding enum some_tables_def ranked_index_def table_routes_index
    by (simp add: filter_map fold_map comp_def)
  have none: "filter (\<lambda>(i, t). Q t) (List.enumerate 0 tables) = [] \<longleftrightarrow> (\<forall>t \<in> set tables. \<not> Q t)"
    for Q :: "'a path_table \<Rightarrow> bool"
    unfolding enum by (auto simp: filter_empty_conv all_set_conv_all_nth)
  show "r_tables (routes_new el tables) = tables" by (simp add: routes_new_def fold_routes_step)
  show "r_plain (routes_new el tables) = some_tables el pt_plain tables"
    by (simp add: routes_new_def fold_routes_step some)
  show "map_of (r_verbs (routes_new el tables)) v =
     (if \<exists>t \<in> set tables. with_verb v t then Some (some_tables el (with_verb v) tables) else None)"
    by (simp add: routes_new_def fold_routes_step some none)
qed

section \<open>The choice is the scan of all matching tables\<close>

text \<open>
  The reference: every table in the given order, the first binding that serves, else the first 405.
\<close>

fun scan ::
  "'e path_table list \<Rightarrow> string \<Rightarrow> ('e binding \<Rightarrow> bool) \<Rightarrow> nat list \<Rightarrow> choice option \<Rightarrow> choice option" where
  "scan tables m admits [] not_allowed = not_allowed"
| "scan tables m admits (t # ts) not_allowed =
     (case table_choose (tables ! t) t m admits of
        Some (MethodNotAllowed t a) \<Rightarrow>
          scan tables m admits ts (case not_allowed of None \<Rightarrow> Some (MethodNotAllowed t a) | Some c \<Rightarrow> Some c)
      | Some c \<Rightarrow> Some c
      | None \<Rightarrow> scan tables m admits ts not_allowed)"

text \<open>
  What answers a request among the tables \<open>ts\<close> its path matches, \<open>table\<close> the best-ranked: an exact
  last segment, else the bindings of its verb, else those without one.
\<close>

definition choice_of :: "'e path_table list \<Rightarrow> nat list \<Rightarrow> nat \<Rightarrow> string \<Rightarrow> string \<Rightarrow> choice" where
  "choice_of tables ts table m path =
     (case (if literal_end (tables ! table) then table_choose (tables ! table) table m (plain_at path) else None) of
        Some c \<Rightarrow> c
      | None \<Rightarrow>
          (case (case split_verb path of
                   None \<Rightarrow> None
                 | Some (rest, v) \<Rightarrow> scan tables m (bound_at path rest (normalize_escapes v)) ts None) of
             Some c \<Rightarrow> c
           | None \<Rightarrow> (case scan tables m (plain_at path) ts None of Some c \<Rightarrow> c | None \<Rightarrow> NotFound)))"

lemma choose_loop_none:
  "\<forall>b \<in> set bs. \<not> answers b \<Longrightarrow> choose_loop m answers i bs h adm a = Inr (h, adm, a)"
  by (induction bs arbitrary: i) auto

lemma table_choose_none: "\<forall>b \<in> set (pt_bindings t). \<not> answers b \<Longrightarrow> table_choose t k m answers = None"
  by (simp add: table_choose_def choose_loop_none)

lemma scan_filter:
  assumes "\<forall>t \<in> set ts. \<not> P t \<longrightarrow> table_choose (tables ! t) t m admits = None"
  shows "scan tables m admits (filter P ts) na = scan tables m admits ts na"
  using assms by (induction ts arbitrary: na) (auto split: option.split choice.split)

lemma answer_rest_scan:
  "first \<notin> set ts \<Longrightarrow>
   answer_rest tables m admits ranks first ts na = scan tables m admits (takeWhile ranks ts) na"
  by (induction ts arbitrary: na) (auto split: option.split choice.split)

lemma answer_scan:
  assumes "each ix path = first # rest" "first \<notin> set rest"
  shows "answer r ix first m path admits ranks = scan (r_tables r) m admits (first # takeWhile ranks rest) None"
  using assms by (simp add: answer_def answer_rest_scan split: option.split choice.split)

lemma takeWhile_filter:
  assumes "takeWhile R ts = filter R ts"
  shows "takeWhile R (filter P ts) = filter P (filter R ts)"
  using assms
proof (induction ts)
  case (Cons t ts)
  show ?case
  proof (cases "R t")
    case True
    then show ?thesis using Cons by auto
  next
    case False
    then have "filter R ts = []" using Cons.prems by simp
    then have "\<forall>x \<in> set ts. \<not> R x" by (simp add: filter_empty_conv)
    moreover have "takeWhile R zs = []" if "\<forall>x \<in> set zs. \<not> R x" for zs using that by (cases zs) auto
    ultimately have "takeWhile R (filter P (t # ts)) = []" using False by auto
    with False \<open>filter R ts = []\<close> show ?thesis by simp
  qed
qed simp

text \<open>The answer of the tables of an index, from the scan of all of them.\<close>

lemma index_answer_scan:
  assumes dist: "patterns_distinct tables" and r: "r_tables r = tables"
    and closed: "takeWhile ranks (matched_tables el tables path) = filter ranks (matched_tables el tables path)"
    and none: "\<And>t. t < length tables \<Longrightarrow> \<not> Q (tables ! t) \<Longrightarrow> table_choose (tables ! t) t m admits = None"
    and ix: "ix = some_tables el Q tables"
  shows "(case index_first ix path of
            None \<Rightarrow> None
          | Some first \<Rightarrow> if ranks first then answer r ix first m path admits ranks else None)
    = scan tables m admits (filter ranks (matched_tables el tables path)) None"
proof -
  let ?ts = "matched_tables el tables path" and ?P = "\<lambda>i. Q (tables ! i)"
  have each: "each ix path = filter ?P ?ts"
    unfolding ix matched_tables_each by (rule some_tables_each [OF dist])
  have "scan tables m admits (filter ?P (filter ranks ?ts)) None = scan tables m admits (filter ranks ?ts) None"
    using none matched_tables_bound(2) [OF dist] by (intro scan_filter) auto
  then have goal: "scan tables m admits (filter ranks ?ts) None = scan tables m admits (takeWhile ranks (filter ?P ?ts)) None"
    unfolding takeWhile_filter [OF closed] by simp
  show ?thesis
  proof (cases "filter ?P ?ts")
    case Nil
    then show ?thesis unfolding goal by (simp add: index_first_def each)
  next
    case (Cons first rest)
    have "first \<notin> set rest"
      using distinct_filter [OF matched_tables_bound(1) [OF dist], of ?P el path] unfolding Cons by simp
    then have "answer r ix first m path admits ranks = scan tables m admits (first # takeWhile ranks rest) None"
      using answer_scan [of ix path first rest r m admits ranks] each Cons r by simp
    then show ?thesis unfolding goal Cons by (simp add: index_first_def each Cons)
  qed
qed

text \<open>A table's flag says whether it has a binding without a verb.\<close>

definition plain_flags :: "'e path_table list \<Rightarrow> bool" where
  "plain_flags tables \<longleftrightarrow> (\<forall>t \<in> set tables. pt_plain t \<longleftrightarrow> (\<exists>b \<in> set (pt_bindings t). b_verb b = None))"

lemma verb_answer_scan:
  assumes dist: "patterns_distinct tables"
    and closed: "takeWhile ranks (matched_tables el tables path) = filter ranks (matched_tables el tables path)"
    and table: "ranks table"
  shows "verb_answer (routes_new el tables) table m path ranks =
    (case split_verb path of
       None \<Rightarrow> None
     | Some (rest, v) \<Rightarrow>
         scan tables m (bound_at path rest (normalize_escapes v)) (filter ranks (matched_tables el tables path)) None)"
proof (cases "split_verb path")
  case None
  then show ?thesis by (simp add: verb_answer_def)
next
  case (Some rv)
  obtain rest raw where rv: "rv = (rest, raw)" by (cases rv)
  let ?v = "normalize_escapes raw" and ?ts = "filter ranks (matched_tables el tables path)"
  have none: "table_choose (tables ! t) t m (bound_at path rest ?v) = None"
    if "t < length tables" "\<not> with_verb ?v (tables ! t)" for t
  proof (rule table_choose_none)
    show "\<forall>b \<in> set (pt_bindings (tables ! t)). \<not> bound_at path rest ?v b"
      using that(2) by (force simp: with_verb_def bound_verbs_def bound_at_def List.map_filter_def split: option.splits)
  qed
  show ?thesis
  proof (cases "\<exists>t \<in> set tables. with_verb ?v t")
    case True
    have "(first = table \<or> ranks first) = ranks first" for first using table by auto
    then have "verb_answer (routes_new el tables) table m path ranks =
        (case index_first (some_tables el (with_verb ?v) tables) path of
           None \<Rightarrow> None
         | Some first \<Rightarrow> if ranks first
             then answer (routes_new el tables) (some_tables el (with_verb ?v) tables) first m path (bound_at path rest ?v) ranks
             else None)"
      using True by (auto simp: verb_answer_def Some rv routes_new_fields(3) Let_def split: option.split)
    also have "\<dots> = scan tables m (bound_at path rest ?v) ?ts None"
      by (rule index_answer_scan [OF dist routes_new_fields(1) closed none refl])
    finally show ?thesis by (simp add: Some rv)
  next
    case False
    then have "scan tables m (bound_at path rest ?v) (filter (\<lambda>t. False) ?ts) None = scan tables m (bound_at path rest ?v) ?ts None"
      using none matched_tables_bound(2) [OF dist] by (intro scan_filter) auto
    then show ?thesis
      using False by (simp add: verb_answer_def Some rv routes_new_fields(3) Let_def)
  qed
qed

lemma plain_answer_scan:
  assumes dist: "patterns_distinct tables" and flags: "plain_flags tables"
    and closed: "takeWhile ranks (matched_tables el tables path) = filter ranks (matched_tables el tables path)"
    and table: "ranks table" "matched_tables el tables path = table # others"
  shows "plain_answer (routes_new el tables) table m path ranks =
    (case scan tables m (plain_at path) (filter ranks (matched_tables el tables path)) None of Some c \<Rightarrow> c | None \<Rightarrow> NotFound)"
proof -
  let ?r = "routes_new el tables" and ?ix = "some_tables el pt_plain tables"
  have none: "table_choose (tables ! t) t m (plain_at path) = None" if "t < length tables" "\<not> pt_plain (tables ! t)" for t
    using that flags by (intro table_choose_none) (auto simp: plain_at_def plain_flags_def)
  have scan: "(case index_first ?ix path of
            None \<Rightarrow> None
          | Some first \<Rightarrow> if ranks first then answer ?r ?ix first m path (plain_at path) ranks else None)
    = scan tables m (plain_at path) (filter ranks (matched_tables el tables path)) None"
    by (rule index_answer_scan [OF dist routes_new_fields(1) closed none refl])
  have "index_first ?ix path = Some table" if "pt_plain (tables ! table)"
    using that some_tables_each [OF dist, of el pt_plain path] table(2)
    by (simp add: index_first_def matched_tables_each)
  then show ?thesis
    unfolding scan [symmetric] plain_answer_def routes_new_fields(1,2)
    using table(1) by (auto split: option.split)
qed

lemma choose_ranked_scan:
  assumes dist: "patterns_distinct tables" and flags: "plain_flags tables"
    and closed: "takeWhile ranks (matched_tables el tables path) = filter ranks (matched_tables el tables path)"
    and table: "ranks table" "matched_tables el tables path = table # others"
  shows "choose_ranked (routes_new el tables) table m path ranks
    = choice_of tables (filter ranks (matched_tables el tables path)) table m path"
  unfolding choose_ranked_def choice_of_def verb_answer_scan [OF dist closed table(1)]
    plain_answer_scan [OF dist flags closed table] routes_new_fields(1) by (rule refl)

text \<open>
  C29. What answers a request that the router matched to its best-ranked path is what a scan of
  every table its path matches gives, in rank order: a path ending in the exact last segment
  first; else the bindings of the verb the path ends in, wherever they are mounted; else those
  without a verb, a verb none binds staying part of the last variable. The indexes of the
  verbs and of the tables without one, and the short cut through the matched table, change nothing.
\<close>

theorem choice_is_the_scan_of_matching_tables:
  assumes "patterns_distinct tables" "plain_flags tables" "matched_tables el tables path = table # others"
  shows "routes_choose (routes_new el tables) table m path
    = choice_of tables (matched_tables el tables path) table m path"
  using choose_ranked_scan [OF assms(1,2) _ _ assms(3), of "\<lambda>t. True" m] by (simp add: routes_choose_def)

section \<open>The tables before the other routes\<close>

text \<open>The ranking holds each table under its pattern, and others beside them.\<close>

definition ranking_ok :: "bool \<Rightarrow> 'e path_table list \<Rightarrow> index \<times> string list list \<Rightarrow> bool" where
  "ranking_ok el tables acc \<longleftrightarrow>
     index_wf (fst acc) \<and> empty_last_ok (fst acc) = el \<and> length (snd acc) = length tables
     \<and> (\<forall>p i. i < length tables \<longrightarrow>
          index_lookup (fst acc) p = Some i \<longleftrightarrow> p = pattern_of (pt_path (tables ! i)))"

lemma rank_other_ok:
  assumes "ranking_ok el tables acc" "rank_other (length tables) other acc = Some acc'"
  shows "ranking_ok el tables acc'"
proof -
  obtain m path where other: "other = (m, path)" by (cases other)
  obtain ix shared where acc: "acc = (ix, shared)" by (cases acc)
  obtain ix' n c where slot: "slot path ix = (ix', n, c)" by (cases "slot path ix")
  have wf: "index_wf ix" using assms(1) by (simp add: ranking_ok_def acc)
  note ok = slot_ok [OF wf slot]
  have grown: "ranking_ok el tables (ix', shared')" if "length shared' = length tables" for shared'
    using assms(1) that ok(1,2,3) by (simp add: ranking_ok_def acc)
  have set: "slot_set ix' n c (length tables) = index_insert path (length tables) ix"
    by (simp add: index_insert_def slot)
  have len: "length shared = length tables" using assms(1) by (simp add: ranking_ok_def acc)
  show ?thesis
  proof (cases "index_lookup ix (pattern_of path)")
    case None
    then have acc': "acc' = (index_insert path (length tables) ix, shared)"
      using assms(2) by (simp add: rank_other_def other acc slot ok(7) set split: if_splits)
    have "pattern_of path \<noteq> pattern_of (pt_path (tables ! i))" if "i < length tables" for i
      using None assms(1) that unfolding ranking_ok_def acc by (metis fst_conv option.distinct(1))
    then show ?thesis
      unfolding acc' using assms(1) index_insert_ok [OF wf, of path "length tables"]
      by (auto simp: ranking_ok_def acc)
  next
    case (Some t)
    have "acc' = (ix', shared) \<or> (\<exists>s. acc' = (ix', s) \<and> length s = length shared)"
      using assms(2) Some by (auto simp: rank_other_def other acc slot ok(7) split: if_splits option.splits)
    then show ?thesis using grown len by auto
  qed
qed

lemma rank_others_ok:
  "ranking_ok el tables acc \<Longrightarrow> rank_others (length tables) others acc = Some acc' \<Longrightarrow> ranking_ok el tables acc'"
proof (induction others arbitrary: acc)
  case (Cons other others)
  then obtain acc1 where "rank_other (length tables) other acc = Some acc1" "rank_others (length tables) others acc1 = Some acc'"
    by (auto split: Option.bind_splits)
  with Cons rank_other_ok show ?case by blast
qed simp

lemma ranked_new_ok:
  assumes "patterns_distinct tables" "ranked_new el (routes_new el tables) others = Some rk"
  shows "rk_tables rk = length tables"
    "filter (\<lambda>i. i < length tables) (each (rk_index rk) path) = matched_tables el tables path"
proof -
  let ?ix = "ranked_index el (table_routes tables)"
  have all: "?ix = some_tables el (\<lambda>t. True) tables" by (simp add: some_tables_def)
  have "ranking_ok el tables (?ix, replicate (length tables) [])"
    by (auto simp: ranking_ok_def all some_tables_lookup [OF assms(1)])
      (simp_all add: some_tables_def ranked_index_ok)
  moreover obtain shared where run: "rank_others (length tables) others (?ix, replicate (length tables) [])
      = Some (rk_index rk, shared)" and n: "rk_tables rk = length tables"
    using assms(2) by (auto simp: ranked_new_def routes_new_fields Let_def ranked_index_def)
  ultimately have ok: "ranking_ok el tables (rk_index rk, shared)" using rank_others_ok by blast
  show "rk_tables rk = length tables" by (rule n)
  show "filter (\<lambda>i. i < length tables) (each (rk_index rk) path) = matched_tables el tables path"
    unfolding matched_tables_each
  proof (rule each_restrict [symmetric])
    show "empty_last_ok (some_tables el (\<lambda>t. True) tables) = empty_last_ok (rk_index rk)"
      using ok by (simp add: ranking_ok_def some_tables_def ranked_index_ok)
  qed (use ok in \<open>auto simp: ranking_ok_def some_tables_lookup [OF assms(1)]\<close>)
qed

text \<open>The tables before the first route that takes the request from them.\<close>

definition own_tables :: "ranked \<Rightarrow> string \<Rightarrow> string \<Rightarrow> nat list" where
  "own_tables rk m path = takeWhile (\<lambda>i. i < rk_tables rk \<and> \<not> theirs rk i m) (each (rk_index rk) path)"

lemma rank_visit_iff:
  "rank_visit rk table m is \<longleftrightarrow> table \<in> set (takeWhile (\<lambda>i. i < rk_tables rk \<and> \<not> theirs rk i m) is)"
  by (induction "is") auto

lemma own_tables_prefix:
  assumes "patterns_distinct tables" "ranked_new el (routes_new el tables) others = Some rk"
  obtains rest where "matched_tables el tables path = own_tables rk m path @ rest"
    "set (own_tables rk m path) \<inter> set rest = {}"
proof -
  let ?good = "\<lambda>i. i < rk_tables rk \<and> \<not> theirs rk i m" and ?all = "each (rk_index rk) path"
  note ok = ranked_new_ok [OF assms]
  have "filter (\<lambda>i. i < length tables) (takeWhile ?good ?all) = takeWhile ?good ?all"
    by (rule filter_True) (auto simp: ok(1) dest: set_takeWhileD)
  moreover have "filter (\<lambda>i. i < length tables) ?all
      = filter (\<lambda>i. i < length tables) (takeWhile ?good ?all @ dropWhile ?good ?all)" by simp
  ultimately have split: "matched_tables el tables path
      = own_tables rk m path @ filter (\<lambda>i. i < length tables) (dropWhile ?good ?all)"
    unfolding ok(2) [symmetric] own_tables_def filter_append by (simp only:)
  moreover have "distinct (matched_tables el tables path)" by (rule matched_tables_bound(1) [OF assms(1)])
  then have "set (own_tables rk m path) \<inter> set (filter (\<lambda>i. i < length tables) (dropWhile ?good ?all)) = {}"
    unfolding split by simp
  ultimately show ?thesis by (rule that)
qed

definition with_others :: "ranked \<Rightarrow> choice \<Rightarrow> choice option" where
  "with_others rk c =
     (case c of
        NotFound \<Rightarrow> None
      | MethodNotAllowed t a \<Rightarrow> Some (MethodNotAllowed t (ranked_allow rk t a))
      | Route t i \<Rightarrow> Some (Route t i))"


section \<open>Examples\<close>

definition sample_tables :: "unit path_table list" where
  "sample_tables =
     [table_new id (mounted_path_new ''/v1/books'') (sample_entry ''GET''),
      table_new id (mounted_path_new ''/v1/{name}:buy'') (sample_entry ''POST'')]"

lemma sample_tables_ok: "patterns_distinct sample_tables" "plain_flags sample_tables"
  by code_simp+

theorem choice_is_the_scan_of_matching_tables_witness:
  "routes_choose (routes_new False sample_tables) 1 ''POST'' ''/v1/a:buy'' = Route 1 0"
proof -
  have "matched_tables False sample_tables ''/v1/a:buy'' = [1]" by code_simp
  moreover have "choice_of sample_tables [1] 1 ''POST'' ''/v1/a:buy'' = Route 1 0" by code_simp
  ultimately show ?thesis
    using choice_is_the_scan_of_matching_tables [OF sample_tables_ok, where el = False and path = "''/v1/a:buy''" and m = "''POST''"]
    by simp
qed

definition sample_others :: "(string option \<times> string) list" where
  "sample_others = [(None, ''/health''), (Some ''POST'', ''/v1/books'')]"


end
