(* ===== verification/Json.thy ===== *)
theory Json
  imports Complex_Main Prelude
begin

text \<open>
  JSON values as \<open>serde_json\<close> holds them, and the readers of token claims:
  \<open>claim_at\<close>, \<open>claim_str\<close> and \<open>claim_u64\<close> of \<^verbatim>\<open>src/shield/resolve.rs\<close> (\<open>claim_at\<close> is written
  a second time in \<^verbatim>\<open>src/auth/mod.rs\<close>). A number is an unsigned integer, a negative one
  given by its magnitude, or a float given by its value and its printed text.
\<close>

datatype number = PosInt nat | NegInt nat | Float rat string

datatype json =
    JNull
  | JBool bool
  | JNumber number
  | JString string
  | JArray "json list"
  | JObject "(string \<times> json) list"

fun show_number :: "number \<Rightarrow> string" where
  "show_number (PosInt n) = show_nat n"
| "show_number (NegInt n) = ''-'' @ show_nat n"
| "show_number (Float _ printed) = printed"

fun number_as_u64 :: "number \<Rightarrow> nat option" where
  "number_as_u64 (PosInt n) = Some n"
| "number_as_u64 _ = None"

fun number_as_f64 :: "number \<Rightarrow> rat" where
  "number_as_f64 (PosInt n) = of_nat n"
| "number_as_f64 (NegInt n) = - of_nat n"
| "number_as_f64 (Float v _) = v"

definition show_bool :: "bool \<Rightarrow> string" where
  "show_bool b = (if b then ''true'' else ''false'')"

text \<open>\<open>Value::get\<close> with a string index: a member of an object, nothing of any other value.\<close>

fun json_get :: "json \<Rightarrow> string \<Rightarrow> json option" where
  "json_get (JObject members) key = map_of members key"
| "json_get _ key = None"

fun walk_claim :: "json \<Rightarrow> string list \<Rightarrow> json option" where
  "walk_claim cur [] = Some cur"
| "walk_claim cur (seg # segs) =
     (case json_get cur seg of None \<Rightarrow> None | Some v \<Rightarrow> walk_claim v segs)"

definition claim_at :: "json \<Rightarrow> string \<Rightarrow> json option" where
  "claim_at claims path = walk_claim claims (split_on (CHR ''.'') path)"

text \<open>The text of a scalar, shared by the limit keys and the claim headers.\<close>

fun scalar_text :: "json \<Rightarrow> string option" where
  "scalar_text (JString s) = Some s"
| "scalar_text (JNumber n) = Some (show_number n)"
| "scalar_text (JBool b) = Some (show_bool b)"
| "scalar_text _ = None"

definition claim_str :: "json \<Rightarrow> string \<Rightarrow> string option" where
  "claim_str claims path =
     (case claim_at claims path of None \<Rightarrow> None | Some v \<Rightarrow> scalar_text v)"

definition claim_u64 :: "json \<Rightarrow> string \<Rightarrow> nat option" where
  "claim_u64 claims path =
     (case claim_at claims path of
        Some (JNumber n) \<Rightarrow> number_as_u64 n
      | Some (JString s) \<Rightarrow> parse_u64 (trim s)
      | _ \<Rightarrow> None)"

text \<open>A claim path without a dot names a member of the token.\<close>

lemma claim_at_plain: "CHR ''.'' \<notin> set name \<Longrightarrow> claim_at claims name = json_get claims name"
  by (simp add: claim_at_def split_on_single split: option.split)

lemma walk_claim_append:
  "walk_claim c (p @ q) = (case walk_claim c p of None \<Rightarrow> None | Some v \<Rightarrow> walk_claim v q)"
  by (induction p arbitrary: c) (simp_all split: option.split)

text \<open>A dotted path descends one object per segment.\<close>

lemma claim_at_dotted:
  "claim_at claims (p @ CHR ''.'' # q) =
     (case claim_at claims p of None \<Rightarrow> None | Some v \<Rightarrow> claim_at v q)"
  by (simp add: claim_at_def split_on_append walk_claim_append split: option.split)

end
