(* ===== verification/Status.thy ===== *)
theory Status
  imports Json Headers
begin

text \<open>
  gRPC codes, their HTTP statuses and the answers the proxy writes itself:
  \<open>grpc_to_http_status\<close>, \<open>grpc_code_name\<close> and \<open>body\<close> of \<^verbatim>\<open>src/transcode/error.rs\<close>,
  \<open>http_to_grpc_code\<close>, \<open>reject\<close> and \<open>mark_rejection\<close> of \<^verbatim>\<open>src/guard.rs\<close>, the gRPC protocol
  detection and \<open>trailers_only\<close> of \<^verbatim>\<open>src/upstream.rs\<close>, and the rendering of a rejection
  for a gRPC client, \<^verbatim>\<open>src/guard/grpc.rs\<close>. An HTTP status is its number. The HTTP form of
  a gRPC status (\<open>tonic::Status::into_http\<close>) and the canonical reason phrase of an HTTP
  status are parameters.
\<close>

section \<open>Codes\<close>

datatype code =
    Code_Ok | Code_Cancelled | Code_Unknown | Code_InvalidArgument | Code_DeadlineExceeded
  | Code_NotFound | Code_AlreadyExists | Code_PermissionDenied | Code_ResourceExhausted
  | Code_FailedPrecondition | Code_Aborted | Code_OutOfRange | Code_Unimplemented
  | Code_Internal | Code_Unavailable | Code_DataLoss | Code_Unauthenticated

definition all_codes :: "code list" where
  "all_codes = [Code_Ok, Code_Cancelled, Code_Unknown, Code_InvalidArgument,
     Code_DeadlineExceeded, Code_NotFound, Code_AlreadyExists, Code_PermissionDenied,
     Code_ResourceExhausted, Code_FailedPrecondition, Code_Aborted, Code_OutOfRange,
     Code_Unimplemented, Code_Internal, Code_Unavailable, Code_DataLoss, Code_Unauthenticated]"

text \<open>The number of a code is its place in the list above.\<close>

fun place :: "'a \<Rightarrow> 'a list \<Rightarrow> nat" where
  "place x [] = 0"
| "place x (y # ys) = (if x = y then 0 else Suc (place x ys))"

definition code_number :: "code \<Rightarrow> nat" where
  "code_number c = place c all_codes"

definition code_from_i32 :: "int \<Rightarrow> code" where
  "code_from_i32 i = (if 0 \<le> i \<and> i < 17 then all_codes ! nat i else Code_Unknown)"

fun grpc_to_http_status :: "code \<Rightarrow> nat" where
  "grpc_to_http_status Code_Ok = 200"
| "grpc_to_http_status Code_Cancelled = 499"
| "grpc_to_http_status Code_Unknown = 500"
| "grpc_to_http_status Code_InvalidArgument = 400"
| "grpc_to_http_status Code_DeadlineExceeded = 504"
| "grpc_to_http_status Code_NotFound = 404"
| "grpc_to_http_status Code_AlreadyExists = 409"
| "grpc_to_http_status Code_PermissionDenied = 403"
| "grpc_to_http_status Code_ResourceExhausted = 429"
| "grpc_to_http_status Code_FailedPrecondition = 400"
| "grpc_to_http_status Code_Aborted = 409"
| "grpc_to_http_status Code_OutOfRange = 400"
| "grpc_to_http_status Code_Unimplemented = 501"
| "grpc_to_http_status Code_Internal = 500"
| "grpc_to_http_status Code_Unavailable = 503"
| "grpc_to_http_status Code_DataLoss = 500"
| "grpc_to_http_status Code_Unauthenticated = 401"

definition http_to_grpc_code :: "nat \<Rightarrow> code" where
  "http_to_grpc_code status =
     (if status = 400 then Code_InvalidArgument
      else if status = 401 then Code_Unauthenticated
      else if status = 403 then Code_PermissionDenied
      else if status = 404 then Code_NotFound
      else if status = 409 then Code_Aborted
      else if status = 429 then Code_ResourceExhausted
      else if status = 499 then Code_Cancelled
      else if status = 501 then Code_Unimplemented
      else if status = 503 then Code_Unavailable
      else if status = 504 then Code_DeadlineExceeded
      else if 500 \<le> status \<and> status \<le> 599 then Code_Internal
      else Code_Unknown)"

fun grpc_code_name :: "code \<Rightarrow> string" where
  "grpc_code_name Code_Ok = ''OK''"
| "grpc_code_name Code_Cancelled = ''CANCELLED''"
| "grpc_code_name Code_Unknown = ''UNKNOWN''"
| "grpc_code_name Code_InvalidArgument = ''INVALID_ARGUMENT''"
| "grpc_code_name Code_DeadlineExceeded = ''DEADLINE_EXCEEDED''"
| "grpc_code_name Code_NotFound = ''NOT_FOUND''"
| "grpc_code_name Code_AlreadyExists = ''ALREADY_EXISTS''"
| "grpc_code_name Code_PermissionDenied = ''PERMISSION_DENIED''"
| "grpc_code_name Code_ResourceExhausted = ''RESOURCE_EXHAUSTED''"
| "grpc_code_name Code_FailedPrecondition = ''FAILED_PRECONDITION''"
| "grpc_code_name Code_Aborted = ''ABORTED''"
| "grpc_code_name Code_OutOfRange = ''OUT_OF_RANGE''"
| "grpc_code_name Code_Unimplemented = ''UNIMPLEMENTED''"
| "grpc_code_name Code_Internal = ''INTERNAL''"
| "grpc_code_name Code_Unavailable = ''UNAVAILABLE''"
| "grpc_code_name Code_DataLoss = ''DATA_LOSS''"
| "grpc_code_name Code_Unauthenticated = ''UNAUTHENTICATED''"

section \<open>Answers\<close>

record rendered_details =
  rd_details :: "json list"
  rd_opaque :: "json list"

definition no_details :: rendered_details where
  "no_details = \<lparr>rd_details = [], rd_opaque = []\<rparr>"

definition error_members :: "code \<Rightarrow> string \<Rightarrow> (string \<times> json) list" where
  "error_members code message =
     [(''error'', JString (grpc_code_name code)), (''message'', JString message),
      (''code'', JNumber (PosInt (code_number code)))]"

definition status_body :: "code \<Rightarrow> string \<Rightarrow> rendered_details option \<Rightarrow> json" where
  "status_body code message details = JObject (error_members code message @
     (case details of
        None \<Rightarrow> []
      | Some rendered \<Rightarrow> (''details'', JArray (rd_details rendered)) #
          (if rd_opaque rendered = [] then []
           else [(''opaqueDetails'', JArray (rd_opaque rendered))])))"

definition guard_error_body :: "code \<Rightarrow> string \<Rightarrow> json" where
  "guard_error_body code message = status_body code message (Some no_details)"

record rejection =
  rej_code :: code
  rej_message :: string

datatype response_body = Json_Body json | Text_Body string | Stream_Body string

record response =
  status :: nat
  resp_headers :: header_map
  resp_body :: response_body
  resp_rejection :: "rejection option"

definition json_response :: "nat \<Rightarrow> json \<Rightarrow> response" where
  "json_response st b = \<lparr>status = st,
     resp_headers = header_insert no_headers ''content-type'' ''application/json'',
     resp_body = Json_Body b, resp_rejection = None\<rparr>"

definition mark_rejection :: "response \<Rightarrow> code \<Rightarrow> string \<Rightarrow> response" where
  "mark_rejection r code message =
     r\<lparr>resp_rejection := Some \<lparr>rej_code = code, rej_message = message\<rparr>\<rparr>"

definition reject :: "code \<Rightarrow> string \<Rightarrow> response" where
  "reject code message =
     mark_rejection (json_response (grpc_to_http_status code) (guard_error_body code message))
       code message"

section \<open>gRPC protocols\<close>

datatype grpc_protocol = Grpc | Web | WebText

fun protocol_content_type :: "grpc_protocol \<Rightarrow> string" where
  "protocol_content_type Grpc = ''application/grpc''"
| "protocol_content_type Web = ''application/grpc-web+proto''"
| "protocol_content_type WebText = ''application/grpc-web-text+proto''"

definition strip_prefix_ignore_case :: "string \<Rightarrow> string \<Rightarrow> string option" where
  "strip_prefix_ignore_case bytes prefix =
     (if length bytes < length prefix then None
      else if eq_ignore_ascii_case (take (length prefix) bytes) prefix
           then Some (drop (length prefix) bytes) else None)"

definition codec_suffix :: "string \<Rightarrow> bool" where
  "codec_suffix rest \<longleftrightarrow> rest = [] \<or> hd rest = CHR ''+''"

definition web_protocol :: "string \<Rightarrow> grpc_protocol option" where
  "web_protocol rest0 =
     (let (protocol, rest) =
        (case strip_prefix_ignore_case rest0 ''-text'' of
           Some rest \<Rightarrow> (WebText, rest)
         | None \<Rightarrow> (Web, rest0))
      in if codec_suffix rest then Some protocol else None)"

definition grpc_protocol_of :: "header_map \<Rightarrow> grpc_protocol option" where
  "grpc_protocol_of headers =
     (case header_get headers ''content-type'' of
        None \<Rightarrow> None
      | Some v \<Rightarrow>
          (let media = trim_ascii (takeWhile (\<lambda>b. b \<noteq> CHR '';'') v)
           in case strip_prefix_ignore_case media ''application/grpc'' of
                None \<Rightarrow> None
              | Some rest \<Rightarrow>
                  (if codec_suffix rest then Some Grpc
                   else case strip_prefix_ignore_case rest ''-web'' of
                          None \<Rightarrow> None
                        | Some rest' \<Rightarrow> web_protocol rest')))"

definition is_grpc_web_preflight :: "string \<Rightarrow> header_map \<Rightarrow> bool" where
  "is_grpc_web_preflight method headers \<longleftrightarrow>
     method = ''OPTIONS'' \<and>
     header_contains headers ''origin'' \<and>
     header_contains headers ''access-control-request-method'' \<and>
     list_ex (\<lambda>name. eq_ignore_ascii_case (trim_ascii name) ''x-grpc-web'')
       (concat (map (split_on (CHR '','')) (headers ''access-control-request-headers'')))"

section \<open>Rejections on the gRPC path\<close>

definition trailers_only ::
  "(code \<Rightarrow> string \<Rightarrow> response) \<Rightarrow> code \<Rightarrow> string \<Rightarrow> grpc_protocol \<Rightarrow> response" where
  "trailers_only into_http code message protocol =
     (let r = into_http code message
      in if protocol \<noteq> Grpc
         then r\<lparr>resp_headers := header_insert (resp_headers r) ''content-type''
                (protocol_content_type protocol)\<rparr>
         else r)"

definition BODY_HEADERS :: "string list" where
  "BODY_HEADERS = [''content-type'', ''content-length'', ''transfer-encoding'']"

definition append_metadata :: "header_map \<Rightarrow> header_map \<Rightarrow> header_map" where
  "append_metadata answer parts =
     (\<lambda>n. if n \<in> set BODY_HEADERS then answer n else answer n @ parts n)"

definition in_grpc ::
  "(code \<Rightarrow> string \<Rightarrow> response) \<Rightarrow> (nat \<Rightarrow> string option) \<Rightarrow> response \<Rightarrow> grpc_protocol \<Rightarrow> response" where
  "in_grpc into_http canonical_reason r protocol =
     (let answer = (\<lambda>code message.
            let a = trailers_only into_http code message protocol
            in a\<lparr>resp_headers := append_metadata (resp_headers a) (resp_headers r)\<rparr>)
      in case resp_rejection r of
           Some rejection \<Rightarrow> answer (rej_code rejection) (rej_message rejection)
         | None \<Rightarrow>
             (if grpc_protocol_of (resp_headers r) \<noteq> None then r
              else answer (http_to_grpc_code (status r))
                     (case canonical_reason (status r) of None \<Rightarrow> [] | Some s \<Rightarrow> s)))"

section \<open>Lemmas\<close>

lemmas code_simps = all_codes_def code_number_def code_from_i32_def http_to_grpc_code_def

lemma reject_simps [simp]:
  "status (reject c m) = grpc_to_http_status c"
  "resp_body (reject c m) = Json_Body (guard_error_body c m)"
  "resp_rejection (reject c m) = Some \<lparr>rej_code = c, rej_message = m\<rparr>"
  "resp_headers (reject c m) n = (if n = ''content-type'' then [''application/json''] else [])"
  by (simp_all add: reject_def mark_rejection_def json_response_def header_simps)

lemma grpc_protocol_of_content_type:
  assumes "h ''content-type'' = [protocol_content_type p]"
  shows "grpc_protocol_of h = Some p"
  using assms by (cases p) (simp_all add: grpc_protocol_of_def header_simps trim_ascii_def
      is_ascii_whitespace_def byte_def strip_prefix_ignore_case_def eq_ignore_ascii_case_def
      codec_suffix_def web_protocol_def rust_str)

lemma trailers_only_content_type:
  assumes "resp_headers (ih c m) ''content-type'' = [protocol_content_type Grpc]"
  shows "resp_headers (trailers_only ih c m p) ''content-type'' = [protocol_content_type p]"
  using assms by (simp add: trailers_only_def Let_def header_simps)

lemma trailers_only_other:
  "n \<noteq> ''content-type'' \<Longrightarrow> resp_headers (trailers_only ih c m p) n = resp_headers (ih c m) n"
  "resp_rejection (trailers_only ih c m p) = resp_rejection (ih c m)"
  by (simp_all add: trailers_only_def Let_def header_simps)

section \<open>Properties\<close>

text \<open>
  Codes and statuses. Of the seventeen codes exactly eleven survive the way to an
  HTTP status and back; every error code, surviving or not, keeps its HTTP status on
  the way; and the number of a code names it.
\<close>

lemma codes_round_trip:
  "(http_to_grpc_code (grpc_to_http_status c) = c \<longleftrightarrow>
     c \<notin> {Code_Ok, Code_Unknown, Code_AlreadyExists, Code_FailedPrecondition, Code_OutOfRange,
       Code_DataLoss}) \<and>
   grpc_to_http_status (http_to_grpc_code (grpc_to_http_status c)) =
     (if c = Code_Ok then 500 else grpc_to_http_status c) \<and>
   code_from_i32 (int (code_number c)) = c"
  by (cases c) (simp_all add: code_simps)

text \<open>
  C38. A gRPC client reads every rejection. A response marked as a rejection becomes the
  trailers-only answer of its code and message, with the content type of the client's
  own protocol and all the rejection's headers but those that describe the HTTP body;
  rendering it a second time changes nothing.
\<close>

theorem grpc_client_reads_the_rejection:
  assumes into: "\<And>c m. resp_headers (ih c m) ''content-type'' = [''application/grpc''] \<and>
      resp_rejection (ih c m) = None"
    and r: "resp_rejection r = Some \<lparr>rej_code = c, rej_message = m\<rparr>"
  shows "status (in_grpc ih reason r p) = status (ih c m) \<and>
    resp_body (in_grpc ih reason r p) = resp_body (ih c m) \<and>
    grpc_protocol_of (resp_headers (in_grpc ih reason r p)) = Some p \<and>
    resp_headers (in_grpc ih reason r p) n =
      (if n = ''content-type'' then [protocol_content_type p]
       else if n \<in> set BODY_HEADERS then resp_headers (ih c m) n
       else resp_headers (ih c m) n @ resp_headers r n) \<and>
    in_grpc ih reason (in_grpc ih reason r p) p' = in_grpc ih reason r p"
proof -
  let ?a = "in_grpc ih reason r p"
  have ct: "resp_headers ?a ''content-type'' = [protocol_content_type p]"
    using into r by (simp add: in_grpc_def Let_def append_metadata_def BODY_HEADERS_def
        trailers_only_content_type)
  then have gp: "grpc_protocol_of (resp_headers ?a) = Some p"
    by (rule grpc_protocol_of_content_type)
  have nr: "resp_rejection ?a = None"
    using into r by (simp add: in_grpc_def Let_def trailers_only_other(2))
  have "status ?a = status (ih c m)" "resp_body ?a = resp_body (ih c m)"
    using r by (simp_all add: in_grpc_def Let_def trailers_only_def)
  moreover have "resp_headers ?a n =
      (if n = ''content-type'' then [protocol_content_type p]
       else if n \<in> set BODY_HEADERS then resp_headers (ih c m) n
       else resp_headers (ih c m) n @ resp_headers r n)"
  proof (cases "n = ''content-type''")
    case True
    with ct show ?thesis by simp
  next
    case False
    with r show ?thesis by (simp add: in_grpc_def Let_def append_metadata_def trailers_only_other(1))
  qed
  moreover have "in_grpc ih reason ?a p' = ?a"
    using gp nr by (simp add: in_grpc_def [of ih reason ?a])
  ultimately show ?thesis using gp by blast
qed

definition sample_into_http :: "code \<Rightarrow> string \<Rightarrow> response" where
  "sample_into_http c m = \<lparr>status = 200,
     resp_headers = no_headers(''content-type'' := [''application/grpc''],
       ''grpc-status'' := [show_nat (code_number c)], ''grpc-message'' := [m]),
     resp_body = Text_Body [], resp_rejection = None\<rparr>"

theorem grpc_client_reads_the_rejection_witness:
  "grpc_protocol_of (resp_headers (in_grpc sample_into_http (\<lambda>_. None)
     (reject Code_Unavailable ''down'') WebText)) = Some WebText"
  using grpc_client_reads_the_rejection [of sample_into_http "reject Code_Unavailable ''down''"
      Code_Unavailable "''down''" "\<lambda>_. None" WebText "[]" Grpc]
  by (simp add: sample_into_http_def)

end
