(* ===== verification/Matcher.thy ===== *)
theory Matcher
  imports Gcra Rate Headers
begin

text \<open>
  Compilation of the Shield configuration, \<^verbatim>\<open>src/shield/matcher.rs\<close>, with the parts of
  \<^verbatim>\<open>src/config.rs\<close> it reads. The glob compiler (\<open>globset\<close>), the header-name check
  (\<open>http\<close>) and SHA-256 (\<open>sha2\<close>) are the arguments \<open>glob\<close>, \<open>header_name\<close> and \<open>sha256\<close>; a
  text error is the constructor that writes it, and an overflow panic is \<open>Panicked\<close>.
\<close>

section \<open>Configuration\<close>

record limit_profile_config =
  lp_rate :: string
  lp_burst :: "nat option"

datatype key_source_config = Cfg_Ip | Cfg_Header string | Cfg_JwtClaim string

record rate_rule_config =
  rr_pattern :: string
  rr_key :: key_source_config
  rr_profile :: "string option"

record key_source_raw =
  raw_kind :: string
  raw_name :: "string option"
  raw_claim :: "string option"

datatype key_error =
    TakesNoFields | TakesNameNotClaim | TakesClaimNotName | MissingField string | UnknownVariant string

definition key_source_from_raw :: "key_source_raw \<Rightarrow> key_error + key_source_config" where
  "key_source_from_raw raw =
     (if raw_kind raw = ''ip'' then
        (if raw_name raw \<noteq> None \<or> raw_claim raw \<noteq> None then Inl TakesNoFields else Inr Cfg_Ip)
      else if raw_kind raw = ''header'' then
        (if raw_claim raw \<noteq> None then Inl TakesNameNotClaim
         else case raw_name raw of
                None \<Rightarrow> Inl (MissingField ''name'')
              | Some name \<Rightarrow> Inr (Cfg_Header name))
      else if raw_kind raw = ''jwt_claim'' then
        (if raw_name raw \<noteq> None then Inl TakesClaimNotName
         else case raw_claim raw of
                None \<Rightarrow> Inl (MissingField ''claim'')
              | Some claim \<Rightarrow> Inr (Cfg_JwtClaim claim))
      else Inl (UnknownVariant (raw_kind raw)))"

section \<open>Compiled rules\<close>

record compiled_profile =
  cp_gcra :: gcra
  cp_limit :: nat
  cp_window :: nat

datatype key_source = Ip | Header string | JwtClaim string

datatype phase = PreAuth | PostAuth

record compiled_rule =
  cr_matcher :: "string \<Rightarrow> bool"
  cr_key :: key_source
  cr_profile :: "string option"
  cr_phase :: phase
  cr_fingerprint :: string

datatype shield_error =
    RateError rate_error
  | ZeroRate string
  | ZeroBurst
  | RelativePattern string
  | UnknownProfile string string
  | InvalidHeader string string
  | InvalidGlob string
  | NoRules
  | UnknownDefault string
  | InvalidEndpoint string
  | EndpointScheme string
  | ClientFailed
  | InvalidStoreUrl string
  | Panicked

type_synonym profiles = "(string \<times> compiled_profile) list"

definition BARE_COUNT_WINDOW :: nat where
  "BARE_COUNT_WINDOW = secs 60"

section \<open>Hashes\<close>

definition hex_digits :: string where
  "hex_digits = ''0123456789abcdef''"

definition hex_pair :: "char \<Rightarrow> string" where
  "hex_pair b = [hex_digits ! (byte b div 16), hex_digits ! (byte b mod 16)]"

definition short_hash_hex :: "(string \<Rightarrow> string) \<Rightarrow> string \<Rightarrow> string" where
  "short_hash_hex sha256 input = concat (map hex_pair (take 16 (sha256 input)))"

definition short_hash :: "(string \<Rightarrow> string) \<Rightarrow> string \<Rightarrow> string" where
  "short_hash sha256 input = short_hash_hex sha256 input"

section \<open>Compilation\<close>

definition compile_profile :: "limit_profile_config \<Rightarrow> shield_error + compiled_profile" where
  "compile_profile cfg =
     (case rate_parse (lp_rate cfg) BARE_COUNT_WINDOW of
        Inl e \<Rightarrow> Inl (RateError e)
      | Inr r \<Rightarrow>
          if rate_limit r = 0 then Inl (ZeroRate (lp_rate cfg))
          else if lp_burst cfg = Some 0 then Inl ZeroBurst
          else
            (let burst = (case lp_burst cfg of None \<Rightarrow> rate_limit r | Some b \<Rightarrow> b)
             in case from_profile \<lparr>profile_rate = rate_limit r, profile_window = rate_window r,
                       profile_burst = burst\<rparr> of
                  None \<Rightarrow> Inl Panicked
                | Some g \<Rightarrow> Inr \<lparr>cp_gcra = g, cp_limit = rate_limit r, cp_window = rate_window r\<rparr>))"

definition compile_profiles ::
  "(string \<times> limit_profile_config) list \<Rightarrow> shield_error + profiles" where
  "compile_profiles configs =
     try_map (\<lambda>(name, cfg). case compile_profile cfg of Inl e \<Rightarrow> Inl e | Inr p \<Rightarrow> Inr (name, p)) configs"

fun key_phase :: "key_source \<Rightarrow> phase" where
  "key_phase (JwtClaim _) = PostAuth"
| "key_phase Ip = PreAuth"
| "key_phase (Header _) = PreAuth"

fun key_repr :: "key_source \<Rightarrow> string" where
  "key_repr Ip = ''ip''"
| "key_repr (Header name) = ''hdr:'' @ name"
| "key_repr (JwtClaim claim) = ''jwt:'' @ claim"

definition unit_separator :: char where
  "unit_separator = CHR 0x1F"

definition fingerprint_text :: "string \<Rightarrow> key_source \<Rightarrow> string option \<Rightarrow> string" where
  "fingerprint_text pattern key prof =
     pattern @ [unit_separator] @ key_repr key @ [unit_separator] @
     (case prof of None \<Rightarrow> [] | Some name \<Rightarrow> name)"

definition compile_key ::
  "(string \<Rightarrow> string option) \<Rightarrow> rate_rule_config \<Rightarrow> shield_error + key_source" where
  "compile_key header_name c =
     (case rr_key c of
        Cfg_Ip \<Rightarrow> Inr Ip
      | Cfg_Header name \<Rightarrow>
          (case header_name name of
             None \<Rightarrow> Inl (InvalidHeader (rr_pattern c) name)
           | Some hn \<Rightarrow> Inr (Header hn))
      | Cfg_JwtClaim claim \<Rightarrow> Inr (JwtClaim claim))"

definition compile_rule ::
  "(string \<Rightarrow> (string \<Rightarrow> bool) option) \<Rightarrow> (string \<Rightarrow> string option) \<Rightarrow> (string \<Rightarrow> string) \<Rightarrow> profiles \<Rightarrow>
   rate_rule_config \<Rightarrow> shield_error + compiled_rule" where
  "compile_rule glob header_name sha256 profiles c =
     (if \<not> starts_with ''/'' (rr_pattern c) then Inl (RelativePattern (rr_pattern c))
      else case (case rr_profile c of
                   None \<Rightarrow> None
                 | Some name \<Rightarrow> if map_of profiles name = None then Some name else None) of
             Some name \<Rightarrow> Inl (UnknownProfile (rr_pattern c) name)
           | None \<Rightarrow>
               (case compile_key header_name c of
                  Inl e \<Rightarrow> Inl e
                | Inr key \<Rightarrow>
                    (let fingerprint = short_hash sha256 (fingerprint_text (rr_pattern c) key (rr_profile c))
                     in case glob (rr_pattern c) of
                          None \<Rightarrow> Inl (InvalidGlob (rr_pattern c))
                        | Some matcher \<Rightarrow>
                            Inr \<lparr>cr_matcher = matcher, cr_key = key, cr_profile = rr_profile c,
                              cr_phase = key_phase key, cr_fingerprint = fingerprint\<rparr>)))"

definition compile_rules ::
  "(string \<Rightarrow> (string \<Rightarrow> bool) option) \<Rightarrow> (string \<Rightarrow> string option) \<Rightarrow> (string \<Rightarrow> string) \<Rightarrow>
   rate_rule_config list \<Rightarrow> profiles \<Rightarrow> shield_error + compiled_rule list" where
  "compile_rules glob header_name sha256 configs profiles =
     try_map (compile_rule glob header_name sha256 profiles) configs"

section \<open>Lemmas\<close>

text \<open>A tier the limiter can run: a well-formed limiter of a positive rate.\<close>

definition tier_ok :: "compiled_profile \<Rightarrow> bool" where
  "tier_ok p \<longleftrightarrow> gcra_ok (cp_gcra p) \<and> 0 < cp_limit p \<and> cp_window p \<in> {secs 1, secs 60, secs 3600} \<and>
     emission_interval (cp_gcra p) \<le> cp_window p"

lemma compile_profile_ok:
  assumes "compile_profile cfg = Inr p"
  shows "tier_ok p"
proof -
  from assms obtain r b g where r: "rate_parse (lp_rate cfg) BARE_COUNT_WINDOW = Inr r"
    "rate_limit r \<noteq> 0"
    and g: "from_profile \<lparr>profile_rate = rate_limit r, profile_window = rate_window r,
      profile_burst = b\<rparr> = Some g"
    and p: "p = \<lparr>cp_gcra = g, cp_limit = rate_limit r, cp_window = rate_window r\<rparr>"
    by (auto simp: compile_profile_def Let_def split: sum.split_asm if_split_asm option.split_asm)
  have w: "rate_window r \<in> {secs 1, secs 60, secs 3600}"
    using rate_parse_bounds(2) [OF r(1)] by (auto simp: BARE_COUNT_WINDOW_def)
  have "emission_interval g \<le> max (rate_window r) 1"
    using g profile_interval_le [of "\<lparr>profile_rate = rate_limit r, profile_window = rate_window r,
      profile_burst = b\<rparr>"]
    by (auto simp: from_profile_eq bind_eq_Some_conv)
  moreover have "max (rate_window r) 1 = rate_window r" using w by (auto simp: nanos_per_sec_def)
  ultimately show ?thesis using r(2) w p from_profile_ok [OF g] by (simp add: tier_ok_def)
qed

lemma rate_limiter_total:
  assumes "rate_parse raw BARE_COUNT_WINDOW = Inr r"
  shows "\<exists>g. from_profile \<lparr>profile_rate = n, profile_window = rate_window r, profile_burst = b\<rparr> = Some g"
  using rate_parse_bounds(2) [OF assms]
  by (intro from_profile_total) (auto simp: BARE_COUNT_WINDOW_def rust_num)

lemma compile_profile_no_panic: "compile_profile cfg \<noteq> Inl Panicked"
proof (cases "rate_parse (lp_rate cfg) BARE_COUNT_WINDOW")
  case (Inr r)
  obtain g where "from_profile \<lparr>profile_rate = rate_limit r, profile_window = rate_window r,
      profile_burst = (case lp_burst cfg of None \<Rightarrow> rate_limit r | Some b \<Rightarrow> b)\<rparr> = Some g"
    using rate_limiter_total [OF Inr] by blast
  with Inr show ?thesis by (simp add: compile_profile_def Let_def)
qed (simp add: compile_profile_def)

lemma compile_profiles_ok:
  assumes "compile_profiles cfgs = Inr ps" "map_of ps name = Some p"
  shows "tier_ok p"
proof -
  have "(name, p) \<in> set ps" using assms(2) by (rule map_of_SomeD)
  from try_map_InrD [OF assms(1) [unfolded compile_profiles_def] this] obtain cfg
    where "compile_profile cfg = Inr p" by (auto split: sum.split_asm)
  then show ?thesis by (rule compile_profile_ok)
qed

text \<open>A compiled rule pins only a tier that exists, and its phase follows its key.\<close>

lemma compile_rule_ok:
  assumes "compile_rule glob hn sha ps c = Inr r"
  shows "cr_profile r = rr_profile c"
    "cr_profile r = Some name \<Longrightarrow> \<exists>p. map_of ps name = Some p"
    "cr_phase r = key_phase (cr_key r)" "glob (rr_pattern c) = Some (cr_matcher r)"
    "cr_fingerprint r = short_hash sha (fingerprint_text (rr_pattern c) (cr_key r) (cr_profile r))"
  using assms by (auto simp: compile_rule_def Let_def split: if_split_asm option.split_asm sum.split_asm)

lemma hex_pair_length [simp]: "length (hex_pair b) = 2"
  by (simp add: hex_pair_def)

lemma short_hash_hex_length:
  assumes "length (sha x) = 32"
  shows "length (short_hash_hex sha x) = 32"
proof -
  have "sum_list (map (length \<circ> hex_pair) bs) = 2 * length bs" for bs
    by (induction bs) simp_all
  then show ?thesis using assms by (simp add: short_hash_hex_def length_concat map_map)
qed

lemma hex_digits_nth: "i < 16 \<Longrightarrow> hex_digits ! i \<in> set hex_digits"
  by (rule nth_mem) (simp add: hex_digits_def)

lemma short_hash_hex_chars: "set (short_hash_hex sha x) \<subseteq> set hex_digits"
proof -
  have b: "byte b < 256" for b by (rule byte_less)
  have "set (hex_pair c) \<subseteq> set hex_digits" for c
    using hex_digits_nth [of "byte c div 16"] hex_digits_nth [of "byte c mod 16"] b [of c]
    by (simp add: hex_pair_def)
  then show ?thesis by (auto simp: short_hash_hex_def)
qed

end
