(* ===== verification/Resolve.thy ===== *)
theory Resolve
  imports Matcher Json "HOL-Library.Multiset"
begin

text \<open>
  Limit resolution, \<^verbatim>\<open>src/shield/resolve.rs\<close>: limits written in the token, and the cache in
  front of the external limit service. Instants are nanoseconds since the service was
  built. A request's lookup and the end of a background fetch are the two steps of the
  service; each is atomic, as the shard locks of the source make the accesses to a key.
  The endpoint parser (\<open>reqwest::Url\<close>), the client builder and the service's replies are
  arguments.
\<close>

section \<open>Limits in the token\<close>

definition PER_MINUTE :: nat where
  "PER_MINUTE = secs 60"

text \<open>The limiter of a minute window never overflows, so \<open>None\<close> is the zero rate alone.\<close>

definition profile_from_numbers :: "nat \<Rightarrow> nat \<Rightarrow> compiled_profile option" where
  "profile_from_numbers rpm burst =
     (if rpm = 0 then None
      else Option.bind (from_profile \<lparr>profile_rate = rpm, profile_window = PER_MINUTE,
               profile_burst = max burst 1\<rparr>)
             (\<lambda>g. Some \<lparr>cp_gcra = g, cp_limit = rpm, cp_window = PER_MINUTE\<rparr>))"

record jwt_limits =
  tier_claim :: string
  rpm_claim :: string
  burst_claim :: string

definition jwt_resolve :: "jwt_limits \<Rightarrow> json \<Rightarrow> profiles \<Rightarrow> compiled_profile option" where
  "jwt_resolve j claims profiles =
     (case Option.bind (claim_str claims (tier_claim j)) (map_of profiles) of
        Some p \<Rightarrow> Some p
      | None \<Rightarrow>
          (case claim_u64 claims (rpm_claim j) of
             Some rpm \<Rightarrow>
               profile_from_numbers rpm
                 (case claim_u64 claims (burst_claim j) of None \<Rightarrow> rpm | Some b \<Rightarrow> b)
           | None \<Rightarrow> None))"

section \<open>The limit service\<close>

record limit_response =
  lr_tier :: "string option"
  lr_rate_per_min :: "nat option"
  lr_burst :: "nat option"

record cached =
  ca_profile :: "compiled_profile option"
  ca_at :: nat
  ca_last_access :: nat

definition SWEEP_INTERVAL :: nat where
  "SWEEP_INTERVAL = secs 60"

definition MAX_CACHE_ENTRIES :: nat where
  "MAX_CACHE_ENTRIES = 100000"

definition MAX_CONCURRENT_FETCHES :: nat where
  "MAX_CONCURRENT_FETCHES = 32"

record limit_service =
  ls_ttl :: nat
  ls_evict_after :: nat
  ls_profiles :: profiles
  ls_cache :: "(string \<times> cached) list"
  ls_inflight :: "string list"
  ls_slots :: nat
  ls_last_sweep_ms :: nat

record limit_service_config =
  lsc_endpoint :: string
  lsc_ttl_secs :: nat
  lsc_timeout_ms :: nat

text \<open>\<open>url_scheme\<close> is the scheme of a URL that parses, \<open>client_ok\<close> whether the client builds.\<close>

definition limit_service_build ::
  "(string \<Rightarrow> string option) \<Rightarrow> (nat \<Rightarrow> bool) \<Rightarrow> limit_service_config \<Rightarrow> profiles \<Rightarrow>
   shield_error + limit_service" where
  "limit_service_build url_scheme client_ok cfg profiles =
     (case url_scheme (lsc_endpoint cfg) of
        None \<Rightarrow> Inl (InvalidEndpoint (lsc_endpoint cfg))
      | Some scheme \<Rightarrow>
          if scheme \<notin> {''http'', ''https''} then Inl (EndpointScheme scheme)
          else if \<not> client_ok (max (lsc_timeout_ms cfg) 1) then Inl ClientFailed
          else
            (let ttl = secs (max (lsc_ttl_secs cfg) 1)
             in case dur_mul ttl 4 of
                  None \<Rightarrow> Inl Panicked
                | Some t4 \<Rightarrow>
                    Inr \<lparr>ls_ttl = ttl, ls_evict_after = max t4 (secs 300), ls_profiles = profiles,
                      ls_cache = [], ls_inflight = [], ls_slots = MAX_CONCURRENT_FETCHES,
                      ls_last_sweep_ms = 0\<rparr>))"

definition sweep_cache :: "nat \<Rightarrow> limit_service \<Rightarrow> limit_service" where
  "sweep_cache now s =
     (let kept = filter (\<lambda>(_, c). now - ca_last_access c < ls_evict_after s) (ls_cache s)
      in if MAX_CACHE_ENTRIES < length kept
         then (let ages = sort_key snd (map (\<lambda>(k, c). (k, ca_last_access c)) kept);
                   gone = map fst (take (length kept - MAX_CACHE_ENTRIES) ages)
               in s\<lparr>ls_cache := filter (\<lambda>(k, _). k \<notin> set gone) kept\<rparr>)
         else s\<lparr>ls_cache := kept\<rparr>)"

definition maybe_sweep_cache :: "nat \<Rightarrow> limit_service \<Rightarrow> limit_service" where
  "maybe_sweep_cache now s =
     (let now_ms = sat_u64 (as_millis now)
      in if now_ms - ls_last_sweep_ms s < as_millis SWEEP_INTERVAL then s
         else sweep_cache now (s\<lparr>ls_last_sweep_ms := now_ms\<rparr>))"

definition insert_capped :: "string \<Rightarrow> cached \<Rightarrow> limit_service \<Rightarrow> limit_service" where
  "insert_capped key c s =
     (let over_cap = MAX_CACHE_ENTRIES \<le> length (ls_cache s)
      in case map_of (ls_cache s) key of
           Some _ \<Rightarrow> s\<lparr>ls_cache := AList.update key c (ls_cache s)\<rparr>
         | None \<Rightarrow> if over_cap then s else s\<lparr>ls_cache := AList.update key c (ls_cache s)\<rparr>)"

text \<open>Whether a fetch was started, and the service after it.\<close>

definition trigger_refresh :: "string \<Rightarrow> limit_service \<Rightarrow> bool \<times> limit_service" where
  "trigger_refresh key s =
     (if key \<in> set (ls_inflight s) then (False, s)
      else
        (let s1 = s\<lparr>ls_inflight := key # ls_inflight s\<rparr>
         in if ls_slots s1 = 0 then (False, s1\<lparr>ls_inflight := removeAll key (ls_inflight s1)\<rparr>)
            else (True, s1\<lparr>ls_slots := ls_slots s1 - 1\<rparr>)))"

definition service_resolve ::
  "string \<Rightarrow> nat \<Rightarrow> limit_service \<Rightarrow> compiled_profile option \<times> bool \<times> limit_service" where
  "service_resolve key now s0 =
     (let s = maybe_sweep_cache now s0
      in case map_of (ls_cache s) key of
           Some c \<Rightarrow>
             (let s1 = s\<lparr>ls_cache := AList.update key (c\<lparr>ca_last_access := now\<rparr>) (ls_cache s)\<rparr>
              in if now - ca_at c < ls_ttl s then (ca_profile c, False, s1)
                 else (ca_profile c, trigger_refresh key s1))
         | None \<Rightarrow> (None, trigger_refresh key s))"

definition map_response :: "profiles \<Rightarrow> limit_response \<Rightarrow> compiled_profile option" where
  "map_response profiles body =
     (case Option.bind (lr_tier body) (map_of profiles) of
        Some p \<Rightarrow> Some p
      | None \<Rightarrow>
          Option.bind (lr_rate_per_min body) (\<lambda>rpm.
            profile_from_numbers rpm (case lr_burst body of None \<Rightarrow> rpm | Some b \<Rightarrow> b)))"

text \<open>
  What became of a fetch: a URL that does not take the key or a failed exchange, or a
  status with the body if it parses. \<open>None\<close> is the source's \<open>Err(())\<close>.
\<close>

datatype fetch_reply = FetchFailed | Replied nat "limit_response option"

fun fetch :: "profiles \<Rightarrow> fetch_reply \<Rightarrow> compiled_profile option option" where
  "fetch profiles FetchFailed = None"
| "fetch profiles (Replied st body) =
     (if \<not> (200 \<le> st \<and> st \<le> 299) then (if st = 404 then Some None else None)
      else map_option (map_response profiles) body)"

text \<open>The end of the background task of \<open>key\<close>; its permit is dropped with it.\<close>

definition finish_fetch :: "string \<Rightarrow> fetch_reply \<Rightarrow> nat \<Rightarrow> limit_service \<Rightarrow> limit_service" where
  "finish_fetch key reply now s =
     (let s1 =
        (case fetch (ls_profiles s) reply of
           Some resolved \<Rightarrow>
             insert_capped key \<lparr>ca_profile = resolved, ca_at = now, ca_last_access = now\<rparr> s
         | None \<Rightarrow>
             (case map_of (ls_cache s) key of
                Some c \<Rightarrow> s\<lparr>ls_cache := AList.update key (c\<lparr>ca_at := now\<rparr>) (ls_cache s)\<rparr>
              | None \<Rightarrow>
                  insert_capped key \<lparr>ca_profile = None, ca_at = now, ca_last_access = now\<rparr> s))
      in s1\<lparr>ls_inflight := removeAll key (ls_inflight s1), ls_slots := ls_slots s1 + 1\<rparr>)"

section \<open>Steps\<close>

inductive service_step :: "limit_service \<Rightarrow> limit_service \<Rightarrow> bool" where
  ask: "service_resolve key now s = (p, started, s') \<Longrightarrow> service_step s s'"
| fetched: "key \<in> set (ls_inflight s) \<Longrightarrow> service_step s (finish_fetch key reply now s)"

inductive_cases service_stepE: "service_step s s'"

text \<open>The states of a service, from the one \<open>build\<close> returns.\<close>

inductive service_reachable :: "limit_service \<Rightarrow> bool" where
  built: "limit_service_build url_scheme client_ok cfg profiles = Inr s \<Longrightarrow> service_reachable s"
| stepped: "service_reachable s \<Longrightarrow> service_step s s' \<Longrightarrow> service_reachable s'"

section \<open>Lemmas\<close>

lemma profile_from_numbers_ok:
  assumes "profile_from_numbers rpm burst = Some p"
  shows "tier_ok p" "cp_limit p = rpm"
proof -
  let ?q = "\<lparr>profile_rate = rpm, profile_window = PER_MINUTE, profile_burst = max burst 1\<rparr>"
  from assms obtain g where rpm: "rpm \<noteq> 0" and g: "from_profile ?q = Some g"
    and p: "p = \<lparr>cp_gcra = g, cp_limit = rpm, cp_window = PER_MINUTE\<rparr>"
    by (auto simp: profile_from_numbers_def bind_eq_Some_conv split: if_split_asm)
  have "emission_interval g \<le> PER_MINUTE"
    using g profile_interval_le [of ?q] by (auto simp: from_profile_eq bind_eq_Some_conv PER_MINUTE_def rust_num)
  then show "tier_ok p" "cp_limit p = rpm"
    using rpm p from_profile_ok [OF g] by (simp_all add: tier_ok_def PER_MINUTE_def)
qed

lemma profile_from_numbers_Some: "rpm \<noteq> 0 \<Longrightarrow> \<exists>p. profile_from_numbers rpm burst = Some p"
  using from_profile_total [of "\<lparr>profile_rate = rpm, profile_window = PER_MINUTE,
    profile_burst = max burst 1\<rparr>"]
  by (auto simp: profile_from_numbers_def PER_MINUTE_def rust_num)

text \<open>The entries a sweep leaves, in any cache.\<close>

lemma sweep_cache_distinct:
  "distinct (map fst (ls_cache s)) \<Longrightarrow> distinct (map fst (ls_cache (sweep_cache now s)))"
  by (simp add: sweep_cache_def Let_def distinct_filter_keys)

lemma length_filter_notin:
  assumes "distinct (map fst al)" "set ks \<subseteq> fst ` set al" "distinct ks"
  shows "length (filter (\<lambda>(k, _). k \<notin> set ks) al) = length al - length ks"
proof -
  have "fst ` {x \<in> set al. case x of (k, _) \<Rightarrow> k \<notin> set ks} = fst ` set al - set ks" by force
  then have "length (filter (\<lambda>(k, _). k \<notin> set ks) al) = card (set (map fst al) - set ks)"
    using distinct_card [OF distinct_filter_keys [OF assms(1), of "\<lambda>(k, _). k \<notin> set ks"]]
    by simp
  also have "\<dots> = card (set (map fst al)) - card (set ks)"
    using assms(2) by (intro card_Diff_subset) auto
  finally show ?thesis
    using distinct_card [OF assms(1)] distinct_card [OF assms(3)] by simp
qed

lemma sweep_cache_length:
  assumes "distinct (map fst (ls_cache s))"
  shows "length (ls_cache (sweep_cache now s)) \<le> min (length (ls_cache s)) MAX_CACHE_ENTRIES"
proof -
  define kept where "kept = filter (\<lambda>(_, c). now - ca_last_access c < ls_evict_after s) (ls_cache s)"
  define ages where "ages = sort_key snd (map (\<lambda>(k, c). (k, ca_last_access c)) kept)"
  define gone where "gone = map fst (take (length kept - MAX_CACHE_ENTRIES) ages)"
  have d: "distinct (map fst kept)" unfolding kept_def using assms by (rule distinct_filter_keys)
  have keys: "mset (map fst ages) = mset (map fst kept)"
    by (simp add: ages_def mset_map multiset.map_comp comp_def case_prod_beta)
  then have "distinct (map fst ages)" using d mset_eq_imp_distinct_iff by blast
  then have dg: "distinct gone" by (simp add: gone_def flip: take_map)
  have "set gone \<subseteq> set (map fst ages)"
    unfolding gone_def set_map by (rule image_mono) (rule set_take_subset)
  with mset_eq_setD [OF keys] have sub: "set gone \<subseteq> fst ` set kept" by (simp only: set_map)
  have "length ages = length kept" by (simp add: ages_def)
  then have "length gone = length kept - MAX_CACHE_ENTRIES" by (simp add: gone_def)
  with length_filter_notin [OF d sub dg]
  have trimmed: "length (filter (\<lambda>(k, _). k \<notin> set gone) kept) = min (length kept) MAX_CACHE_ENTRIES"
    by simp
  have "ls_cache (sweep_cache now s) =
      (if MAX_CACHE_ENTRIES < length kept then filter (\<lambda>(k, _). k \<notin> set gone) kept else kept)"
    unfolding sweep_cache_def Let_def kept_def [symmetric] ages_def [symmetric] gone_def [symmetric]
    by simp
  moreover have "length kept \<le> length (ls_cache s)" unfolding kept_def by (rule length_filter_le)
  ultimately show ?thesis using trimmed by simp
qed

section \<open>The invariant of the service\<close>

definition service_inv :: "limit_service \<Rightarrow> bool" where
  "service_inv s \<longleftrightarrow> distinct (map fst (ls_cache s)) \<and> length (ls_cache s) \<le> MAX_CACHE_ENTRIES \<and>
     distinct (ls_inflight s) \<and> ls_slots s + length (ls_inflight s) = MAX_CONCURRENT_FETCHES \<and>
     0 < ls_ttl s \<and> 4 * ls_ttl s \<le> ls_evict_after s"

lemma build_inv: "limit_service_build us ck cfg ps = Inr s \<Longrightarrow> service_inv s"
  by (auto simp: limit_service_build_def service_inv_def Let_def dur_mul_def
      split: option.split_asm if_split_asm)

lemma sweep_cache_keeps [simp]:
  "ls_inflight (sweep_cache now s) = ls_inflight s" "ls_slots (sweep_cache now s) = ls_slots s"
  "ls_ttl (sweep_cache now s) = ls_ttl s" "ls_evict_after (sweep_cache now s) = ls_evict_after s"
  "ls_profiles (sweep_cache now s) = ls_profiles s"
  by (simp_all add: sweep_cache_def Let_def)

lemma maybe_sweep_cache_keeps [simp]:
  "ls_inflight (maybe_sweep_cache now s) = ls_inflight s"
  "ls_slots (maybe_sweep_cache now s) = ls_slots s"
  "ls_ttl (maybe_sweep_cache now s) = ls_ttl s"
  "ls_evict_after (maybe_sweep_cache now s) = ls_evict_after s"
  by (simp_all add: maybe_sweep_cache_def Let_def)

lemma maybe_sweep_cache_inv: "service_inv s \<Longrightarrow> service_inv (maybe_sweep_cache now s)"
  using sweep_cache_length [of "s\<lparr>ls_last_sweep_ms := sat_u64 (as_millis now)\<rparr>" now]
    sweep_cache_distinct [of "s\<lparr>ls_last_sweep_ms := sat_u64 (as_millis now)\<rparr>" now]
  by (simp add: service_inv_def maybe_sweep_cache_def Let_def)

lemma update_cache_inv:
  assumes "service_inv s" "map_of (ls_cache s) key \<noteq> None \<or> length (ls_cache s) < MAX_CACHE_ENTRIES"
  shows "service_inv (s\<lparr>ls_cache := AList.update key c (ls_cache s)\<rparr>)"
  using assms by (auto simp: service_inv_def distinct_update length_update_keys map_of_eq_None_iff)

lemma insert_capped_inv: "service_inv s \<Longrightarrow> service_inv (insert_capped key c s)"
  by (auto simp: insert_capped_def Let_def not_le intro!: update_cache_inv split: option.split)

lemma insert_capped_keeps [simp]:
  "ls_inflight (insert_capped key c s) = ls_inflight s" "ls_slots (insert_capped key c s) = ls_slots s"
  "ls_ttl (insert_capped key c s) = ls_ttl s" "ls_evict_after (insert_capped key c s) = ls_evict_after s"
  by (simp_all add: insert_capped_def Let_def split: option.split)

lemma trigger_refresh_inv: "service_inv s \<Longrightarrow> service_inv (snd (trigger_refresh key s))"
  by (auto simp: trigger_refresh_def service_inv_def Let_def)

lemma service_resolve_inv:
  assumes "service_inv s" "service_resolve key now s = (p, started, s')"
  shows "service_inv s'"
proof -
  let ?s = "maybe_sweep_cache now s"
  have i: "service_inv ?s" using assms(1) by (rule maybe_sweep_cache_inv)
  show ?thesis
  proof (cases "map_of (ls_cache ?s) key")
    case None
    with assms(2) trigger_refresh_inv [OF i, of key] show ?thesis by (simp add: service_resolve_def)
  next
    case (Some c)
    let ?s1 = "?s\<lparr>ls_cache := AList.update key (c\<lparr>ca_last_access := now\<rparr>) (ls_cache ?s)\<rparr>"
    have "service_inv ?s1" using i Some by (intro update_cache_inv) simp_all
    with assms(2) Some trigger_refresh_inv [of ?s1 key] show ?thesis
      by (auto simp: service_resolve_def Let_def split: if_split_asm)
  qed
qed

lemma length_removeAll_mem:
  "distinct xs \<Longrightarrow> x \<in> set xs \<Longrightarrow> Suc (length (removeAll x xs)) = length xs"
  by (simp add: distinct_remove1_removeAll [symmetric] length_remove1)
    (metis Suc_pred length_pos_if_in_set)

lemma finish_fetch_inv:
  assumes "service_inv s" "key \<in> set (ls_inflight s)"
  shows "service_inv (finish_fetch key reply now s)"
proof -
  have ends: "service_inv (u\<lparr>ls_inflight := removeAll key (ls_inflight u), ls_slots := ls_slots u + 1\<rparr>)"
    if "service_inv u" "key \<in> set (ls_inflight u)" for u
    using that length_removeAll_mem [of "ls_inflight u" key]
    by (auto simp: service_inv_def distinct_removeAll)
  show ?thesis
  proof (cases "fetch (ls_profiles s) reply")
    case (Some r)
    with ends [OF insert_capped_inv [OF assms(1)]] assms(2) show ?thesis
      by (simp add: finish_fetch_def Let_def)
  next
    case None
    with assms ends [OF insert_capped_inv [OF assms(1)]]
      ends [OF update_cache_inv [OF assms(1)]] show ?thesis
      by (simp add: finish_fetch_def Let_def split: option.split)
  qed
qed

lemma service_reachable_inv: "service_reachable s \<Longrightarrow> service_inv s"
proof (induction rule: service_reachable.induct)
  case (built us ck cfg ps s)
  then show ?case by (rule build_inv)
next
  case (stepped s s')
  from stepped(2) show ?case
    by (rule service_stepE) (auto intro: service_resolve_inv finish_fetch_inv stepped.IH)
qed

lemma maybe_sweep_lookup:
  assumes "service_inv s" "map_of (ls_cache s) key = Some c" "now - ca_last_access c < ls_evict_after s"
  shows "map_of (ls_cache (maybe_sweep_cache now s)) key = Some c"
proof -
  have d: "distinct (map fst (ls_cache s))" and l: "length (ls_cache s) \<le> MAX_CACHE_ENTRIES"
    using assms(1) by (simp_all add: service_inv_def)
  have "length (filter (\<lambda>(_, c). now - ca_last_access c < ls_evict_after s) (ls_cache s)) \<le> MAX_CACHE_ENTRIES"
    using l le_trans length_filter_le by blast
  moreover have "map_of (filter (\<lambda>(_, c). now - ca_last_access c < ls_evict_after s) (ls_cache s)) key = Some c"
    using map_of_filter_value [OF d, of "\<lambda>c. now - ca_last_access c < ls_evict_after s" key] assms(2,3)
    by simp
  ultimately show ?thesis using assms(2)
    by (simp add: maybe_sweep_cache_def sweep_cache_def Let_def)
qed

lemma service_resolve_fresh:
  assumes "service_inv s" "map_of (ls_cache s) key = Some c" "now - ca_last_access c < ls_evict_after s"
    and "now - ca_at c < ls_ttl s"
  shows "\<exists>s'. service_resolve key now s = (ca_profile c, False, s') \<and> ls_inflight s' = ls_inflight s"
  using maybe_sweep_lookup [OF assms(1-3)] assms(4) by (simp add: service_resolve_def Let_def)

lemma service_resolve_stale:
  assumes "service_inv s" "map_of (ls_cache s) key = Some c" "now - ca_last_access c < ls_evict_after s"
    and "ls_ttl s \<le> now - ca_at c" "key \<notin> set (ls_inflight s)" "0 < ls_slots s"
  shows "\<exists>s'. service_resolve key now s = (ca_profile c, True, s') \<and> key \<in> set (ls_inflight s')"
  using maybe_sweep_lookup [OF assms(1-3)] assms(4-6)
  by (simp add: service_resolve_def trigger_refresh_def Let_def)

text \<open>The profile a reply leaves for its key: the service's answer, or the last good one.\<close>

definition profile_after :: "limit_service \<Rightarrow> string \<Rightarrow> fetch_reply \<Rightarrow> compiled_profile option" where
  "profile_after s key reply =
     (case fetch (ls_profiles s) reply of
        Some resolved \<Rightarrow> resolved
      | None \<Rightarrow> Option.bind (map_of (ls_cache s) key) ca_profile)"

lemma finish_fetch_lookup:
  assumes "map_of (ls_cache s) key \<noteq> None \<or> length (ls_cache s) < MAX_CACHE_ENTRIES"
  shows "\<exists>c. map_of (ls_cache (finish_fetch key reply t s)) key = Some c \<and> ca_at c = t \<and>
    ca_profile c = profile_after s key reply \<and>
    (ca_last_access c = t \<or> (\<exists>c0. map_of (ls_cache s) key = Some c0 \<and> ca_last_access c = ca_last_access c0))"
proof (cases "fetch (ls_profiles s) reply")
  case (Some r)
  with assms show ?thesis
    by (auto simp: finish_fetch_def insert_capped_def profile_after_def Let_def update_conv' split: option.split)
next
  case None
  with assms show ?thesis
    by (cases "map_of (ls_cache s) key")
      (auto simp: finish_fetch_def insert_capped_def profile_after_def Let_def update_conv')
qed

lemma finish_fetch_ends:
  "key \<notin> set (ls_inflight (finish_fetch key reply t s))"
  "0 < ls_slots (finish_fetch key reply t s)"
  "ls_ttl (finish_fetch key reply t s) = ls_ttl s"
  "ls_evict_after (finish_fetch key reply t s) = ls_evict_after s"
  by (simp_all add: finish_fetch_def Let_def split: option.split)

section \<open>Properties\<close>


definition sample_service :: limit_service where
  "sample_service = \<lparr>ls_ttl = secs 300, ls_evict_after = secs 1200, ls_profiles = [],
     ls_cache = [], ls_inflight = [], ls_slots = 32, ls_last_sweep_ms = 0\<rparr>"

lemma sample_service_built:
  "limit_service_build (\<lambda>_. Some ''http'') (\<lambda>_. True)
     \<lparr>lsc_endpoint = ''http://limits'', lsc_ttl_secs = 300, lsc_timeout_ms = 500\<rparr> [] =
   Inr sample_service"
  by (simp add: limit_service_build_def sample_service_def MAX_CONCURRENT_FETCHES_def Let_def rust_num)

definition sample_asked :: limit_service where
  "sample_asked = sample_service\<lparr>ls_inflight := [''k''], ls_slots := 31\<rparr>"

lemma sample_asks: "service_resolve ''k'' 5 sample_service = (None, True, sample_asked)"
  by (simp add: service_resolve_def maybe_sweep_cache_def trigger_refresh_def sample_service_def
      sample_asked_def SWEEP_INTERVAL_def as_millis_def sat_u64_def u64_max_def Let_def nanos_per_sec_def)

lemma sample_asked_reachable: "service_reachable sample_asked"
  using service_reachable.intros(2) [OF service_reachable.intros(1) [OF sample_service_built]
      service_step.ask [OF sample_asks]] .




end
