(* ===== verification/Global.thy ===== *)
theory Global
  imports Complex_Main Prelude
begin

text \<open>
  Reconciliation of the fleet-wide counters, \<^verbatim>\<open>src/shield/global.rs\<close>, over the window
  arithmetic of \<^verbatim>\<open>src/shield/window.rs\<close>. \<open>now\<close> is the wall clock in nanoseconds since the Unix
  epoch and \<open>tick\<close> the monotonic clock. The shared store is outside: a pass yields the
  increments it sends and takes the store's answer as an argument. The sliding estimate
  is computed in floating point: every \<open>f64\<close> operation is the exact one followed by the
  rounding \<open>rnd\<close>, an argument.
\<close>

section \<open>Windows\<close>

definition epoch :: "nat \<Rightarrow> nat \<Rightarrow> nat" where
  "epoch now window = as_secs now div max (as_secs window) 1"

definition elapsed_in_window :: "nat \<Rightarrow> nat \<Rightarrow> nat" where
  "elapsed_in_window now window =
     (let w = max (as_secs window) 1 in secs (as_secs now mod w) + now mod nanos_per_sec)"

text \<open>\<open>Duration::as_secs_f64\<close>, and \<open>f64::MIN_POSITIVE\<close>.\<close>

definition as_secs_f64 :: "(rat \<Rightarrow> rat) \<Rightarrow> nat \<Rightarrow> rat" where
  "as_secs_f64 rnd d = rnd (rnd (of_nat (as_secs d)) +
     rnd (of_nat (d mod nanos_per_sec) / of_nat nanos_per_sec))"

definition min_positive :: rat where
  "min_positive = 1 / 2 ^ 1022"

definition sliding_estimate :: "(rat \<Rightarrow> rat) \<Rightarrow> nat \<Rightarrow> nat \<Rightarrow> nat \<Rightarrow> nat \<Rightarrow> rat" where
  "sliding_estimate rnd cur prev elapsed window =
     (let w = max (as_secs_f64 rnd window) min_positive;
          frac = min 1 (max 0 (rnd (as_secs_f64 rnd elapsed / w)))
      in rnd (rnd (of_nat cur) + rnd (rnd (of_nat prev) * rnd (1 - frac))))"

section \<open>State\<close>

definition epoch_key :: "string \<Rightarrow> nat \<Rightarrow> string" where
  "epoch_key key e = ''sp:rl:'' @ key @ '':'' @ show_nat e"

definition KEY_TTL :: nat where
  "KEY_TTL = secs 600"

definition MAX_KEYS :: nat where
  "MAX_KEYS = 500000"

record key_state =
  ks_epoch :: nat
  ks_window_secs :: nat
  local_count :: nat
  carryover :: nat
  carryover_epoch :: nat
  remote_estimate :: nat
  estimate_at :: nat
  last_seen :: nat
  seen_since_tick :: bool

definition key_state_new :: "nat \<Rightarrow> nat \<Rightarrow> nat \<Rightarrow> key_state" where
  "key_state_new e window_secs tick = \<lparr>ks_epoch = e, ks_window_secs = window_secs, local_count = 0,
     carryover = 0, carryover_epoch = 0, remote_estimate = 0, estimate_at = tick,
     last_seen = tick, seen_since_tick = True\<rparr>"

definition roll_to :: "nat \<Rightarrow> key_state \<Rightarrow> key_state" where
  "roll_to e s =
     (if ks_epoch s \<noteq> e then
        (let s1 =
           (if 0 < local_count s then
              (if 0 < carryover s \<and> carryover_epoch s \<noteq> ks_epoch s
               then s\<lparr>carryover := local_count s\<rparr>
               else s\<lparr>carryover := carryover s + local_count s\<rparr>)\<lparr>carryover_epoch := ks_epoch s\<rparr>
            else s)
         in s1\<lparr>ks_epoch := e, local_count := 0\<rparr>)
      else s)"

record global_counters =
  gc_interval :: nat
  gc_states :: "(string \<times> key_state) list"

definition global_build :: "(string \<Rightarrow> bool) \<Rightarrow> string \<Rightarrow> nat \<Rightarrow> string + global_counters" where
  "global_build url_ok url interval =
     (if url_ok url then Inr \<lparr>gc_interval = max interval (nanos_per_sec div 20), gc_states = []\<rparr>
      else Inl url)"

section \<open>The request path\<close>

definition state_for ::
  "string \<Rightarrow> nat \<Rightarrow> nat \<Rightarrow> nat \<Rightarrow> global_counters \<Rightarrow> (key_state \<times> global_counters) option" where
  "state_for key window now tick g =
     (let window_secs = max (as_secs window) 1;
          ep = epoch now window;
          over_cap = MAX_KEYS \<le> length (gc_states g)
      in case (case map_of (gc_states g) key of
                 Some s \<Rightarrow> Some s
               | None \<Rightarrow> if over_cap then None else Some (key_state_new ep window_secs tick)) of
           None \<Rightarrow> None
         | Some s \<Rightarrow>
             (let s1 = (if ks_window_secs s \<noteq> window_secs then key_state_new ep window_secs tick else s);
                  s2 = (roll_to ep s1)\<lparr>last_seen := tick, seen_since_tick := True\<rparr>
              in Some (s2, g\<lparr>gc_states := AList.update key s2 (gc_states g)\<rparr>)))"

text \<open>The budget left; \<open>None\<close> is the overflow panic of the sum.\<close>

definition fleet_remaining ::
  "string \<Rightarrow> nat \<Rightarrow> nat \<Rightarrow> nat \<Rightarrow> nat \<Rightarrow> global_counters \<Rightarrow> (nat \<times> global_counters) option" where
  "fleet_remaining key budget window now tick g =
     (case state_for key window now tick g of
        None \<Rightarrow> Some (budget, g)
      | Some (s, g') \<Rightarrow>
          (let stale_after = max (gc_interval g * 4) (secs 2);
               remote = (if tick - estimate_at s < stale_after then remote_estimate s else 0)
           in do {
             a \<leftarrow> u64_add remote (local_count s);
             used \<leftarrow> u64_add a (carryover s);
             Some (budget - used, g')
           }))"

definition record_admit :: "string \<Rightarrow> nat \<Rightarrow> nat \<Rightarrow> nat \<Rightarrow> global_counters \<Rightarrow> global_counters" where
  "record_admit key window now tick g =
     (case state_for key window now tick g of
        None \<Rightarrow> g
      | Some (s, g') \<Rightarrow>
          g'\<lparr>gc_states := AList.update key (s\<lparr>local_count := local_count s + 1\<rparr>) (gc_states g')\<rparr>)"

section \<open>A reconciliation pass\<close>

record push_plan =
  pp_key :: string
  push_epoch :: nat
  read_epoch :: nat
  pp_window :: nat
  delta :: nat
  is_carryover :: bool

definition evict_stale :: "nat \<Rightarrow> global_counters \<Rightarrow> global_counters" where
  "evict_stale tick g = g\<lparr>gc_states :=
     filter (\<lambda>(_, s). 0 < local_count s \<or> 0 < carryover s \<or>
       tick - last_seen s < max KEY_TTL (secs (sat_u64 (ks_window_secs s * 2)))) (gc_states g)\<rparr>"

definition claim_key :: "nat \<Rightarrow> string \<Rightarrow> key_state \<Rightarrow> push_plan list \<times> key_state" where
  "claim_key now key s =
     (let active = (0 < local_count s \<or> 0 < carryover s \<or> seen_since_tick s);
          s0 = s\<lparr>seen_since_tick := False\<rparr>
      in if \<not> active then ([], s0)
         else
           (let window = secs (ks_window_secs s);
                re = epoch now window;
                current = \<lparr>pp_key = key, push_epoch = ks_epoch s, read_epoch = re,
                  pp_window = window, delta = local_count s, is_carryover = False\<rparr>;
                s1 = s0\<lparr>local_count := 0\<rparr>
            in if 0 < carryover s
               then ([current, \<lparr>pp_key = key, push_epoch = carryover_epoch s, read_epoch = re,
                        pp_window = window, delta = carryover s, is_carryover = True\<rparr>],
                     s1\<lparr>carryover := 0\<rparr>)
               else ([current], s1)))"

definition claim_plans :: "nat \<Rightarrow> global_counters \<Rightarrow> push_plan list \<times> global_counters" where
  "claim_plans now g =
     (concat (map (\<lambda>(k, s). fst (claim_key now k s)) (gc_states g)),
      g\<lparr>gc_states := map (\<lambda>(k, s). (k, snd (claim_key now k s))) (gc_states g)\<rparr>)"

text \<open>The increments of a batch with their key's expiry in milliseconds, in order.\<close>

definition push_deltas :: "push_plan list \<Rightarrow> (string \<times> nat \<times> nat) list" where
  "push_deltas plans =
     map (\<lambda>p. (epoch_key (pp_key p) (push_epoch p), delta p,
                max (sat_u64 (as_millis (pp_window p) * 2)) 1))
       (filter (\<lambda>p. 0 < delta p) plans)"

definition read_keys :: "push_plan list \<Rightarrow> string list" where
  "read_keys plans = concat (map (\<lambda>p. [epoch_key (pp_key p) (read_epoch p),
     epoch_key (pp_key p) (read_epoch p - 1)]) plans)"

definition count_at :: "int option list \<Rightarrow> nat \<Rightarrow> nat" where
  "count_at vals i =
     (if i < length vals then (case vals ! i of None \<Rightarrow> 0 | Some v \<Rightarrow> nat (max v 0)) else 0)"

definition read_epochs :: "push_plan list \<Rightarrow> int option list \<Rightarrow> (nat \<times> nat) list" where
  "read_epochs plans vals =
     map (\<lambda>i. (count_at vals (i * 2), count_at vals (i * 2 + 1))) [0..<length plans]"

text \<open>\<open>est.ceil().max(0.0) as u64\<close>.\<close>

definition estimate_as_u64 :: "rat \<Rightarrow> nat" where
  "estimate_as_u64 est = sat_u64 (nat (max \<lceil>est\<rceil> 0))"

definition apply_estimate ::
  "(rat \<Rightarrow> rat) \<Rightarrow> nat \<Rightarrow> nat \<Rightarrow> push_plan \<times> nat \<times> nat \<Rightarrow> global_counters \<Rightarrow>
   global_counters" where
  "apply_estimate rnd now tick pr g =
     (case pr of (p, cur, prev) \<Rightarrow>
        if is_carryover p then g
        else case map_of (gc_states g) (pp_key p) of
               None \<Rightarrow> g
             | Some s \<Rightarrow>
                 if ks_window_secs s \<noteq> as_secs (pp_window p) \<or> read_epoch p < ks_epoch s then g
                 else g\<lparr>gc_states := AList.update (pp_key p)
                        (s\<lparr>remote_estimate :=
                             estimate_as_u64 (sliding_estimate rnd cur prev
                               (elapsed_in_window now (pp_window p)) (pp_window p)),
                           estimate_at := tick\<rparr>) (gc_states g)\<rparr>)"

definition apply_estimates ::
  "(rat \<Rightarrow> rat) \<Rightarrow> nat \<Rightarrow> nat \<Rightarrow> push_plan list \<Rightarrow> (nat \<times> nat) list \<Rightarrow>
   global_counters \<Rightarrow> global_counters" where
  "apply_estimates rnd now tick plans reads g =
     fold (apply_estimate rnd now tick) (zip plans reads) g"

text \<open>
  What the store did with a pass. A failed push may have been applied or not; the plans
  a pass sent are returned with the state after it.
\<close>

datatype sync_reply = NoConnection | PushFailed | ReadFailed | Read_Values "int option list"

definition reconcile_at ::
  "(rat \<Rightarrow> rat) \<Rightarrow> nat \<Rightarrow> nat \<Rightarrow> sync_reply \<Rightarrow> global_counters \<Rightarrow>
   push_plan list \<times> global_counters" where
  "reconcile_at rnd now tick reply g0 =
     (let (plans, g) = claim_plans now (evict_stale tick g0)
      in if plans = [] then ([], g)
         else case reply of
                NoConnection \<Rightarrow> ([], g)
              | PushFailed \<Rightarrow> (plans, g)
              | ReadFailed \<Rightarrow> (plans, g)
              | Read_Values vals \<Rightarrow>
                  (plans, apply_estimates rnd now tick plans (read_epochs plans vals) g))"

section \<open>Runs\<close>

text \<open>The admits of an epoch a key still holds.\<close>

definition state_pending :: "nat \<Rightarrow> key_state \<Rightarrow> nat" where
  "state_pending e s = (if ks_epoch s = e then local_count s else 0) +
     (if carryover_epoch s = e then carryover s else 0)"

definition pending :: "global_counters \<Rightarrow> string \<Rightarrow> nat \<Rightarrow> nat" where
  "pending g key e = (case map_of (gc_states g) key of None \<Rightarrow> 0 | Some s \<Rightarrow> state_pending e s)"

text \<open>The increments a list of plans sends to one epoch's counter of a key.\<close>

definition published :: "push_plan list \<Rightarrow> string \<Rightarrow> nat \<Rightarrow> nat" where
  "published plans key e =
     sum_list (map delta (filter (\<lambda>p. pp_key p = key \<and> push_epoch p = e) plans))"

datatype sync_event =
    Gated string nat nat nat nat
  | Recorded string nat nat nat
  | Reconciled nat nat sync_reply

fun sync_step ::
  "(rat \<Rightarrow> rat) \<Rightarrow> sync_event \<Rightarrow> global_counters \<Rightarrow> push_plan list \<times> global_counters" where
  "sync_step rnd (Gated key budget window now tick) g =
     ([], case fleet_remaining key budget window now tick g of None \<Rightarrow> g | Some (_, g') \<Rightarrow> g')"
| "sync_step rnd (Recorded key window now tick) g = ([], record_admit key window now tick g)"
| "sync_step rnd (Reconciled now tick reply) g = reconcile_at rnd now tick reply g"

fun sync_run ::
  "(rat \<Rightarrow> rat) \<Rightarrow> sync_event list \<Rightarrow> global_counters \<Rightarrow> push_plan list \<times> global_counters" where
  "sync_run rnd [] g = ([], g)"
| "sync_run rnd (ev # evs) g =
     (let (ps, g1) = sync_step rnd ev g; (qs, g2) = sync_run rnd evs g1 in (ps @ qs, g2))"

fun records_of :: "string \<Rightarrow> nat \<Rightarrow> sync_event \<Rightarrow> nat" where
  "records_of key e (Recorded k window now tick) = (if k = key \<and> epoch now window = e then 1 else 0)"
| "records_of key e _ = 0"

section \<open>Lemmas\<close>

lemma state_pending_new [simp]: "state_pending e (key_state_new ep w tick) = 0"
  by (simp add: state_pending_def key_state_new_def)

lemma state_pending_roll: "state_pending e (roll_to ep s) \<le> state_pending e s"
  by (auto simp: state_pending_def roll_to_def Let_def)

lemma roll_to_epoch [simp]: "ks_epoch (roll_to ep s) = ep"
  by (simp add: roll_to_def Let_def)

lemma state_pending_stamp [simp]:
  "state_pending e (s\<lparr>last_seen := t, seen_since_tick := b\<rparr>) = state_pending e s"
  "state_pending e (s\<lparr>remote_estimate := r, estimate_at := t\<rparr>) = state_pending e s"
  by (simp_all add: state_pending_def)

lemma pending_update:
  "pending (g\<lparr>gc_states := AList.update key s (gc_states g)\<rparr>) k e =
     (if k = key then state_pending e s else pending g k e)"
  by (simp add: pending_def update_conv')

lemma state_for_pending:
  assumes "state_for key window now tick g = Some (s, g')"
  shows "g' = g\<lparr>gc_states := AList.update key s (gc_states g)\<rparr>"
    "state_pending e s \<le> pending g key e" "ks_epoch s = epoch now window"
proof -
  let ?w = "max (as_secs window) 1" and ?ep = "epoch now window"
  from assms obtain s0 where s0: "map_of (gc_states g) key = Some s0 \<or>
      map_of (gc_states g) key = None \<and> s0 = key_state_new ?ep ?w tick"
    and s: "s = (roll_to ?ep (if ks_window_secs s0 \<noteq> ?w then key_state_new ?ep ?w tick else s0))
      \<lparr>last_seen := tick, seen_since_tick := True\<rparr>"
    and g': "g' = g\<lparr>gc_states := AList.update key s (gc_states g)\<rparr>"
    by (auto simp: state_for_def Let_def split: option.split_asm if_split_asm)
  show "g' = g\<lparr>gc_states := AList.update key s (gc_states g)\<rparr>" by (rule g')
  have "state_pending e s \<le> state_pending e (if ks_window_secs s0 \<noteq> ?w then key_state_new ?ep ?w tick else s0)"
    unfolding s state_pending_stamp by (rule state_pending_roll)
  also have "\<dots> \<le> pending g key e" using s0 by (auto simp: pending_def)
  finally show "state_pending e s \<le> pending g key e" .
  show "ks_epoch s = epoch now window" by (simp add: s)
qed

lemma state_for_keeps:
  assumes "state_for key window now tick g = Some (s, g')"
  shows "pending g' k e \<le> pending g k e"
    "distinct (map fst (gc_states g)) \<Longrightarrow> distinct (map fst (gc_states g'))"
  using state_for_pending(1) [OF assms] state_for_pending(2) [OF assms, of e]
  by (auto simp: pending_update distinct_update)

lemma fleet_remaining_keeps:
  assumes "fleet_remaining key budget window now tick g = Some (r, g')"
  shows "pending g' k e \<le> pending g k e"
    "distinct (map fst (gc_states g)) \<Longrightarrow> distinct (map fst (gc_states g'))"
proof -
  have "g' = g \<or> (\<exists>s. state_for key window now tick g = Some (s, g'))"
    using assms by (auto simp: fleet_remaining_def Let_def bind_eq_Some_conv split: option.split_asm)
  then show "pending g' k e \<le> pending g k e"
    "distinct (map fst (gc_states g)) \<Longrightarrow> distinct (map fst (gc_states g'))"
    using state_for_keeps by auto
qed

lemma record_admit_pending:
  "pending (record_admit key window now tick g) k e \<le>
     pending g k e + (if k = key \<and> epoch now window = e then 1 else 0)"
proof (cases "state_for key window now tick g")
  case (Some sg)
  then obtain s g1 where sf: "state_for key window now tick g = Some (s, g1)" by (cases sg) auto
  have "state_pending e (s\<lparr>local_count := local_count s + 1\<rparr>) =
      state_pending e s + (if ks_epoch s = e then 1 else 0)"
    by (simp add: state_pending_def)
  then show ?thesis
    using state_for_pending(1,3) [OF sf] state_for_pending(2) [OF sf, of e] sf
    by (auto simp: record_admit_def pending_update)
qed (simp add: record_admit_def)

lemma record_admit_distinct:
  "distinct (map fst (gc_states g)) \<Longrightarrow> distinct (map fst (gc_states (record_admit key window now tick g)))"
  by (auto simp: record_admit_def split: option.split intro!: distinct_update dest: state_for_keeps(2))

lemma published_simps [simp]:
  "published [] key e = 0"
  "published (p # ps) key e = (if pp_key p = key \<and> push_epoch p = e then delta p else 0) + published ps key e"
  "published (ps @ qs) key e = published ps key e + published qs key e"
  by (simp_all add: published_def)

lemma claim_key_publishes:
  "published (fst (claim_key now k s)) key e = (if k = key then state_pending e s else 0)"
  "state_pending e (snd (claim_key now k s)) = 0"
  by (auto simp: claim_key_def state_pending_def Let_def)

lemma concat_claims:
  assumes "distinct (map fst al)"
  shows "published (concat (map (\<lambda>(k, s). fst (claim_key now k s)) al)) key e =
    (case map_of al key of None \<Rightarrow> 0 | Some s \<Rightarrow> state_pending e s)"
  using assms
proof (induction al)
  case (Cons ks al)
  obtain k s where ks: "ks = (k, s)" by fastforce
  have "k = key \<Longrightarrow> map_of al key = None" using Cons.prems ks by (simp add: map_of_eq_None_iff)
  with Cons ks show ?case by (auto simp: claim_key_publishes)
qed simp

lemma map_of_map_values: "map_of (map (\<lambda>(k, s). (k, f k s)) al) key = map_option (f key) (map_of al key)"
  by (induction al) auto

text \<open>A claim takes every pending admit, to the epoch it was recorded in, and leaves none.\<close>

lemma claim_plans_exact:
  assumes "distinct (map fst (gc_states g))" "claim_plans now g = (plans, g')"
  shows "published plans key e = pending g key e" "pending g' key e = 0"
  using assms concat_claims [OF assms(1), of now key e]
    map_of_map_values [of "\<lambda>k s. snd (claim_key now k s)" "gc_states g" key]
  by (auto simp: claim_plans_def pending_def claim_key_publishes split: option.split)

lemma evict_stale_pending:
  assumes "distinct (map fst (gc_states g))"
  shows "pending (evict_stale tick g) key e = pending g key e"
    "distinct (map fst (gc_states (evict_stale tick g)))"
  using assms map_of_filter_value [OF assms, of "\<lambda>s. 0 < local_count s \<or> 0 < carryover s \<or>
      tick - last_seen s < max KEY_TTL (secs (sat_u64 (ks_window_secs s * 2)))" key]
  by (auto simp: evict_stale_def pending_def state_pending_def distinct_filter_keys split: option.split)

lemma apply_estimate_pending:
  "pending (apply_estimate rnd now tick pr g) key e = pending g key e"
  "distinct (map fst (gc_states g)) \<Longrightarrow> distinct (map fst (gc_states (apply_estimate rnd now tick pr g)))"
  by (auto simp: apply_estimate_def pending_update pending_def [of g] distinct_update
      split: prod.split option.split)

lemma apply_estimates_pending:
  "pending (apply_estimates rnd now tick plans reads g) key e = pending g key e"
  "distinct (map fst (gc_states g)) \<Longrightarrow>
   distinct (map fst (gc_states (apply_estimates rnd now tick plans reads g)))"
proof -
  have "pending (fold (apply_estimate rnd now tick) prs g) key e = pending g key e" for prs
    by (induction prs arbitrary: g) (simp_all add: apply_estimate_pending(1))
  then show "pending (apply_estimates rnd now tick plans reads g) key e = pending g key e"
    by (simp add: apply_estimates_def)
  have "distinct (map fst (gc_states g)) \<Longrightarrow>
      distinct (map fst (gc_states (fold (apply_estimate rnd now tick) prs g)))" for prs
    by (induction prs arbitrary: g) (simp_all add: apply_estimate_pending(2))
  then show "distinct (map fst (gc_states g)) \<Longrightarrow>
      distinct (map fst (gc_states (apply_estimates rnd now tick plans reads g)))"
    by (simp add: apply_estimates_def)
qed

lemma reconcile_at_pending:
  assumes "distinct (map fst (gc_states g))" "reconcile_at rnd now tick reply g = (plans, g')"
  shows "published plans key e + pending g' key e \<le> pending g key e"
    "pending g' key e = 0" "distinct (map fst (gc_states g'))"
proof -
  obtain ps g1 where c: "claim_plans now (evict_stale tick g) = (ps, g1)" by fastforce
  note ev = evict_stale_pending [OF assms(1)]
  note ex = claim_plans_exact [OF ev(2) c]
  have d1: "distinct (map fst (gc_states g1))"
    using c ev(2) [of tick] by (auto simp: claim_plans_def comp_def case_prod_beta)
  have "(plans = [] \<or> plans = ps) \<and> pending g' key e = pending g1 key e \<and> distinct (map fst (gc_states g'))"
    using assms(2) d1 by (auto simp: reconcile_at_def c apply_estimates_pending
        split: if_split_asm sync_reply.split_asm)
  then show "published plans key e + pending g' key e \<le> pending g key e" "pending g' key e = 0"
    "distinct (map fst (gc_states g'))"
    using ex ev(1) [of tick key e] by auto
qed

lemma sync_step_pending:
  assumes "distinct (map fst (gc_states g))" "sync_step rnd ev g = (plans, g')"
  shows "published plans key e + pending g' key e \<le> pending g key e + records_of key e ev"
    "distinct (map fst (gc_states g'))"
proof -
  have "published plans key e + pending g' key e \<le> pending g key e + records_of key e ev \<and>
      distinct (map fst (gc_states g'))"
  proof (cases ev)
    case (Gated k b w n t)
    with assms show ?thesis
      by (cases "fleet_remaining k b w n t g") (auto dest: fleet_remaining_keeps)
  next
    case (Recorded k w n t)
    with assms record_admit_pending [of k w n t g key e] record_admit_distinct [OF assms(1), of k w n t]
    show ?thesis by auto
  next
    case (Reconciled n t r)
    with assms(2) have rc: "reconcile_at rnd n t r g = (plans, g')" by simp
    show ?thesis
      using reconcile_at_pending(1) [OF assms(1) rc, of key e] reconcile_at_pending(3) [OF assms(1) rc] Reconciled
      by simp
  qed
  then show "published plans key e + pending g' key e \<le> pending g key e + records_of key e ev"
    "distinct (map fst (gc_states g'))" by blast+
qed

lemma sync_run_pending:
  assumes "distinct (map fst (gc_states g))" "sync_run rnd evs g = (plans, g')"
  shows "published plans key e + pending g' key e \<le> pending g key e + sum_list (map (records_of key e) evs) \<and>
    distinct (map fst (gc_states g'))"
  using assms
proof (induction evs arbitrary: g plans g')
  case (Cons ev evs)
  obtain ps g1 where st: "sync_step rnd ev g = (ps, g1)" by fastforce
  obtain qs g2 where r: "sync_run rnd evs g1 = (qs, g2)" by fastforce
  have "plans = ps @ qs" "g' = g2" using Cons.prems(2) st r by simp_all
  then show ?case
    using Cons.IH [OF sync_step_pending(2) [OF Cons.prems(1) st] r] sync_step_pending(1) [OF Cons.prems(1) st, of key e]
    by simp
qed simp

text \<open>
  With a rounding that is monotone and keeps the whole numbers of a count, as \<open>f64\<close>
  does below \<open>2 ^ 53\<close>, the estimate never falls below the current epoch's count nor rises
  above the two epochs together.
\<close>

lemma sliding_estimate_bounds:
  assumes "mono rnd" "rnd (of_nat cur) = of_nat cur" "rnd (of_nat prev) = of_nat prev"
    "rnd (of_nat (cur + prev)) = of_nat (cur + prev)" "rnd 0 = 0" "rnd 1 = 1"
  shows "cur \<le> nat \<lceil>sliding_estimate rnd cur prev elapsed window\<rceil>"
    "nat \<lceil>sliding_estimate rnd cur prev elapsed window\<rceil> \<le> cur + prev"
proof -
  define frac where "frac = min 1 (max 0 (rnd (as_secs_f64 rnd elapsed / max (as_secs_f64 rnd window) min_positive)))"
  have "0 \<le> 1 - frac" "1 - frac \<le> 1" unfolding frac_def by (auto simp: min_def max_def)
  then have k: "0 \<le> rnd (1 - frac)" "rnd (1 - frac) \<le> 1"
    using monoD [OF assms(1), of 0 "1 - frac"] monoD [OF assms(1), of "1 - frac" 1] assms(5,6) by simp_all
  then have "0 \<le> of_nat prev * rnd (1 - frac)" "of_nat prev * rnd (1 - frac) \<le> of_nat prev"
    by (simp_all add: mult_left_le)
  then have p: "0 \<le> rnd (of_nat prev * rnd (1 - frac))" "rnd (of_nat prev * rnd (1 - frac)) \<le> of_nat prev"
    using monoD [OF assms(1), of 0 "of_nat prev * rnd (1 - frac)"]
      monoD [OF assms(1), of "of_nat prev * rnd (1 - frac)" "of_nat prev"] assms(3,5) by simp_all
  have e: "sliding_estimate rnd cur prev elapsed window = rnd (of_nat cur + rnd (of_nat prev * rnd (1 - frac)))"
    unfolding sliding_estimate_def Let_def frac_def [symmetric] assms(2,3) ..
  have "of_nat cur \<le> sliding_estimate rnd cur prev elapsed window"
    "sliding_estimate rnd cur prev elapsed window \<le> of_nat (cur + prev)"
    unfolding e using p monoD [OF assms(1), of "of_nat cur" "of_nat cur + rnd (of_nat prev * rnd (1 - frac))"]
      monoD [OF assms(1), of "of_nat cur + rnd (of_nat prev * rnd (1 - frac))" "of_nat (cur + prev)"] assms(2,4)
    by simp_all
  then show "cur \<le> nat \<lceil>sliding_estimate rnd cur prev elapsed window\<rceil>"
    "nat \<lceil>sliding_estimate rnd cur prev elapsed window\<rceil> \<le> cur + prev"
    by (metis ceiling_mono ceiling_of_nat nat_int nat_mono)+
qed

section \<open>Properties\<close>

text \<open>
  C36. No admit is counted twice. From a fresh reconciler, over any run of gate checks,
  recorded admits and reconciliation passes, with clocks that may go back, windows that
  may change and a store that may fail, the increments sent to the counter of a key's
  epoch and those still pending for it are together at most the admits recorded in that
  epoch; and the next pass that reaches the store sends everything pending and leaves
  nothing.
\<close>

theorem fleet_never_counts_twice:
  assumes "global_build url_ok url interval = Inr g" "sync_run rnd evs g = (plans, g')"
    and "reconcile_at rnd now tick (Read_Values vals) g' = (plans', g'')"
  shows "published plans key e + pending g' key e \<le> sum_list (map (records_of key e) evs) \<and>
    published plans' key e = pending g' key e \<and> pending g'' key e = 0"
proof -
  have g: "distinct (map fst (gc_states g))" "pending g key e = 0"
    using assms(1) by (auto simp: global_build_def pending_def split: if_split_asm)
  note run = sync_run_pending [OF g(1) assms(2), of key e]
  obtain ps g1 where c: "claim_plans now (evict_stale tick g') = (ps, g1)" by fastforce
  have d: "distinct (map fst (gc_states g'))" using run by blast
  have "plans' = ps" using assms(3) by (auto simp: reconcile_at_def c split: if_split_asm)
  then have "published plans' key e = pending g' key e"
    using claim_plans_exact(1) [OF evict_stale_pending(2) [OF d] c, of key e]
      evict_stale_pending(1) [OF d, of tick key e] by simp
  then show ?thesis using run g(2) reconcile_at_pending(2) [OF d assms(3)] by simp
qed

definition sample_counters :: global_counters where
  "sample_counters = \<lparr>gc_interval = nanos_per_sec div 2, gc_states = []\<rparr>"

definition sample_events :: "sync_event list" where
  "sample_events = [Recorded ''k'' (secs 60) (secs 59) 0, Recorded ''k'' (secs 60) (secs 61) 0]"

lemma sample_sync_run:
  "fst (sync_run id sample_events sample_counters) = [] \<and>
   pending (snd (sync_run id sample_events sample_counters)) ''k'' 0 = 1"
  by (simp add: sample_events_def sample_counters_def record_admit_def state_for_def key_state_new_def
      roll_to_def epoch_def as_secs_def rust_num pending_def state_pending_def MAX_KEYS_def Let_def)

theorem fleet_never_counts_twice_witness:
  "\<exists>g' plans' g''. sync_run id sample_events sample_counters = ([], g') \<and>
     reconcile_at id (secs 62) 0 (Read_Values []) g' = (plans', g'') \<and>
     published plans' ''k'' 0 = 1 \<and> pending g'' ''k'' 0 = 0"
proof -
  obtain g' where r: "sync_run id sample_events sample_counters = ([], g')"
    "pending g' ''k'' 0 = 1" using sample_sync_run by (metis prod.collapse)
  obtain plans' g'' where c: "reconcile_at id (secs 62) 0 (Read_Values []) g' = (plans', g'')"
    by fastforce
  have "global_build (\<lambda>_. True) [] (nanos_per_sec div 2) = Inr sample_counters"
    by (simp add: global_build_def sample_counters_def nanos_per_sec_def)
  from fleet_never_counts_twice [OF this r(1) c, of "''k''" 0] r c show ?thesis by auto
qed

end
