(* ===== verification/Request.thy ===== *)
theory Request
  imports Status Client_Address
begin

text \<open>
  A request as the guards see it: its line, its headers and the extensions the proxy's
  own layers attach (the resolved client address, the server's connection record, the
  verified claims). The rest of the service behind a guard is a function that takes the
  request and a state it may change.
\<close>

record request =
  req_method :: string
  req_path :: string
  req_query :: "string option"
  req_headers :: header_map
  req_client :: "client_address option"
  req_connect :: "socket_addr option"
  req_claims :: "json option"

text \<open>The monotonic clock, from the start of the process, and the wall clock.\<close>

record clocks =
  tick_now :: nat
  wall_now :: nat

definition sample_request :: request where
  "sample_request = \<lparr>req_method = ''GET'', req_path = ''/v1/items'', req_query = None,
     req_headers = no_headers, req_client = None,
     req_connect = Some \<lparr>sock_ip = V4 [192, 0, 2, 7], sock_port = 40000\<rparr>, req_claims = None\<rparr>"

end
