(* ===== verification/Shield.thy ===== *)
theory Shield
  imports Request Resolve Store Global
begin

text \<open>
  Request rate limiting, \<^verbatim>\<open>src/shield/mod.rs\<close>: the Shield built from its configuration, the
  key a rule derives for a request, the charge of a request to its limit, and the
  budget reported on responses. The build is the one with the \<open>redis\<close> feature. A panic is
  \<open>None\<close>. The third-party functions the Shield calls are the fields of \<open>shield_env\<close>.
\<close>

section \<open>State\<close>

record shield_env =
  env_glob :: "string \<Rightarrow> (string \<Rightarrow> bool) option"
  env_header_name :: "string \<Rightarrow> string option"
  env_sha256 :: "string \<Rightarrow> string"
  env_url_scheme :: "string \<Rightarrow> string option"
  env_client_ok :: "nat \<Rightarrow> bool"
  env_store_url_ok :: "string \<Rightarrow> bool"
  env_in_runtime :: bool

record sync_config =
  syc_redis_url :: string
  syc_interval_ms :: nat

record shield_config =
  shc_enabled :: bool
  shc_profiles :: "(string \<times> limit_profile_config) list"
  shc_rules :: "rate_rule_config list"
  shc_default_profile :: "string option"
  shc_jwt_limits :: "jwt_limits option"
  shc_limit_service :: "limit_service_config option"
  shc_sync :: "sync_config option"

record shield =
  sh_rules :: "compiled_rule list"
  sh_profiles :: profiles
  sh_default :: "compiled_profile option"
  sh_jwt_limits :: "jwt_limits option"
  sh_limit_service :: "limit_service option"
  sh_global :: "global_counters option"
  sh_store :: gcra_store

record report =
  rp_limit :: nat
  rp_remaining :: nat
  rp_verdict :: verdict

datatype decision = Pass | Reject response | Report report

section \<open>Building\<close>

definition build_default ::
  "string option \<Rightarrow> profiles \<Rightarrow> shield_error + compiled_profile option" where
  "build_default name profiles =
     (case name of
        None \<Rightarrow> Inr None
      | Some n \<Rightarrow>
          (case map_of profiles n of None \<Rightarrow> Inl (UnknownDefault n) | Some p \<Rightarrow> Inr (Some p)))"

definition build_service ::
  "shield_env \<Rightarrow> limit_service_config option \<Rightarrow> profiles \<Rightarrow> shield_error + limit_service option" where
  "build_service env cfg profiles =
     (case cfg of
        None \<Rightarrow> Inr None
      | Some c \<Rightarrow>
          (case limit_service_build (env_url_scheme env) (env_client_ok env) c profiles of
             Inl e \<Rightarrow> Inl e | Inr s \<Rightarrow> Inr (Some s)))"

definition build_global :: "shield_env \<Rightarrow> sync_config option \<Rightarrow> shield_error + global_counters option" where
  "build_global env sync =
     (case sync of
        None \<Rightarrow> Inr None
      | Some c \<Rightarrow>
          (case global_build (env_store_url_ok env) (syc_redis_url c)
                  (syc_interval_ms c * (nanos_per_sec div 1000)) of
             Inl url \<Rightarrow> Inl (InvalidStoreUrl url)
           | Inr g \<Rightarrow> Inr (if env_in_runtime env then Some g else None)))"

definition shield_build :: "shield_env \<Rightarrow> shield_config \<Rightarrow> shield_error + shield option" where
  "shield_build env config =
     (if \<not> shc_enabled config then Inr None
      else if shc_rules config = [] then Inl NoRules
      else case compile_profiles (shc_profiles config) of
        Inl e \<Rightarrow> Inl e
      | Inr profiles \<Rightarrow>
        (case compile_rules (env_glob env) (env_header_name env) (env_sha256 env)
                (shc_rules config) profiles of
          Inl e \<Rightarrow> Inl e
        | Inr rules \<Rightarrow>
          (case build_default (shc_default_profile config) profiles of
            Inl e \<Rightarrow> Inl e
          | Inr default_profile \<Rightarrow>
            (case build_service env (shc_limit_service config) profiles of
              Inl e \<Rightarrow> Inl e
            | Inr service \<Rightarrow>
              (case build_global env (shc_sync config) of
                Inl e \<Rightarrow> Inl e
              | Inr global \<Rightarrow>
                  Inr (Some \<lparr>sh_rules = rules, sh_profiles = profiles, sh_default = default_profile,
                    sh_jwt_limits = shc_jwt_limits config, sh_limit_service = service,
                    sh_global = global, sh_store = store_new\<rparr>))))))"

section \<open>Rules and limits\<close>

definition match_rule :: "shield \<Rightarrow> string \<Rightarrow> phase \<Rightarrow> compiled_rule option" where
  "match_rule sh path ph = find (\<lambda>r. cr_phase r = ph \<and> cr_matcher r path) (sh_rules sh)"

definition enforces :: "shield \<Rightarrow> phase \<Rightarrow> bool" where
  "enforces sh ph \<longleftrightarrow> list_ex (\<lambda>r. cr_phase r = ph) (sh_rules sh)"

definition static_profile :: "shield \<Rightarrow> compiled_rule \<Rightarrow> compiled_profile option" where
  "static_profile sh rule =
     (case Option.bind (cr_profile rule) (map_of (sh_profiles sh)) of
        Some p \<Rightarrow> Some p
      | None \<Rightarrow> sh_default sh)"

definition jwt_limit :: "shield \<Rightarrow> json option \<Rightarrow> compiled_profile option" where
  "jwt_limit sh claims =
     (case (sh_jwt_limits sh, claims) of
        (Some jwt, Some c) \<Rightarrow> jwt_resolve jwt c (sh_profiles sh)
      | _ \<Rightarrow> None)"

definition resolve_limit ::
  "compiled_rule \<Rightarrow> json option \<Rightarrow> string \<Rightarrow> nat \<Rightarrow> shield \<Rightarrow> compiled_profile option \<times> shield" where
  "resolve_limit rule claims identity now sh =
     (case jwt_limit sh claims of
        Some p \<Rightarrow> (Some p, sh)
      | None \<Rightarrow>
          (case sh_limit_service sh of
             None \<Rightarrow> (static_profile sh rule, sh)
           | Some service \<Rightarrow>
               (let (found, _, service') = service_resolve identity now service;
                    sh' = sh\<lparr>sh_limit_service := Some service'\<rparr>
                in case found of Some p \<Rightarrow> (Some p, sh') | None \<Rightarrow> (static_profile sh' rule, sh'))))"

section \<open>Keys\<close>

text \<open>A fixed array filled part by part; \<open>None\<close> is the panic of a part past its end.\<close>

fun fill :: "nat \<Rightarrow> string \<Rightarrow> string list \<Rightarrow> string option" where
  "fill cap acc [] = Some acc"
| "fill cap acc (part # parts) =
     (if length acc + length part \<le> cap then fill cap (acc @ part) parts else None)"

definition store_key :: "string \<Rightarrow> string \<Rightarrow> string \<Rightarrow> string option" where
  "store_key fingerprint tag hash = fill 72 [] [fingerprint, '':'', tag, '':'', hash]"

definition address_text :: "ip_addr \<Rightarrow> string option" where
  "address_text ip = fill 45 [] [show_ip ip]"

fun address_identity :: "resolution \<Rightarrow> string option" where
  "address_identity (Peer ip) = address_text ip"
| "address_identity (Forwarded ip) = address_text ip"
| "address_identity (Invalid _) = Some ''invalid''"
| "address_identity Unavailable = Some ''unknown''"

definition header_str :: "header_map \<Rightarrow> string \<Rightarrow> string option" where
  "header_str headers name =
     (case Option.bind (header_get headers name) to_str of
        None \<Rightarrow> None
      | Some v \<Rightarrow> (let t = trim v in if t = [] then None else Some t))"

definition key_identity ::
  "key_source \<Rightarrow> client_address \<Rightarrow> header_map \<Rightarrow> json option \<Rightarrow> (string \<times> string) option" where
  "key_identity key client headers claims =
     (let address = map_option (\<lambda>t. (''ip'', t)) (address_identity (resolution client))
      in case key of
           Ip \<Rightarrow> address
         | Header name \<Rightarrow>
             (case header_str headers name of Some v \<Rightarrow> Some (''hdr'', v) | None \<Rightarrow> address)
         | JwtClaim claim \<Rightarrow>
             (case Option.bind claims (\<lambda>c. claim_str c claim) of
                Some v \<Rightarrow> Some (''jwt'', v)
              | None \<Rightarrow> address))"

record rule_key =
  rk_store :: string
  rk_identity :: string

definition make_rule_key ::
  "(string \<Rightarrow> string) \<Rightarrow> string \<Rightarrow> key_source \<Rightarrow> client_address \<Rightarrow> header_map \<Rightarrow> json option \<Rightarrow>
   rule_key option" where
  "make_rule_key sha256 fingerprint key client headers claims = do {
     (tag, identity) \<leftarrow> key_identity key client headers claims;
     store \<leftarrow> store_key fingerprint tag (short_hash_hex sha256 identity);
     Some \<lparr>rk_store = store, rk_identity = identity\<rparr>
   }"

definition request_client :: "request \<Rightarrow> client_address" where
  "request_client req =
     (case req_client req of Some client \<Rightarrow> client | None \<Rightarrow> from_peer (req_connect req))"

section \<open>Reported budgets\<close>

definition secs_ceil :: "nat \<Rightarrow> nat" where
  "secs_ceil d = sat_u64 ((d + (nanos_per_sec - 1)) div nanos_per_sec)"

definition RATELIMIT_LIMIT :: string where
  "RATELIMIT_LIMIT = ''ratelimit-limit''"

definition RATELIMIT_REMAINING :: string where
  "RATELIMIT_REMAINING = ''ratelimit-remaining''"

definition RATELIMIT_RESET :: string where
  "RATELIMIT_RESET = ''ratelimit-reset''"

definition RETRY_AFTER :: string where
  "RETRY_AFTER = ''retry-after''"

definition attach_rate_headers :: "nat \<Rightarrow> nat \<Rightarrow> verdict \<Rightarrow> header_map \<Rightarrow> header_map" where
  "attach_rate_headers limit left v headers =
     header_insert
       (header_insert
         (header_insert headers RATELIMIT_LIMIT (show_nat limit))
         RATELIMIT_REMAINING (show_nat left))
       RATELIMIT_RESET (show_nat (secs_ceil (reset_after v)))"

definition too_many_requests :: "nat \<Rightarrow> nat \<Rightarrow> verdict \<Rightarrow> response" where
  "too_many_requests limit left v =
     (let r = reject Code_ResourceExhausted ''rate limit exceeded''
      in r\<lparr>resp_headers :=
           header_insert (attach_rate_headers limit left v (resp_headers r))
             RETRY_AFTER (show_nat (secs_ceil (retry_after v)))\<rparr>)"

definition fleet_backoff :: "nat \<Rightarrow> nat" where
  "fleet_backoff window = max (window div 10) (secs 1)"

definition global_reject :: "nat \<Rightarrow> nat \<Rightarrow> response" where
  "global_reject limit window =
     (let backoff = fleet_backoff window
      in too_many_requests limit 0 \<lparr>allowed = False, new_tat = 0, remaining = 0,
           retry_after = backoff, reset_after = backoff\<rparr>)"

definition reconciled_headers :: "verdict \<Rightarrow> nat option \<Rightarrow> nat \<Rightarrow> nat \<times> verdict" where
  "reconciled_headers v fleet window =
     (case fleet of
        None \<Rightarrow> (remaining v, v)
      | Some fr \<Rightarrow>
          (let fleet_r = fr - 1
           in if fleet_r \<le> remaining v
              then (let backoff = fleet_backoff window
                    in (fleet_r, v\<lparr>reset_after := max (reset_after v) backoff,
                          retry_after := max (retry_after v) backoff\<rparr>))
              else (remaining v, v)))"

definition header_u64 :: "header_map \<Rightarrow> string \<Rightarrow> nat option" where
  "header_u64 headers name = Option.bind (Option.bind (header_get headers name) to_str) parse_u64"

definition keep_inner :: "header_map \<Rightarrow> nat \<Rightarrow> verdict \<Rightarrow> bool" where
  "keep_inner headers left v \<longleftrightarrow>
     (case header_u64 headers RATELIMIT_REMAINING of
        None \<Rightarrow> False
      | Some inner \<Rightarrow>
          inner < left \<or>
          inner = left \<and>
            secs_ceil (reset_after v) \<le>
              (case header_u64 headers RATELIMIT_RESET of None \<Rightarrow> 0 | Some r \<Rightarrow> r))"

definition maybe_tighten_rate_headers :: "nat \<Rightarrow> nat \<Rightarrow> verdict \<Rightarrow> header_map \<Rightarrow> header_map" where
  "maybe_tighten_rate_headers limit left v headers =
     (if keep_inner headers left v then headers
      else
        (let h = attach_rate_headers limit left v headers
         in case header_u64 h RETRY_AFTER of
              None \<Rightarrow> h
            | Some current \<Rightarrow>
                (let reset = secs_ceil (reset_after v)
                 in if current < reset then header_insert h RETRY_AFTER (show_nat reset) else h)))"

definition apply_report :: "report \<Rightarrow> response \<Rightarrow> response" where
  "apply_report rp r = r\<lparr>resp_headers :=
     maybe_tighten_rate_headers (rp_limit rp) (rp_remaining rp) (rp_verdict rp) (resp_headers r)\<rparr>"

section \<open>Deciding\<close>

definition charge ::
  "(string \<Rightarrow> string) \<Rightarrow> compiled_rule \<Rightarrow> request \<Rightarrow> clocks \<Rightarrow> shield \<Rightarrow> (decision \<times> shield) option" where
  "charge sha256 rule req ck sh = do {
     key \<leftarrow> make_rule_key sha256 (cr_fingerprint rule) (cr_key rule) (request_client req)
       (req_headers req) (req_claims req);
     let (found, sh1) = resolve_limit rule (req_claims req) (rk_identity key) (tick_now ck) sh;
     (case found of
        None \<Rightarrow> Some (Pass, sh1)
      | Some p \<Rightarrow> do {
          (fleet, sh2) \<leftarrow>
            (case sh_global sh1 of
               None \<Rightarrow> Some (None, sh1)
             | Some g \<Rightarrow>
                 map_option (\<lambda>(r, g'). (Some r, sh1\<lparr>sh_global := Some g'\<rparr>))
                   (fleet_remaining (rk_store key) (cp_limit p) (cp_window p) (wall_now ck) (tick_now ck) g));
          (if fleet = Some 0 then Some (Reject (global_reject (cp_limit p) (cp_window p)), sh2)
           else do {
             (v, store) \<leftarrow> store_check (rk_store key) (cp_gcra p) (tick_now ck) (sh_store sh2);
             let sh3 = sh2\<lparr>sh_store := store\<rparr>;
             (if \<not> allowed v
              then Some (Reject (too_many_requests (cp_limit p) (remaining v) v), sh3)
              else
                (let sh4 = (case (fleet, sh_global sh3) of
                       (Some _, Some g) \<Rightarrow>
                         sh3\<lparr>sh_global := Some (record_admit (rk_store key) (cp_window p)
                           (wall_now ck) (tick_now ck) g)\<rparr>
                     | _ \<Rightarrow> sh3);
                   (reported, hv) = reconciled_headers v fleet (cp_window p)
                 in Some (Report \<lparr>rp_limit = cp_limit p, rp_remaining = reported, rp_verdict = hv\<rparr>, sh4)))
           })
        })
   }"

definition decide ::
  "(string \<Rightarrow> string) \<Rightarrow> phase \<Rightarrow> request \<Rightarrow> clocks \<Rightarrow> shield \<Rightarrow> (decision \<times> shield) option" where
  "decide sha256 ph req ck sh =
     (case match_rule sh (req_path req) ph of
        None \<Rightarrow> Some (Pass, sh)
      | Some rule \<Rightarrow> charge sha256 rule req ck sh)"

text \<open>The middleware of a phase, around the rest of the service.\<close>

definition enforce ::
  "(string \<Rightarrow> string) \<Rightarrow> phase \<Rightarrow> (request \<Rightarrow> 's \<Rightarrow> response \<times> 's) \<Rightarrow> request \<Rightarrow> clocks \<Rightarrow> shield \<Rightarrow> 's \<Rightarrow>
   (response \<times> shield \<times> 's) option" where
  "enforce sha256 ph next req ck sh s =
     (case decide sha256 ph req ck sh of
        None \<Rightarrow> None
      | Some (Pass, sh') \<Rightarrow> (case next req s of (r, s') \<Rightarrow> Some (r, sh', s'))
      | Some (Reject r, sh') \<Rightarrow> Some (r, sh', s)
      | Some (Report rp, sh') \<Rightarrow> (case next req s of (r, s') \<Rightarrow> Some (apply_report rp r, sh', s')))"

text \<open>Requests in the order the Shield decides them.\<close>

type_synonym shield_event = "phase \<times> request \<times> clocks"

fun shield_run ::
  "(string \<Rightarrow> string) \<Rightarrow> shield \<Rightarrow> shield_event list \<Rightarrow> (decision list \<times> shield) option" where
  "shield_run sha256 sh [] = Some ([], sh)"
| "shield_run sha256 sh ((ph, req, ck) # es) = do {
     (d, sh') \<leftarrow> decide sha256 ph req ck sh;
     (ds, sh'') \<leftarrow> shield_run sha256 sh' es;
     Some (d # ds, sh'')
   }"

section \<open>Keys always exist\<close>

lemma fill_Some:
  "length acc + sum_list (map length parts) \<le> cap \<Longrightarrow> fill cap acc parts = Some (acc @ concat parts)"
  by (induction parts arbitrary: acc) simp_all

text \<open>A request whose resolved address, if any, is an address.\<close>

definition request_ok :: "request \<Rightarrow> bool" where
  "request_ok req \<longleftrightarrow>
     (case ip_of_resolution (resolution (request_client req)) of None \<Rightarrow> True | Some ip \<Rightarrow> ip_wf ip)"

lemma address_identity_total:
  "request_ok req \<Longrightarrow> \<exists>t. address_identity (resolution (request_client req)) = Some t"
  using length_show_ip
  by (cases "resolution (request_client req)") (auto simp: request_ok_def address_text_def)

lemma key_identity_total:
  assumes "request_ok req"
  shows "\<exists>tag t. key_identity key (request_client req) headers claims = Some (tag, t) \<and>
    tag \<in> {''ip'', ''hdr'', ''jwt''}"
  using address_identity_total [OF assms]
  by (auto simp: key_identity_def Let_def split: key_source.split option.split)

definition key_text :: "string \<Rightarrow> string \<Rightarrow> string \<Rightarrow> string" where
  "key_text fingerprint tag hash = fingerprint @ '':'' @ tag @ '':'' @ hash"

lemma store_key_eq:
  assumes "length fp = 32" "length hash = 32" "tag \<in> {''ip'', ''hdr'', ''jwt''}"
  shows "store_key fp tag hash = Some (key_text fp tag hash)"
proof -
  have "fill 72 [] [fp, '':'', tag, '':'', hash] = Some ([] @ concat [fp, '':'', tag, '':'', hash])"
    using assms by (intro fill_Some) auto
  then show ?thesis by (simp add: store_key_def key_text_def)
qed

lemma key_text_inject:
  assumes "key_text fp tag hash = key_text fp' tag' hash'" "length fp = 32" "length fp' = 32"
    and "tag \<in> {''ip'', ''hdr'', ''jwt''}" "tag' \<in> {''ip'', ''hdr'', ''jwt''}"
  shows "fp = fp' \<and> tag = tag' \<and> hash = hash'"
  using assms by (auto simp: key_text_def)

lemma make_rule_key_total:
  assumes "request_ok req" "length fp = 32" "\<And>x. length (sha x) = 32"
  shows "\<exists>tag t. key_identity key (request_client req) headers claims = Some (tag, t) \<and>
    tag \<in> {''ip'', ''hdr'', ''jwt''} \<and>
    make_rule_key sha fp key (request_client req) headers claims =
      Some \<lparr>rk_store = key_text fp tag (short_hash_hex sha t), rk_identity = t\<rparr>"
proof -
  obtain tag t where "key_identity key (request_client req) headers claims = Some (tag, t)"
    "tag \<in> {''ip'', ''hdr'', ''jwt''}" using key_identity_total [OF assms(1)] by blast
  then show ?thesis
    using store_key_eq [OF assms(2) short_hash_hex_length [of sha t]] assms(3)
    by (simp add: make_rule_key_def)
qed

section \<open>Reported numbers\<close>

lemma rate_header_names:
  "RATELIMIT_LIMIT \<noteq> RATELIMIT_REMAINING" "RATELIMIT_LIMIT \<noteq> RATELIMIT_RESET" "RATELIMIT_LIMIT \<noteq> RETRY_AFTER"
  "RATELIMIT_REMAINING \<noteq> RATELIMIT_LIMIT" "RATELIMIT_REMAINING \<noteq> RATELIMIT_RESET"
  "RATELIMIT_REMAINING \<noteq> RETRY_AFTER" "RATELIMIT_RESET \<noteq> RATELIMIT_LIMIT"
  "RATELIMIT_RESET \<noteq> RATELIMIT_REMAINING" "RATELIMIT_RESET \<noteq> RETRY_AFTER"
  "RETRY_AFTER \<noteq> RATELIMIT_LIMIT" "RETRY_AFTER \<noteq> RATELIMIT_REMAINING" "RETRY_AFTER \<noteq> RATELIMIT_RESET"
  by (simp_all add: RATELIMIT_LIMIT_def RATELIMIT_REMAINING_def RATELIMIT_RESET_def RETRY_AFTER_def)

lemma to_str_show_nat: "to_str (show_nat n) = Some (show_nat n)"
proof -
  have "32 \<le> byte (digit_char d) \<and> byte (digit_char d) < 127" if "d < 10" for d
    using that by (auto simp: byte_def digit_char_def)
  then show ?thesis using show_nat_digits [of n] by (fastforce simp: to_str_def list_all_iff)
qed

lemma header_u64_insert:
  "header_u64 (header_insert h n (show_nat k)) m =
     (if m = n then (if k \<le> u64_max then Some k else None) else header_u64 h m)"
  by (simp add: header_u64_def header_simps to_str_show_nat parse_u64_show_nat)

lemma header_u64_attach:
  assumes "left \<le> u64_max"
  shows "header_u64 (attach_rate_headers limit left v h) RATELIMIT_REMAINING = Some left"
    "header_u64 (attach_rate_headers limit left v h) RATELIMIT_RESET = Some (secs_ceil (reset_after v))"
    "header_u64 (attach_rate_headers limit left v h) RETRY_AFTER = header_u64 h RETRY_AFTER"
  using assms by (simp_all add: attach_rate_headers_def header_u64_insert rate_header_names secs_ceil_def)

section \<open>A statically configured Shield\<close>

text \<open>No claim, service or fleet takes part in the limits.\<close>

definition static_shield :: "shield \<Rightarrow> bool" where
  "static_shield sh \<longleftrightarrow> sh_jwt_limits sh = None \<and> sh_limit_service sh = None \<and> sh_global sh = None"

text \<open>The store key a request is limited by, and its event at the store.\<close>

definition limit_key :: "(string \<Rightarrow> string) \<Rightarrow> shield \<Rightarrow> phase \<Rightarrow> request \<Rightarrow> string option" where
  "limit_key sha sh ph req = do {
     rule \<leftarrow> match_rule sh (req_path req) ph;
     key \<leftarrow> make_rule_key sha (cr_fingerprint rule) (cr_key rule) (request_client req)
       (req_headers req) (req_claims req);
     Some (rk_store key)
   }"

definition store_event :: "(string \<Rightarrow> string) \<Rightarrow> shield \<Rightarrow> shield_event \<Rightarrow> request_event option" where
  "store_event sha sh e = (case e of (ph, req, ck) \<Rightarrow> do {
     rule \<leftarrow> match_rule sh (req_path req) ph;
     key \<leftarrow> limit_key sha sh ph req;
     p \<leftarrow> static_profile sh rule;
     Some (key, cp_gcra p, tick_now ck)
   })"

definition is_report :: "decision \<Rightarrow> bool" where
  "is_report d \<longleftrightarrow> (case d of Report _ \<Rightarrow> True | _ \<Rightarrow> False)"

text \<open>The requests of one store key a run admitted.\<close>

definition shield_admits ::
  "(string \<Rightarrow> string) \<Rightarrow> shield \<Rightarrow> string \<Rightarrow> shield_event list \<Rightarrow> decision list \<Rightarrow> nat" where
  "shield_admits sha sh key es ds =
     length (filter (\<lambda>((ph, req, ck), d). limit_key sha sh ph req = Some key \<and> is_report d) (zip es ds))"

lemma static_shield_keeps [simp]:
  "static_shield (sh\<lparr>sh_store := st\<rparr>) = static_shield sh"
  "limit_key sha (sh\<lparr>sh_store := st\<rparr>) = limit_key sha sh"
  "store_event sha (sh\<lparr>sh_store := st\<rparr>) = store_event sha sh"
proof -
  have m: "match_rule (sh\<lparr>sh_store := st\<rparr>) = match_rule sh"
    "static_profile (sh\<lparr>sh_store := st\<rparr>) = static_profile sh"
    by (simp_all add: match_rule_def static_profile_def fun_eq_iff split: option.split)
  show l: "limit_key sha (sh\<lparr>sh_store := st\<rparr>) = limit_key sha sh"
    by (simp add: limit_key_def m fun_eq_iff)
  show "store_event sha (sh\<lparr>sh_store := st\<rparr>) = store_event sha sh"
    by (simp add: store_event_def m l fun_eq_iff)
qed (simp add: static_shield_def)

lemma static_decide:
  assumes "static_shield sh" "\<And>r. r \<in> set (sh_rules sh) \<Longrightarrow> length (cr_fingerprint r) = 32"
    and "\<And>x. length (sha x) = 32" "request_ok req"
  shows "case store_event sha sh (ph, req, ck) of
      None \<Rightarrow> decide sha ph req ck sh = Some (Pass, sh)
    | Some (k, g, now) \<Rightarrow>
        limit_key sha sh ph req = Some k \<and> now = tick_now ck \<and>
        (\<forall>v st. store_check k g now (sh_store sh) = Some (v, st) \<longrightarrow>
          (\<exists>d. decide sha ph req ck sh = Some (d, sh\<lparr>sh_store := st\<rparr>) \<and> is_report d = allowed v))"
proof (cases "match_rule sh (req_path req) ph")
  case None
  then show ?thesis by (simp add: store_event_def decide_def)
next
  case (Some rule)
  then have "rule \<in> set (sh_rules sh)" by (auto simp: match_rule_def find_Some_iff)
  then obtain key where key: "make_rule_key sha (cr_fingerprint rule) (cr_key rule) (request_client req)
      (req_headers req) (req_claims req) = Some key"
    using make_rule_key_total [OF assms(4) assms(2), where sha = sha] assms(3) by blast
  have rl: "resolve_limit rule c i n sh = (static_profile sh rule, sh)" for c i n
    using assms(1) by (simp add: static_shield_def resolve_limit_def jwt_limit_def)
  show ?thesis
  proof (cases "static_profile sh rule")
    case None
    with Some key rl show ?thesis by (simp add: store_event_def limit_key_def decide_def charge_def)
  next
    case (Some p)
    with \<open>match_rule sh (req_path req) ph = Some rule\<close> key rl assms(1) show ?thesis
      by (auto simp: store_event_def limit_key_def decide_def charge_def static_shield_def is_report_def
          reconciled_headers_def Let_def)
  qed
qed

lemma static_run:
  assumes "static_shield sh" "\<And>r. r \<in> set (sh_rules sh) \<Longrightarrow> length (cr_fingerprint r) = 32"
    and "\<And>x. length (sha x) = 32"
  shows "\<forall>(ph, req, ck) \<in> set es. request_ok req \<Longrightarrow>
    \<forall>e \<in> set (List.map_filter (store_event sha sh) es). event_ok e \<Longrightarrow>
    \<exists>ds vs st'. shield_run sha (sh\<lparr>sh_store := st\<rparr>) es = Some (ds, sh\<lparr>sh_store := st'\<rparr>) \<and>
      store_run st (List.map_filter (store_event sha sh) es) = Some (vs, st') \<and>
      shield_admits sha sh key es ds = admitted_of key (List.map_filter (store_event sha sh) es) vs"
proof (induction es arbitrary: st)
  case Nil
  then show ?case by (simp add: List.map_filter_simps shield_admits_def admitted_of_def)
next
  case (Cons e es)
  obtain ph req ck where e: "e = (ph, req, ck)" by (cases e) auto
  have ok: "request_ok req" using Cons.prems(1) e by simp
  note dec = static_decide [where sh = "sh\<lparr>sh_store := st\<rparr>" and sha = sha and ph = ph and ck = ck,
      simplified, OF assms ok]
  show ?case
  proof (cases "store_event sha sh e")
    case None
    with Cons.IH [of st] Cons.prems dec e show ?thesis
      by (auto simp: List.map_filter_simps shield_admits_def is_report_def)
  next
    case (Some ev)
    obtain k g now where ev: "ev = (k, g, now)" by (cases ev) auto
    have "event_ok ev" using Cons.prems(2) Some by (simp add: List.map_filter_simps)
    then obtain v st1 where c: "store_check k g now st = Some (v, st1)"
      using store_check_total [of g now k st] ev by (auto simp: event_ok_def)
    obtain d where d: "decide sha ph req ck (sh\<lparr>sh_store := st\<rparr>) = Some (d, sh\<lparr>sh_store := st1\<rparr>)"
      "is_report d = allowed v" "limit_key sha sh ph req = Some k"
      using dec Some e ev c by auto
    obtain ds vs st' where r: "shield_run sha (sh\<lparr>sh_store := st1\<rparr>) es = Some (ds, sh\<lparr>sh_store := st'\<rparr>)"
      "store_run st1 (List.map_filter (store_event sha sh) es) = Some (vs, st')"
      "shield_admits sha sh key es ds = admitted_of key (List.map_filter (store_event sha sh) es) vs"
      using Cons.IH [of st1] Cons.prems Some by (auto simp: List.map_filter_simps)
    have "shield_admits sha sh key (e # es) (d # ds) =
        admitted_of key (ev # List.map_filter (store_event sha sh) es) (v # vs)"
      using r(3) d(2,3) e ev by (auto simp: shield_admits_def admitted_of_def)
    with r(1,2) d(1) c Some e ev show ?thesis by (simp add: List.map_filter_simps)
  qed
qed

lemma store_event_arrival: "store_event sha sh (ph, req, ck) = Some ev \<Longrightarrow> arrival_of ev = tick_now ck"
  by (auto simp: store_event_def bind_eq_Some_conv)

lemma map_filter_arrivals:
  assumes "sorted (map (\<lambda>(ph, req, ck). tick_now ck) es)"
  shows "sorted (map arrival_of (List.map_filter (store_event sha sh) es))"
    "ev \<in> set (List.map_filter (store_event sha sh) es) \<Longrightarrow>
     \<exists>(ph, req, ck) \<in> set es. arrival_of ev = tick_now ck"
proof -
  show m: "\<exists>(ph, req, ck) \<in> set es. arrival_of ev = tick_now ck"
    if "ev \<in> set (List.map_filter (store_event sha sh) es)" for ev and es :: "shield_event list"
    using that store_event_arrival by (fastforce simp: List.map_filter_def)
  show "sorted (map arrival_of (List.map_filter (store_event sha sh) es))"
    using assms
  proof (induction es)
    case (Cons e es)
    obtain ph req ck where e: "e = (ph, req, ck)" by (cases e) auto
    have "tick_now ck \<le> arrival_of ev" if "ev \<in> set (List.map_filter (store_event sha sh) es)" for ev
      using m [OF that] Cons.prems e by fastforce
    with Cons e show ?case
      by (auto simp: List.map_filter_simps dest: store_event_arrival split: option.split)
  qed (simp add: List.map_filter_simps)
qed

lemma sorted_ends:
  assumes "sorted xs" "x \<in> set xs"
  shows "hd xs \<le> x \<and> x \<le> (last xs :: nat)"
proof -
  obtain i where i: "i < length xs" "x = xs ! i" using assms(2) by (auto simp: in_set_conv_nth)
  then have "xs ! 0 \<le> xs ! i" "xs ! i \<le> xs ! (length xs - 1)"
    using assms(1) by (auto simp: sorted_iff_nth_mono)
  moreover have "xs \<noteq> []" using i(1) by auto
  ultimately show ?thesis using i(2) by (simp add: hd_conv_nth last_conv_nth)
qed

text \<open>What a successful build gives: rules with fingerprints of 32 digits and sound tiers.\<close>

lemma shield_build_ok:
  assumes "shield_build env config = Inr (Some sh)" "\<And>x. length (env_sha256 env x) = 32"
  shows "r \<in> set (sh_rules sh) \<Longrightarrow> length (cr_fingerprint r) = 32"
    "static_profile sh r = Some p \<Longrightarrow> tier_ok p" "sh_store sh = store_new"
    "shc_jwt_limits config = None \<Longrightarrow> shc_limit_service config = None \<Longrightarrow> shc_sync config = None \<Longrightarrow>
     static_shield sh"
proof -
  from assms(1) obtain profiles rules def svc gl where
    p: "compile_profiles (shc_profiles config) = Inr profiles"
    and r: "compile_rules (env_glob env) (env_header_name env) (env_sha256 env) (shc_rules config) profiles = Inr rules"
    and d: "build_default (shc_default_profile config) profiles = Inr def"
    and v: "build_service env (shc_limit_service config) profiles = Inr svc"
    and g: "build_global env (shc_sync config) = Inr gl"
    and sh: "sh = \<lparr>sh_rules = rules, sh_profiles = profiles, sh_default = def,
      sh_jwt_limits = shc_jwt_limits config, sh_limit_service = svc, sh_global = gl, sh_store = store_new\<rparr>"
    by (auto simp: shield_build_def split: if_split_asm sum.split_asm)
  show "length (cr_fingerprint r) = 32" if m: "r \<in> set (sh_rules sh)"
  proof -
    obtain c where c: "compile_rule (env_glob env) (env_header_name env) (env_sha256 env) profiles c = Inr r"
      using try_map_InrD [OF r [unfolded compile_rules_def]] m sh by auto
    show ?thesis
      unfolding compile_rule_ok(5) [OF c] short_hash_def by (rule short_hash_hex_length) (rule assms(2))
  qed
  show "tier_ok p" if "static_profile sh r = Some p"
    using that d sh compile_profiles_ok [OF p]
    by (auto simp: static_profile_def build_default_def bind_eq_Some_conv split: option.split_asm)
  show "sh_store sh = store_new" by (simp add: sh)
  show "static_shield sh" if "shc_jwt_limits config = None" "shc_limit_service config = None" "shc_sync config = None"
    using that v g sh by (auto simp: static_shield_def build_service_def build_global_def)
qed

lemma limit_key_fingerprint:
  assumes "limit_key sha sh ph req = Some key" "match_rule sh (req_path req) ph = Some rule"
    and "length (cr_fingerprint rule) = 32" "\<And>x. length (sha x) = 32" "request_ok req"
  shows "cr_fingerprint rule = take 32 key"
proof -
  obtain tag t where "make_rule_key sha (cr_fingerprint rule) (cr_key rule) (request_client req)
      (req_headers req) (req_claims req) =
      Some \<lparr>rk_store = key_text (cr_fingerprint rule) tag (short_hash_hex sha t), rk_identity = t\<rparr>"
    using make_rule_key_total [OF assms(5,3), where sha = sha] assms(4) by blast
  with assms(1-3) show ?thesis by (auto simp: limit_key_def key_text_def)
qed

lemma static_event_ok:
  assumes build: "shield_build env config = Inr (Some sh)" and sha: "\<And>x. length (env_sha256 env x) = 32"
    and "request_ok req" "store_event (env_sha256 env) sh (ph, req, ck) = Some ev"
    and tier: "\<And>r. r \<in> set (sh_rules sh) \<Longrightarrow> cr_fingerprint r = take 32 key \<Longrightarrow> static_profile sh r = Some p"
    and fits: "\<And>r q. static_profile sh r = Some q \<Longrightarrow> gcra_fits (cp_gcra q) (tick_now ck)"
  shows "key_event_ok key (cp_gcra p) ev"
proof -
  note ok = shield_build_ok [OF build sha]
  from assms(4) obtain rule k q where rule: "match_rule sh (req_path req) ph = Some rule"
    "limit_key (env_sha256 env) sh ph req = Some k" "static_profile sh rule = Some q"
    "ev = (k, cp_gcra q, tick_now ck)"
    by (auto simp: store_event_def bind_eq_Some_conv)
  have rm: "rule \<in> set (sh_rules sh)" using rule(1) by (auto simp: match_rule_def find_Some_iff)
  have "cr_fingerprint rule = take 32 k"
    using limit_key_fingerprint [OF rule(2,1) ok(1) [OF rm] sha assms(3)] .
  then have "k = key \<Longrightarrow> q = p" using tier [OF rm] rule(3) by simp
  then show ?thesis
    using ok(2) [OF rule(3)] fits [OF rule(3)] rule(4) by (simp add: key_event_ok_def event_ok_def tier_ok_def)
qed

section \<open>Properties\<close>


text \<open>A Shield of one rule on the client address, one request a minute with a burst of two.\<close>

definition sample_env :: shield_env where
  "sample_env = \<lparr>env_glob = (\<lambda>_. Some (\<lambda>_. True)), env_header_name = Some,
     env_sha256 = (\<lambda>x. take 32 (x @ replicate 32 CHR 0x00)), env_url_scheme = (\<lambda>_. None),
     env_client_ok = (\<lambda>_. False), env_store_url_ok = (\<lambda>_. False), env_in_runtime = False\<rparr>"

definition sample_shield_config :: shield_config where
  "sample_shield_config = \<lparr>shc_enabled = True, shc_profiles = [(''t'', \<lparr>lp_rate = ''1/min'', lp_burst = Some 2\<rparr>)],
     shc_rules = [\<lparr>rr_pattern = ''/**'', rr_key = Cfg_Ip, rr_profile = Some ''t''\<rparr>],
     shc_default_profile = None, shc_jwt_limits = None, shc_limit_service = None, shc_sync = None\<rparr>"

definition sample_tier :: compiled_profile where
  "sample_tier = \<lparr>cp_gcra = \<lparr>emission_interval = 60000000000, tau = 60000000000, gcra_burst = 2\<rparr>,
     cp_limit = 1, cp_window = 60000000000\<rparr>"

definition sample_shield :: shield where
  "sample_shield = \<lparr>sh_rules = [\<lparr>cr_matcher = (\<lambda>_. True), cr_key = Ip, cr_profile = Some ''t'', cr_phase = PreAuth,
       cr_fingerprint = short_hash (env_sha256 sample_env) (fingerprint_text ''/**'' Ip (Some ''t''))\<rparr>],
     sh_profiles = [(''t'', sample_tier)], sh_default = None, sh_jwt_limits = None,
     sh_limit_service = None, sh_global = None, sh_store = store_new\<rparr>"

lemma sample_rate: "rate_parse ''1/min'' BARE_COUNT_WINDOW = Inr \<lparr>rate_limit = 1, rate_window = secs 60\<rparr>"
proof -
  have "trim ''1/min'' = ''1/min''" "trim ''1'' = ''1''" "trim ''min'' = ''min''" by code_simp+
  moreover have "parse_u64 ''1'' = Some 1" by (simp add: parse_u64_def digit_val_def u64_max_def)
  ultimately show ?thesis
    by (simp add: rate_parse_def parse_unit_def to_ascii_lowercase_def lower_byte_def Let_def)
qed

lemma sample_shield_built: "shield_build sample_env sample_shield_config = Inr (Some sample_shield)"
  by (simp add: shield_build_def sample_env_def sample_shield_config_def sample_shield_def compile_profiles_def
      compile_profile_def sample_rate from_profile_def duration_from_nanos_def rust_num sample_tier_def
      compile_rules_def compile_rule_def starts_with_def compile_key_def build_default_def build_service_def
      build_global_def Let_def)

definition sample_key :: string where
  "sample_key = key_text (short_hash (env_sha256 sample_env) (fingerprint_text ''/**'' Ip (Some ''t'')))
     ''ip'' (short_hash_hex (env_sha256 sample_env) ''192.0.2.7'')"




text \<open>What the key of a rule stands for: the kind of source it is taken from and its text there.\<close>

datatype source_kind = FromAddress | FromHeader | FromClaim

definition identity_source ::
  "key_source \<Rightarrow> client_address \<Rightarrow> header_map \<Rightarrow> json option \<Rightarrow> source_kind \<times> string option" where
  "identity_source key client headers claims =
     (let sent = (case key of
            Ip \<Rightarrow> None
          | Header name \<Rightarrow> map_option (Pair FromHeader) (header_str headers name)
          | JwtClaim claim \<Rightarrow>
              map_option (Pair FromClaim) (Option.bind claims (\<lambda>c. claim_str c claim)))
      in case sent of
           Some (kind, v) \<Rightarrow> (kind, Some v)
         | None \<Rightarrow> (FromAddress, address_identity (resolution client)))"

fun kind_tag :: "source_kind \<Rightarrow> string" where
  "kind_tag FromAddress = ''ip''"
| "kind_tag FromHeader = ''hdr''"
| "kind_tag FromClaim = ''jwt''"

lemma kind_tag_inject: "kind_tag a = kind_tag b \<longleftrightarrow> a = b"
  by (cases a; cases b) simp_all

lemma key_identity_source:
  "key_identity key client headers claims =
     map_option (Pair (kind_tag (fst (identity_source key client headers claims))))
       (snd (identity_source key client headers claims))"
  by (auto simp: key_identity_def identity_source_def Let_def split: key_source.splits option.splits)

text \<open>
  C32. Every request has a store key, and keys do not mix. Whatever a request carries,
  a rule derives a key of at most 72 bytes for it, for the header or claim the rule names
  and for the client address where the request has none; two requests share a key exactly
  under rules of one fingerprint, for identities from the same kind of source with the
  same hash. So no header or claim a client sends reaches the bucket of an address.
\<close>

theorem store_keys_do_not_mix:
  assumes "\<And>x. length (sha x) = 32" "length fp = 32" "length fp' = 32" "request_ok req" "request_ok req'"
  shows "\<exists>k k' kind kind'. make_rule_key sha fp key (request_client req) (req_headers req) (req_claims req) = Some k \<and>
    make_rule_key sha fp' key' (request_client req') (req_headers req') (req_claims req') = Some k' \<and>
    length (rk_store k) \<le> 72 \<and>
    identity_source key (request_client req) (req_headers req) (req_claims req) = (kind, Some (rk_identity k)) \<and>
    identity_source key' (request_client req') (req_headers req') (req_claims req') = (kind', Some (rk_identity k')) \<and>
    (rk_store k = rk_store k' \<longleftrightarrow> fp = fp' \<and> kind = kind' \<and>
      short_hash_hex sha (rk_identity k) = short_hash_hex sha (rk_identity k'))"
proof -
  obtain tag t where k: "key_identity key (request_client req) (req_headers req) (req_claims req) = Some (tag, t)"
    "tag \<in> {''ip'', ''hdr'', ''jwt''}"
    "make_rule_key sha fp key (request_client req) (req_headers req) (req_claims req) =
      Some \<lparr>rk_store = key_text fp tag (short_hash_hex sha t), rk_identity = t\<rparr>"
    using make_rule_key_total [OF assms(4,2), where sha = sha] assms(1) by blast
  obtain tag' t' where k': "key_identity key' (request_client req') (req_headers req') (req_claims req') = Some (tag', t')"
    "tag' \<in> {''ip'', ''hdr'', ''jwt''}"
    "make_rule_key sha fp' key' (request_client req') (req_headers req') (req_claims req') =
      Some \<lparr>rk_store = key_text fp' tag' (short_hash_hex sha t'), rk_identity = t'\<rparr>"
    using make_rule_key_total [OF assms(5,3), where sha = sha] assms(1) by blast
  obtain kind where s: "identity_source key (request_client req) (req_headers req) (req_claims req) = (kind, Some t)"
    "tag = kind_tag kind"
    using k(1) unfolding key_identity_source
    by (cases "identity_source key (request_client req) (req_headers req) (req_claims req)") auto
  obtain kind' where s': "identity_source key' (request_client req') (req_headers req') (req_claims req') = (kind', Some t')"
    "tag' = kind_tag kind'"
    using k'(1) unfolding key_identity_source
    by (cases "identity_source key' (request_client req') (req_headers req') (req_claims req')") auto
  have "length (key_text fp tag (short_hash_hex sha t)) \<le> 72"
    using k(2) assms(2) short_hash_hex_length [of sha t] assms(1) by (auto simp: key_text_def)
  then show ?thesis using k(3) k'(3) s s' key_text_inject [OF _ assms(2,3) k(2) k'(2)]
    by (auto simp: kind_tag_inject)
qed

theorem store_keys_do_not_mix_witness:
  "\<exists>k k'. make_rule_key (env_sha256 sample_env) (replicate 32 CHR ''a'') Ip (request_client sample_request)
       no_headers None = Some k \<and>
     make_rule_key (env_sha256 sample_env) (replicate 32 CHR ''b'') Ip (request_client sample_request)
       no_headers None = Some k' \<and> rk_store k \<noteq> rk_store k'"
proof -
  have ok: "request_ok sample_request" and r: "req_headers sample_request = no_headers" "req_claims sample_request = None"
    by (simp_all add: request_ok_def request_client_def sample_request_def from_peer_def client_address_new_def
        to_canonical.simps)
  have sha: "length (env_sha256 sample_env x) = 32" for x by (simp add: sample_env_def)
  have "replicate 32 CHR ''a'' \<noteq> replicate 32 CHR ''b''" by (simp add: replicate_eq_replicate)
  with store_keys_do_not_mix [where sha = "env_sha256 sample_env" and fp = "replicate 32 CHR ''a''" and fp' = "replicate 32 CHR ''b''" and key = Ip and key' = Ip,
      OF sha _ _ ok ok]
  show ?thesis unfolding r by auto
qed

end
