(* ===== verification/Claims_Cache.thy ===== *)
theory Claims_Cache
  imports Json
begin

text \<open>
  The cache of verified claims, \<^verbatim>\<open>src/auth/cache.rs\<close>. Keys are the SHA-256 of tokens. The
  operations come twice: as the sequential functions of the source, and as the atomic
  steps threads interleave (a lookup that drops a dead entry, the return of slots, a
  reservation, a store, a sweep), for the bound that holds under any interleaving.
\<close>

section \<open>State\<close>

record moment =
  unix :: nat
  since :: nat

record cache_entry =
  ce_claims :: json
  ce_exp :: nat
  ce_deadline :: nat

record claims_cache =
  cc_entries :: "(string \<times> cache_entry) list"
  taken :: nat
  max_entries :: nat
  max_ttl_secs :: nat
  max_token_bytes :: nat
  next_sweep :: nat

record jwt_cache_config =
  jc_enabled :: bool
  jc_max_entries :: nat
  jc_max_ttl_secs :: nat
  jc_max_token_bytes :: nat

section \<open>Operations\<close>

definition token_key :: "(string \<Rightarrow> string) \<Rightarrow> string \<Rightarrow> string" where
  "token_key sha256 token = sha256 token"

definition entry_live :: "cache_entry \<Rightarrow> moment \<Rightarrow> bool" where
  "entry_live e now \<longleftrightarrow> unix now < ce_exp e \<and> since now < ce_deadline e"

text \<open>\<open>Inl ()\<close> is the one configuration error.\<close>

definition cache_build :: "jwt_cache_config \<Rightarrow> unit + claims_cache option" where
  "cache_build config =
     (if \<not> jc_enabled config then Inr None
      else if jc_max_entries config = 0 \<or> jc_max_ttl_secs config = 0 \<or> jc_max_token_bytes config = 0
      then Inl ()
      else Inr (Some \<lparr>cc_entries = [], taken = 0, max_entries = jc_max_entries config,
        max_ttl_secs = jc_max_ttl_secs config, max_token_bytes = jc_max_token_bytes config,
        next_sweep = 0\<rparr>))"

definition cache_admits :: "claims_cache \<Rightarrow> string \<Rightarrow> bool" where
  "cache_admits c token \<longleftrightarrow> length token \<le> max_token_bytes c"

definition cache_get :: "string \<Rightarrow> moment \<Rightarrow> claims_cache \<Rightarrow> json option \<times> claims_cache" where
  "cache_get key now c =
     (case map_of (cc_entries c) key of
        None \<Rightarrow> (None, c)
      | Some e \<Rightarrow>
          if entry_live e now then (Some (ce_claims e), c)
          else (None, c\<lparr>cc_entries := AList.delete key (cc_entries c), taken := taken c - 1\<rparr>))"

text \<open>A JSON number is finite, so the range test is on its value alone.\<close>

definition numeric_date :: "json \<Rightarrow> string \<Rightarrow> nat option" where
  "numeric_date claims name =
     (case json_get claims name of
        Some (JNumber n) \<Rightarrow>
          (case number_as_u64 n of
             Some s \<Rightarrow> Some s
           | None \<Rightarrow>
               (let s = number_as_f64 n
                in if 0 \<le> s \<and> s < 2 ^ 64 then Some (nat \<lfloor>s\<rfloor>) else None))
      | _ \<Rightarrow> None)"

definition reserve :: "claims_cache \<Rightarrow> claims_cache option" where
  "reserve c = (if taken c < max_entries c then Some (c\<lparr>taken := taken c + 1\<rparr>) else None)"

definition claim_sweep :: "nat \<Rightarrow> claims_cache \<Rightarrow> claims_cache option" where
  "claim_sweep s c = (if next_sweep c \<le> s then Some (c\<lparr>next_sweep := s + 1\<rparr>) else None)"

definition dead_entries :: "moment \<Rightarrow> claims_cache \<Rightarrow> nat" where
  "dead_entries now c = length (filter (\<lambda>(_, e). \<not> entry_live e now) (cc_entries c))"

definition cache_sweep :: "moment \<Rightarrow> claims_cache \<Rightarrow> claims_cache" where
  "cache_sweep now c =
     c\<lparr>cc_entries := filter (\<lambda>(_, e). entry_live e now) (cc_entries c),
       taken := taken c - dead_entries now c\<rparr>"

text \<open>The entry \<open>insert\<close> writes for claims verified at \<open>now\<close>, if it writes one.\<close>

definition entry_for :: "json \<Rightarrow> moment \<Rightarrow> claims_cache \<Rightarrow> cache_entry option" where
  "entry_for claims now c =
     (case numeric_date claims ''exp'' of
        None \<Rightarrow> None
      | Some until \<Rightarrow>
          if until \<le> unix now \<or>
             (case numeric_date claims ''nbf'' of None \<Rightarrow> False | Some nbf \<Rightarrow> unix now < nbf)
          then None
          else Some \<lparr>ce_claims = claims, ce_exp = until,
                 ce_deadline = sat_u64 (since now + max_ttl_secs c)\<rparr>)"

definition cache_store :: "string \<Rightarrow> cache_entry \<Rightarrow> claims_cache \<Rightarrow> claims_cache" where
  "cache_store key e c =
     (let c1 = c\<lparr>cc_entries := AList.update key e (cc_entries c)\<rparr>
      in if map_of (cc_entries c) key \<noteq> None then c1\<lparr>taken := taken c1 - 1\<rparr> else c1)"

definition cache_insert :: "string \<Rightarrow> json \<Rightarrow> moment \<Rightarrow> claims_cache \<Rightarrow> claims_cache" where
  "cache_insert key claims now c =
     (case entry_for claims now c of
        None \<Rightarrow> c
      | Some e \<Rightarrow>
          (case reserve c of
             Some c1 \<Rightarrow> cache_store key e c1
           | None \<Rightarrow>
               (case claim_sweep (since now) c of
                  None \<Rightarrow> c
                | Some c1 \<Rightarrow>
                    (let c2 = cache_sweep now c1
                     in case reserve c2 of
                          None \<Rightarrow> c2
                        | Some c3 \<Rightarrow> cache_store key e c3))))"

section \<open>Interleaved threads\<close>

text \<open>
  The state threads share, with what they hold between their steps: slots reserved and
  not yet filled, slots emptied and not yet given back. \<open>stored\<close> lists what was stored.
\<close>

record shared_cache =
  cache :: claims_cache
  reserved :: nat
  owed :: nat
  stored :: "(string \<times> json \<times> moment) list"

inductive cache_step :: "shared_cache \<Rightarrow> shared_cache \<Rightarrow> bool" where
  drop_dead: "map_of (cc_entries (cache s)) key = Some e \<Longrightarrow> \<not> entry_live e now \<Longrightarrow>
    cache_step s (s\<lparr>cache := (cache s)\<lparr>cc_entries := AList.delete key (cc_entries (cache s))\<rparr>,
      owed := owed s + 1\<rparr>)"
| give_back: "n \<le> owed s \<Longrightarrow>
    cache_step s (s\<lparr>cache := (cache s)\<lparr>taken := taken (cache s) - n\<rparr>, owed := owed s - n\<rparr>)"
| take_slot: "reserve (cache s) = Some c \<Longrightarrow>
    cache_step s (s\<lparr>cache := c, reserved := reserved s + 1\<rparr>)"
| start_sweep: "claim_sweep t (cache s) = Some c \<Longrightarrow> cache_step s (s\<lparr>cache := c\<rparr>)"
| sweep_dead: "set dead \<subseteq> {key. \<exists>e. map_of (cc_entries (cache s)) key = Some e \<and> \<not> entry_live e now} \<Longrightarrow>
    cache_step s (s\<lparr>cache := (cache s)\<lparr>cc_entries := filter (\<lambda>(k, _). k \<notin> set dead) (cc_entries (cache s))\<rparr>,
      owed := owed s + length (filter (\<lambda>(k, _). k \<in> set dead) (cc_entries (cache s)))\<rparr>)"
| store_entry: "0 < reserved s \<Longrightarrow> entry_for claims now (cache s) = Some e \<Longrightarrow>
    cache_step s (s\<lparr>cache := (cache s)\<lparr>cc_entries := AList.update key e (cc_entries (cache s))\<rparr>,
      reserved := reserved s - 1,
      owed := owed s + (if map_of (cc_entries (cache s)) key \<noteq> None then 1 else 0),
      stored := (key, claims, now) # stored s\<rparr>)"

inductive_cases cache_stepE: "cache_step s s'"

inductive cache_reachable :: "shared_cache \<Rightarrow> bool" where
  built: "cache_build config = Inr (Some c) \<Longrightarrow>
    cache_reachable \<lparr>cache = c, reserved = 0, owed = 0, stored = []\<rparr>"
| stepped: "cache_reachable s \<Longrightarrow> cache_step s s' \<Longrightarrow> cache_reachable s'"

section \<open>The invariant\<close>

text \<open>Every slot taken is filled, reserved or owed back, and every entry was stored.\<close>

definition entry_ok :: "shared_cache \<Rightarrow> string \<Rightarrow> cache_entry \<Rightarrow> bool" where
  "entry_ok s key e \<longleftrightarrow> (\<exists>t. (key, ce_claims e, t) \<in> set (stored s) \<and> entry_for (ce_claims e) t (cache s) = Some e)"

definition cache_inv :: "shared_cache \<Rightarrow> bool" where
  "cache_inv s \<longleftrightarrow> distinct (map fst (cc_entries (cache s))) \<and>
     taken (cache s) = length (cc_entries (cache s)) + reserved s + owed s \<and>
     taken (cache s) \<le> max_entries (cache s) \<and>
     (\<forall>key e. map_of (cc_entries (cache s)) key = Some e \<longrightarrow> entry_ok s key e)"

lemma entry_for_cong: "max_ttl_secs c = max_ttl_secs c' \<Longrightarrow> entry_for cl t c = entry_for cl t c'"
  by (simp add: entry_for_def split: option.split)

lemma entry_ok_mono:
  "entry_ok s key e \<Longrightarrow> max_ttl_secs (cache s') = max_ttl_secs (cache s) \<Longrightarrow>
   set (stored s) \<subseteq> set (stored s') \<Longrightarrow> entry_ok s' key e"
  using entry_for_cong [of "cache s'" "cache s"] unfolding entry_ok_def by (metis subsetD)

lemma delete_notin: "k \<notin> fst ` set al \<Longrightarrow> AList.delete k al = al"
  by (induction al) auto

lemma length_delete_key:
  "distinct (map fst al) \<Longrightarrow> map_of al k = Some v \<Longrightarrow> Suc (length (AList.delete k al)) = length al"
proof (induction al)
  case (Cons kv al)
  then show ?case
  proof (cases "fst kv = k")
    case True
    then have "AList.delete k al = al"
      using Cons.prems(1) by (intro delete_notin) simp
    with True show ?thesis by (cases kv) simp
  qed (cases kv; simp)
qed simp

lemma map_of_filter_key: "map_of (filter (\<lambda>(k, _). P k) al) key = (if P key then map_of al key else None)"
  by (induction al) auto

lemma length_filter_keys:
  "length al = length (filter (\<lambda>(k, _). k \<notin> S) al) + length (filter (\<lambda>(k, _). k \<in> S) al)"
  by (induction al) auto

lemma cache_step_inv:
  assumes "cache_step s s'" "cache_inv s"
  shows "cache_inv s'"
  using assms(1)
proof cases
  case (drop_dead key e now)
  then have "Suc (length (AList.delete key (cc_entries (cache s)))) = length (cc_entries (cache s))"
    using assms(2) by (intro length_delete_key) (simp_all add: cache_inv_def)
  then show ?thesis using assms(2) drop_dead entry_ok_mono [of s _ _ s']
    by (auto simp: cache_inv_def delete_conv' distinct_delete split: if_split_asm)
next
  case (give_back n)
  then show ?thesis using assms(2) entry_ok_mono [of s _ _ s'] by (auto simp: cache_inv_def)
next
  case (take_slot c)
  then show ?thesis using assms(2) entry_ok_mono [of s _ _ s']
    by (auto simp: cache_inv_def reserve_def split: if_split_asm)
next
  case (start_sweep t c)
  then show ?thesis using assms(2) entry_ok_mono [of s _ _ s']
    by (auto simp: cache_inv_def claim_sweep_def split: if_split_asm)
next
  case (sweep_dead dead now)
  then show ?thesis
    using assms(2) entry_ok_mono [of s _ _ s']
      length_filter_keys [of "cc_entries (cache s)" "set dead"]
    by (auto simp: cache_inv_def distinct_filter_keys map_of_filter_key split: if_split_asm)
next
  case (store_entry claims now e key)
  have "ce_claims e = claims"
    using store_entry(3) by (auto simp: entry_for_def split: option.split_asm if_split_asm)
  then have "entry_ok s' key e"
    using store_entry(1,3) entry_for_cong [of "cache s'" "cache s" claims now] by (auto simp: entry_ok_def)
  moreover have "entry_ok s' k d" if "map_of (cc_entries (cache s)) k = Some d" for k d
  proof -
    have "entry_ok s k d" using that assms(2) by (simp add: cache_inv_def)
    then show ?thesis by (rule entry_ok_mono) (auto simp: store_entry(1))
  qed
  moreover have "map_of (cc_entries (cache s')) = (map_of (cc_entries (cache s)))(key \<mapsto> e)"
    by (simp add: store_entry(1) update_conv')
  ultimately have "\<forall>k d. map_of (cc_entries (cache s')) k = Some d \<longrightarrow> entry_ok s' k d" by simp
  then show ?thesis using store_entry(1,2) assms(2)
    by (simp add: cache_inv_def distinct_update length_update_keys map_of_eq_None_iff)
qed

lemma cache_reachable_inv: "cache_reachable s \<Longrightarrow> cache_inv s"
proof (induction rule: cache_reachable.induct)
  case (built config c)
  then show ?case by (auto simp: cache_build_def cache_inv_def split: if_split_asm)
next
  case (stepped s s')
  then show ?case by (blast intro: cache_step_inv)
qed

section \<open>The sequential operations are runs of steps\<close>

text \<open>A cache no thread is inside of.\<close>

definition at_rest :: "(string \<times> json \<times> moment) list \<Rightarrow> claims_cache \<Rightarrow> shared_cache" where
  "at_rest h c = \<lparr>cache = c, reserved = 0, owed = 0, stored = h\<rparr>"

lemma filter_live_keys:
  fixes P :: "'v \<Rightarrow> bool"
  assumes "distinct (map fst al)"
  defines "dead \<equiv> map fst (filter (\<lambda>(_, e). \<not> P e) al)"
  shows "filter (\<lambda>(k, _). k \<notin> set dead) al = filter (\<lambda>(_, e). P e) al"
    "filter (\<lambda>(k, _). k \<in> set dead) al = filter (\<lambda>(_, e). \<not> P e) al"
proof -
  have d: "k \<in> set dead \<longleftrightarrow> \<not> P e" if ke: "(k, e) \<in> set al" for k e
  proof
    assume "k \<in> set dead"
    then obtain e' where "(k, e') \<in> set al" "\<not> P e'" unfolding dead_def by auto
    with eq_key_imp_eq_value [OF assms(1) ke] show "\<not> P e" by blast
  next
    assume "\<not> P e"
    with ke show "k \<in> set dead" unfolding dead_def by (auto intro!: image_eqI [where x = "(k, e)"])
  qed
  show "filter (\<lambda>(k, _). k \<notin> set dead) al = filter (\<lambda>(_, e). P e) al"
    "filter (\<lambda>(k, _). k \<in> set dead) al = filter (\<lambda>(_, e). \<not> P e) al"
    using d by (auto intro!: filter_cong)
qed

lemma cache_get_steps: "cache_step\<^sup>*\<^sup>* (at_rest h c) (at_rest h (snd (cache_get key now c)))"
proof (cases "map_of (cc_entries c) key")
  case (Some e)
  show ?thesis
  proof (cases "entry_live e now")
    case False
    have "cache_step (at_rest h c)
        ((at_rest h c)\<lparr>cache := c\<lparr>cc_entries := AList.delete key (cc_entries c)\<rparr>, owed := 1\<rparr>)" (is "cache_step _ ?s")
      using cache_step.drop_dead [of "at_rest h c" key e now] Some False by (simp add: at_rest_def)
    moreover have "cache_step ?s (at_rest h (snd (cache_get key now c)))"
      using cache_step.give_back [of 1 ?s] Some False by (simp add: at_rest_def cache_get_def)
    ultimately show ?thesis by (meson converse_rtranclp_into_rtranclp rtranclp.rtrancl_refl)
  qed (simp add: cache_get_def Some)
qed (simp add: cache_get_def)

lemma cache_sweep_steps:
  assumes "distinct (map fst (cc_entries c))"
  shows "cache_step\<^sup>*\<^sup>* (at_rest h c) (at_rest h (cache_sweep now c))"
proof -
  let ?dead = "map fst (filter (\<lambda>(_, e). \<not> entry_live e now) (cc_entries c))"
  note f = filter_live_keys [OF assms, of "\<lambda>e. entry_live e now"]
  have "set ?dead \<subseteq> {key. \<exists>e. map_of (cc_entries c) key = Some e \<and> \<not> entry_live e now}"
    using assms by auto
  then have "cache_step (at_rest h c) ((at_rest h c)\<lparr>cache := c\<lparr>cc_entries :=
      filter (\<lambda>(_, e). entry_live e now) (cc_entries c)\<rparr>, owed := dead_entries now c\<rparr>)" (is "cache_step _ ?s")
    using cache_step.sweep_dead [of ?dead "at_rest h c" now] f
    by (simp add: at_rest_def dead_entries_def)
  moreover have "cache_step ?s (at_rest h (cache_sweep now c))"
    using cache_step.give_back [of "dead_entries now c" ?s] by (simp add: at_rest_def cache_sweep_def)
  ultimately show ?thesis by (meson converse_rtranclp_into_rtranclp rtranclp.rtrancl_refl)
qed

lemma reserve_store_steps:
  assumes "reserve c = Some c1" "entry_for claims now c = Some e"
  shows "cache_step\<^sup>*\<^sup>* (at_rest h c) (at_rest ((key, claims, now) # h) (cache_store key e c1))"
proof -
  let ?s1 = "(at_rest h c)\<lparr>cache := c1, reserved := 1\<rparr>"
  let ?new = "map_of (cc_entries c1) key \<noteq> None"
  let ?s2 = "\<lparr>cache = c1\<lparr>cc_entries := AList.update key e (cc_entries c1)\<rparr>, reserved = 0,
      owed = (if ?new then 1 else 0), stored = (key, claims, now) # h\<rparr>"
  have a: "cache_step (at_rest h c) ?s1"
    using cache_step.take_slot [of "at_rest h c" c1] assms(1) by (simp add: at_rest_def)
  have "entry_for claims now c1 = Some e"
    using assms entry_for_cong [of c1 c claims now] by (auto simp: reserve_def split: if_split_asm)
  then have b: "cache_step ?s1 ?s2"
    using cache_step.store_entry [of ?s1 claims now e key] by (simp add: at_rest_def)
  have "cache_step ?s2 (at_rest ((key, claims, now) # h) (cache_store key e c1))"
    using cache_step.give_back [of "owed ?s2" ?s2]
    by (cases ?new) (simp_all add: at_rest_def cache_store_def Let_def)
  with a b show ?thesis by (meson converse_rtranclp_into_rtranclp rtranclp.rtrancl_refl)
qed

text \<open>Whatever \<open>insert\<close> does is a run of steps, and only it stores.\<close>

lemma cache_insert_steps:
  assumes "distinct (map fst (cc_entries c))"
  shows "\<exists>h'. set h' \<subseteq> insert (key, claims, now) (set h) \<and>
    cache_step\<^sup>*\<^sup>* (at_rest h c) (at_rest h' (cache_insert key claims now c))"
proof (cases "entry_for claims now c")
  case (Some e)
  show ?thesis
  proof (cases "reserve c")
    case r: (Some c1)
    with Some reserve_store_steps [OF r Some, of h key] show ?thesis
      by (intro exI [where x = "(key, claims, now) # h"]) (simp add: cache_insert_def)
  next
    case r: None
    show ?thesis
    proof (cases "claim_sweep (since now) c")
      case w: (Some c1)
      have c1: "distinct (map fst (cc_entries c1))" "max_ttl_secs (cache_sweep now c1) = max_ttl_secs c"
        using w assms by (auto simp: claim_sweep_def cache_sweep_def split: if_split_asm)
      have "cache_step (at_rest h c) (at_rest h c1)"
        using cache_step.start_sweep [of "since now" "at_rest h c" c1] w by (simp add: at_rest_def)
      then have run: "cache_step\<^sup>*\<^sup>* (at_rest h c) (at_rest h (cache_sweep now c1))"
        using cache_sweep_steps [OF c1(1), of h now] by (rule converse_rtranclp_into_rtranclp)
      have e: "entry_for claims now (cache_sweep now c1) = Some e"
        using entry_for_cong [OF c1(2)] Some by simp
      show ?thesis
      proof (cases "reserve (cache_sweep now c1)")
        case None
        with Some r w run show ?thesis by (auto simp: cache_insert_def Let_def)
      next
        case r3: (Some c3)
        with Some r w rtranclp_trans [OF run reserve_store_steps [OF r3 e, of h key]] show ?thesis
          by (intro exI [where x = "(key, claims, now) # h"]) (simp add: cache_insert_def Let_def)
      qed
    qed (use Some r in \<open>auto simp: cache_insert_def\<close>)
  qed
qed (auto simp: cache_insert_def)

section \<open>Properties\<close>

text \<open>
  C37. The cache under any interleaving of threads. It never holds more than
  \<open>max_entries\<close> tokens, and an answer to a lookup is the claims stored for that very
  token by an earlier verification at a moment they were valid, still before their
  \<open>exp\<close> and within the maximum age of that verification, whatever the wall clock did.
\<close>

theorem cached_claims_are_bounded_and_fresh:
  assumes "cache_reachable s"
  shows "length (cc_entries (cache s)) \<le> max_entries (cache s) \<and>
    (fst (cache_get key now (cache s)) = Some claims \<longrightarrow>
      (\<exists>t until. (key, claims, t) \<in> set (stored s) \<and> numeric_date claims ''exp'' = Some until \<and>
        unix t < until \<and> unix now < until \<and> since now < since t + max_ttl_secs (cache s) \<and>
        (\<forall>nbf. numeric_date claims ''nbf'' = Some nbf \<longrightarrow> nbf \<le> unix t)))"
proof -
  note inv = cache_reachable_inv [OF assms]
  have "\<exists>t until. (key, claims, t) \<in> set (stored s) \<and> numeric_date claims ''exp'' = Some until \<and>
      unix t < until \<and> unix now < until \<and> since now < since t + max_ttl_secs (cache s) \<and>
      (\<forall>nbf. numeric_date claims ''nbf'' = Some nbf \<longrightarrow> nbf \<le> unix t)"
    if got: "fst (cache_get key now (cache s)) = Some claims"
  proof -
    from got obtain e where e: "map_of (cc_entries (cache s)) key = Some e" "entry_live e now" "ce_claims e = claims"
      by (auto simp: cache_get_def split: option.split_asm if_split_asm)
    have "entry_ok s key e" using inv e(1) unfolding cache_inv_def by blast
    then obtain t where t: "(key, claims, t) \<in> set (stored s)" "entry_for claims t (cache s) = Some e"
      using e(3) by (auto simp: entry_ok_def)
    from t(2) obtain until where u: "numeric_date claims ''exp'' = Some until" "unix t < until"
      "case numeric_date claims ''nbf'' of None \<Rightarrow> True | Some nbf \<Rightarrow> nbf \<le> unix t"
      "e = \<lparr>ce_claims = claims, ce_exp = until, ce_deadline = sat_u64 (since t + max_ttl_secs (cache s))\<rparr>"
      by (auto simp: entry_for_def not_le not_less split: option.split_asm if_split_asm)
    then have "unix now < until" "since now < sat_u64 (since t + max_ttl_secs (cache s))"
      using e(2) by (auto simp: entry_live_def)
    moreover have "sat_u64 (since t + max_ttl_secs (cache s)) \<le> since t + max_ttl_secs (cache s)"
      by (simp add: sat_u64_def)
    ultimately have "unix now < until" "since now < since t + max_ttl_secs (cache s)" by linarith+
    moreover have "\<forall>nbf. numeric_date claims ''nbf'' = Some nbf \<longrightarrow> nbf \<le> unix t" using u(3) by auto
    ultimately show ?thesis using t(1) u(1,2) by blast
  qed
  with inv show ?thesis by (auto simp: cache_inv_def)
qed

definition sample_claims :: json where
  "sample_claims = JObject [(''sub'', JString ''alice''), (''exp'', JNumber (PosInt 2000))]"

definition sample_cache :: claims_cache where
  "sample_cache = \<lparr>cc_entries = [], taken = 0, max_entries = 2, max_ttl_secs = 300, max_token_bytes = 4096, next_sweep = 0\<rparr>"

lemma sample_cache_reachable:
  "cache_reachable \<lparr>cache = sample_cache\<lparr>cc_entries := [(''h'', \<lparr>ce_claims = sample_claims, ce_exp = 2000, ce_deadline = 310\<rparr>)],
      taken := 1\<rparr>, reserved = 0, owed = 0, stored = [(''h'', sample_claims, \<lparr>unix = 1000, since = 10\<rparr>)]\<rparr>"
  (is "cache_reachable ?s2")
proof -
  let ?s0 = "\<lparr>cache = sample_cache, reserved = 0, owed = 0, stored = []\<rparr>"
  let ?s1 = "\<lparr>cache = sample_cache\<lparr>taken := 1\<rparr>, reserved = 1, owed = 0, stored = []\<rparr>"
  have "cache_build \<lparr>jc_enabled = True, jc_max_entries = 2, jc_max_ttl_secs = 300, jc_max_token_bytes = 4096\<rparr> =
      Inr (Some sample_cache)" by (simp add: cache_build_def sample_cache_def)
  then have "cache_reachable ?s0" by (rule cache_reachable.built)
  moreover have "cache_step ?s0 ?s1"
    using cache_step.take_slot [of ?s0 "sample_cache\<lparr>taken := 1\<rparr>"] by (simp add: reserve_def sample_cache_def)
  moreover have "cache_step ?s1 ?s2"
    using cache_step.store_entry [of ?s1 sample_claims "\<lparr>unix = 1000, since = 10\<rparr>"
        "\<lparr>ce_claims = sample_claims, ce_exp = 2000, ce_deadline = 310\<rparr>" "''h''"]
    by (simp add: entry_for_def numeric_date_def sample_claims_def sample_cache_def sat_u64_def u64_max_def)
  ultimately show ?thesis by (blast intro: cache_reachable.stepped)
qed

theorem cached_claims_are_bounded_and_fresh_witness:
  "let c = sample_cache\<lparr>cc_entries := [(''h'', \<lparr>ce_claims = sample_claims, ce_exp = 2000, ce_deadline = 310\<rparr>)], taken := 1\<rparr>
   in fst (cache_get ''h'' \<lparr>unix = 1500, since = 200\<rparr> c) = Some sample_claims \<and>
     numeric_date sample_claims ''exp'' \<noteq> None"
proof -
  have "fst (cache_get ''h'' \<lparr>unix = 1500, since = 200\<rparr> (sample_cache\<lparr>cc_entries := [(''h'',
      \<lparr>ce_claims = sample_claims, ce_exp = 2000, ce_deadline = 310\<rparr>)], taken := 1\<rparr>)) = Some sample_claims"
    by (simp add: cache_get_def entry_live_def)
  with cached_claims_are_bounded_and_fresh [OF sample_cache_reachable, of "''h''" "\<lparr>unix = 1500, since = 200\<rparr>" sample_claims]
  show ?thesis by (auto simp: Let_def)
qed

end
