(* ===== verification/Spec2Isabelle.thy ===== *)
theory Spec2Isabelle
  imports Prelude Gcra Limiter_Spec Store Rate Headers Ip_Addr Client_Address Metadata Path Route_Index
    Escapes Rule Table Routes Json Status Matcher Resolve Global Request Shield Claims_Cache
begin

text \<open>Header.\<close>

end
